(* ===== verification/Noc_Prelude.thy ===== *)
theory Noc_Prelude
  imports Main "HOL-Library.Word" "HOL-Library.Monad_Syntax"
begin

text \<open>
  Prelude of the development: the machine types of the target, the fault values that stand for
  the C operations without defined behaviour, and the generic lemmas on words that the components
  share.  The target is the 64-bit one of the Makefile (x86_64, aarch64): pointers, \<open>size_t\<close> and
  \<open>uintptr_t\<close> are 64 bits wide, \<open>int\<close> is 32 bits wide.
\<close>

unbundle bit_operations_syntax

section \<open>Machine types\<close>

type_synonym byte = "8 word"
type_synonym u16 = "16 word"
type_synonym u32 = "32 word"
type_synonym u64 = "64 word"
type_synonym addr = "64 word"

text \<open>
  Operations whose result the C standard leaves undefined are values of \<open>fault\<close>: a model that
  reaches one returns \<open>Inl\<close> of it, so that a theorem about a result \<open>Inr\<close> also says that no such
  operation was executed.
\<close>

datatype fault =
    Div_By_Zero
  | Signed_Overflow
  | Bad_Shift
  | Missing_Argument
  | Wrong_Argument_Type
  | Read_Past_End
  | Buffer_Overrun
  | Null_Dereference
  | Trap

type_synonym 'a res = "fault + 'a"

definition bind_res :: "'a res \<Rightarrow> ('a \<Rightarrow> 'b res) \<Rightarrow> 'b res" where
  "bind_res m f = (case m of Inl e \<Rightarrow> Inl e | Inr x \<Rightarrow> f x)"

lemma bind_res_simps [simp]:
  "bind_res (Inl e) f = Inl e"
  "bind_res (Inr x) f = f x"
  by (simp_all add: bind_res_def)

lemma bind_res_eq_Inr: "bind_res m f = Inr y \<longleftrightarrow> (\<exists>x. m = Inr x \<and> f x = Inr y)"
  by (cases m) simp_all

lemma bind_res_assoc: "bind_res (bind_res m f) g = bind_res m (\<lambda>x. bind_res (f x) g)"
  by (cases m) simp_all

lemma bind_res_cong [fundef_cong]:
  "m = m' \<Longrightarrow> (\<And>x. m' = Inr x \<Longrightarrow> f x = g x) \<Longrightarrow> bind_res m f = bind_res m' g"
  by (cases m') simp_all

section \<open>Natural numbers\<close>

lemma div_mod_eqI:
  assumes "n = q * d + r" and "r < (d :: nat)"
  shows "q = n div d" and "r = n mod d"
  using assms by simp_all

section \<open>Words as natural numbers\<close>

named_theorems word_nat \<open>rewrite word operations that do not wrap into arithmetic on nat\<close>

lemma unat_add_fits [word_nat]:
  "unat a + unat b < 2 ^ LENGTH('a) \<Longrightarrow> unat (a + b) = unat a + unat b"
  for a b :: "'a::len word"
  by (rule unat_add_lem [THEN iffD1])

lemma unat_mult_fits:
  "unat a * unat b < 2 ^ LENGTH('a) \<Longrightarrow> unat (a * b) = unat a * unat b"
  for a b :: "'a::len word"
  by (rule unat_mult_lem [THEN iffD1])

lemma unat_sub_fits [word_nat]:
  "unat b \<le> unat a \<Longrightarrow> unat (a - b) = unat a - unat b"
  for a b :: "'a::len word"
  by (simp add: unat_sub word_le_nat_alt)

lemma unat_less_exp [simp]: "unat a < 2 ^ LENGTH('a)"
  for a :: "'a::len word"
  by (rule unsigned_less)

lemma unat_drop_bit_div [word_nat]: "unat (drop_bit n a) = unat a div 2 ^ n"
  for a :: "'a::len word"
  by (simp add: unsigned_drop_bit_eq drop_bit_eq_div [of n "unat a"] take_bit_nat_eq_self del: drop_bit_eq_div)

lemma unat_push_bit_fits [word_nat]:
  "unat a * 2 ^ n < 2 ^ LENGTH('a) \<Longrightarrow> unat (push_bit n a) = unat a * 2 ^ n"
  for a :: "'a::len word"
  by (metis push_bit_nat_def take_bit_nat_eq_self unsigned_push_bit_eq)

lemma unat_and_mask [word_nat]: "unat (a AND mask n) = unat a mod 2 ^ n"
  for a :: "'a::len word"
  by (metis take_bit_eq_mask take_bit_eq_mod unsigned_take_bit_eq)

lemma word_of_unat: "of_nat (unat a) = a"
  for a :: "'a::len word"
  by simp

lemma unat_of_nat_eq [word_nat]: "n < 2 ^ LENGTH('a) \<Longrightarrow> unat (of_nat n :: 'a::len word) = n"
  by (simp add: unat_of_nat)

lemma unat_of_nat_below [word_nat]:
  "i < unat w \<Longrightarrow> unat (of_nat i :: 'a::len word) = i"
  for w :: "'a::len word"
  by (rule unat_of_nat_eq) (rule order_less_trans [OF _ unat_less_exp])

lemma unat_ucast_mod: "unat (ucast a :: 'b::len word) = unat a mod 2 ^ LENGTH('b)"
  for a :: "'a::len word"
  by (simp add: unsigned_ucast_eq take_bit_eq_mod)

lemma unat_ucast_up [word_nat]:
  "LENGTH('a) \<le> LENGTH('b) \<Longrightarrow> unat (ucast a :: 'b::len word) = unat a"
  for a :: "'a::len word"
  by (simp add: unsigned_ucast_eq take_bit_nat_eq_self order_less_le_trans [OF unat_less_exp])

lemma sint_small: "unat w < 2 ^ (LENGTH('a) - 1) \<Longrightarrow> sint w = int (unat w)"
  for w :: "'a::len word"
proof -
  assume "unat w < 2 ^ (LENGTH('a) - 1)"
  then have "int (unat w) < int (2 ^ (LENGTH('a) - 1))" by (simp only: of_nat_less_iff)
  then have "uint w < 2 ^ (LENGTH('a) - 1)" by simp
  moreover have "- (2 ^ (LENGTH('a) - 1)) \<le> uint w"
    by (rule order_trans [of _ 0]) simp_all
  ultimately have "sint w = uint w"
    unfolding sint_uint by (intro signed_take_bit_int_eq_self) simp_all
  then show ?thesis by simp
qed

text \<open>Joining a shifted high part with a low part by \<open>|\<close> is addition.\<close>

lemma push_bit_or_add:
  fixes a b :: "'a::len word"
  assumes "unat b < 2 ^ n"
  shows "push_bit n a OR b = push_bit n a + b"
proof (rule disjunctive_add [symmetric])
  fix k
  have "k < n" if "bit b k"
  proof (rule ccontr)
    assume "\<not> k < n"
    then have "(2::nat) ^ n \<le> 2 ^ k" by simp
    with assms have "unat b < 2 ^ k" by linarith
    then have "\<not> bit (unat b) k" by (simp add: bit_iff_odd)
    with that show False by (simp add: bit_unsigned_iff)
  qed
  then show "\<not> bit (push_bit n a) k \<or> \<not> bit b k"
    by (auto simp: bit_push_bit_iff)
qed

lemma unat_join [word_nat]:
  fixes a b :: "'a::len word"
  assumes "unat b < 2 ^ n" and "unat a * 2 ^ n + unat b < 2 ^ LENGTH('a)"
  shows "unat (push_bit n a OR b) = unat a * 2 ^ n + unat b"
proof -
  have "unat (push_bit n a) = unat a * 2 ^ n"
    using assms(2) by (intro unat_push_bit_fits) simp
  then show ?thesis
    using assms by (simp add: push_bit_or_add unat_add_fits)
qed

end
