(* ===== verification/Division.thy ===== *)
theory Division
  imports Noc_Prelude
begin

text \<open>
  \<open>src/support/umoddiv.c\<close> and the helpers of \<open>include/noc_internal/common.h\<close> it uses: the
  division of a 64-bit value by a 32-bit divisor from 32-bit divisions (Knuth's algorithm D with
  16-bit digits), proved equal to the mathematical quotient and remainder.
\<close>

section \<open>The code\<close>

text \<open>
  \<open>__builtin_clz\<close> counts from the top bit downwards; \<open>clz_from k x\<close> is the number of
  zero bits of \<open>x\<close> above its highest one bit, looking at the bits below \<open>k\<close>.
\<close>

fun clz_from :: "nat \<Rightarrow> u32 \<Rightarrow> nat" where
  "clz_from 0 x = 0"
| "clz_from (Suc k) x = (if bit x k then 0 else Suc (clz_from k x))"

definition stdc_leading_zerosui :: "u32 \<Rightarrow> u32" where
  "stdc_leading_zerosui x = (if x \<noteq> 0 then of_nat (clz_from 32 x) else 32)"

text \<open>
  One digit of the quotient.  \<open>udiv_adjusted\<close> computes two of them with the same statements, the
  first on the upper half of the low word, the second on its lower half: estimate the digit from
  the high half of the divisor, then correct the estimate at most twice.
\<close>

definition udiv_digit :: "u32 \<Rightarrow> u32 \<Rightarrow> u32 \<Rightarrow> u32 \<times> u32" where
  "udiv_digit n_hi n_half d =
     (let d_hi = drop_bit 16 d;
          d_lo = d AND 0xffff;
          q = n_hi div d_hi;
          r = n_hi - q * d_hi;
          m = q * d_lo;
          r = push_bit 16 r OR n_half;
          (q, r) =
            (if r < m then
               (let q = q - 1; r = r + d in
                if r \<ge> d then (if r < m then (q - 1, r + d) else (q, r)) else (q, r))
             else (q, r))
      in (q, r - m))"

definition udiv_adjusted :: "u32 \<Rightarrow> u32 \<Rightarrow> u32 \<Rightarrow> u32 \<times> u32" where
  "udiv_adjusted n_hi32 n_lo32 d =
     (let (q_hi, r_hi) = udiv_digit n_hi32 (drop_bit 16 n_lo32) d;
          (q_lo, r_lo) = udiv_digit r_hi (n_lo32 AND 0xffff) d
      in (push_bit 16 q_hi OR q_lo, r_lo))"

text \<open>
  The result is the new value of \<open>*n\<close> and the returned remainder.  Division by zero traps.
\<close>

definition umoddiv32_soft :: "u64 \<Rightarrow> u32 \<Rightarrow> (u64 \<times> u32) res" where
  "umoddiv32_soft n d =
     (let n_hi32 = ucast (drop_bit 32 n) :: u32;
          n_lo32 = ucast n :: u32
      in if d = 0 \<or> n_hi32 = 0 then
           (if d = 0 then Inl Div_By_Zero
            else Inr (ucast (n_lo32 div d), n_lo32 mod d))
         else
           (let bm = unat (stdc_leading_zerosui d) in
            if d > n_hi32 then
              (let (d, n_hi32, n_lo32) =
                     (if bm \<noteq> 0 then
                        (push_bit bm d, push_bit bm n_hi32 OR drop_bit (32 - bm) n_lo32,
                         push_bit bm n_lo32)
                      else (d, n_hi32, n_lo32));
                   q_hi = 0 :: u32;
                   (q_lo, r) = udiv_adjusted n_hi32 n_lo32 d
               in Inr (push_bit 32 (ucast q_hi) OR ucast q_lo, drop_bit bm r))
            else
              (let (d, q_hi, n_hi32, n_lo32) =
                     (if bm = 0 then (d, 1, n_hi32 - d, n_lo32)
                      else
                        (let d = push_bit bm d;
                             n_top = drop_bit (32 - bm) n_hi32;
                             n_hi32 = push_bit bm n_hi32 OR drop_bit (32 - bm) n_lo32;
                             n_lo32 = push_bit bm n_lo32;
                             (q_hi, n_hi32) = udiv_adjusted n_top n_hi32 d
                         in (d, q_hi, n_hi32, n_lo32)));
                   (q_lo, r) = udiv_adjusted n_hi32 n_lo32 d
               in Inr (push_bit 32 (ucast q_hi) OR ucast q_lo, drop_bit bm r))))"

text \<open>The inline version for platforms with a 64-bit division (\<open>USE_PLATFORM_64BIT_DIV\<close>).\<close>

definition umoddiv32_platform :: "u64 \<Rightarrow> u32 \<Rightarrow> (u64 \<times> u32) res" where
  "umoddiv32_platform n d =
     (if d = 0 then Inl Div_By_Zero
      else (let nn = n in Inr (nn div ucast d, ucast (nn mod ucast d))))"

section \<open>Leading zeros\<close>


lemma clz_from_le: "clz_from k x \<le> k"
  by (induction k) auto

lemma clz_from_bounds:
  assumes "unat x < 2 ^ k" and "x \<noteq> 0"
  shows "2 ^ (k - 1 - clz_from k x) \<le> unat x \<and> unat x < 2 ^ (k - clz_from k x) \<and> clz_from k x < k"
  using assms
proof (induction k)
  case 0
  then show ?case by (simp add: unsigned_eq_0_iff)
next
  case (Suc k)
  show ?case
  proof (cases "bit x k")
    case True
    then have "bit (unat x) k" by (simp add: bit_unsigned_iff)
    then have "odd (unat x div 2 ^ k)" by (rule bit_iff_odd [THEN iffD1])
    then have "2 ^ k \<le> unat x" by (metis div_less dvd_0_right leI)
    with True Suc.prems show ?thesis by simp
  next
    case False
    then have "\<not> bit (unat x) k" by (simp add: bit_unsigned_iff)
    then have "even (unat x div 2 ^ k)" using bit_iff_odd by blast
    moreover have "unat x div 2 ^ k < 2" using Suc.prems(1) by (simp add: less_mult_imp_div_less)
    ultimately have "unat x div 2 ^ k = 0" by (auto simp del: div_eq_0_iff simp: less_2_cases_iff)
    then have "unat x < 2 ^ k" by (simp add: div_eq_0_iff)
    with Suc False show ?thesis by simp
  qed
qed

lemma leading_zeros_bounds:
  assumes "x \<noteq> 0"
  shows "unat (stdc_leading_zerosui x) < 32"
    and "2 ^ 31 \<le> unat x * 2 ^ unat (stdc_leading_zerosui x)"
    and "unat x * 2 ^ unat (stdc_leading_zerosui x) < 2 ^ 32"
proof -
  let ?k = "clz_from 32 x"
  have b: "2 ^ (31 - ?k) \<le> unat x" "unat x < 2 ^ (32 - ?k)" "?k < 32"
    using clz_from_bounds [of x 32] assms unat_less_exp [of x] by simp_all
  have u: "unat (stdc_leading_zerosui x) = ?k"
    using assms b(3) by (simp add: stdc_leading_zerosui_def unat_of_nat)
  show "unat (stdc_leading_zerosui x) < 32" using u b(3) by simp
  have "2 ^ (31 - ?k) * 2 ^ ?k \<le> unat x * 2 ^ ?k" using b(1) by simp
  then show "2 ^ 31 \<le> unat x * 2 ^ unat (stdc_leading_zerosui x)"
    using u b(3) by (simp flip: power_add)
  have "unat x * 2 ^ ?k < 2 ^ (32 - ?k) * 2 ^ ?k" using b(2) by simp
  then show "unat x * 2 ^ unat (stdc_leading_zerosui x) < 2 ^ 32"
    using u b(3) by (simp flip: power_add)
qed

section \<open>One digit of the quotient\<close>

text \<open>
  The arithmetic of one digit, on natural numbers: \<open>q0\<close> is the estimate from the high half
  of a normalised divisor.  It is at most two too large, and the product with the low half of the
  divisor never leaves the 32-bit range.
\<close>

lemma digit_estimate:
  fixes a x d dh dl :: nat
  assumes d: "d = dh * 65536 + dl" and dl: "dl < 65536" and norm: "2147483648 \<le> d"
    and d32: "d < 4294967296" and a: "a < d" and x: "x < 65536"
  defines "q0 \<equiv> a div dh" and "R \<equiv> a mod dh * 65536 + x"
  shows "a * 65536 + x + q0 * dl = q0 * d + R"
    and "q0 * dl < 4294967296"
    and "R < dh * 65536"
    and "q0 \<le> 65537"
proof -
  have dh: "32768 \<le> dh" "dh < 65536" using d dl norm d32 by simp_all
  have aq: "a = q0 * dh + a mod dh" by (simp add: q0_def)
  have "a * 65536 = q0 * dh * 65536 + a mod dh * 65536"
    by (subst aq) (simp add: algebra_simps)
  then show "a * 65536 + x + q0 * dl = q0 * d + R"
    by (simp add: d R_def algebra_simps)
  have "a mod dh + 1 \<le> dh" using dh by (simp add: Suc_leI)
  then have "(a mod dh + 1) * 65536 \<le> dh * 65536" by (rule mult_le_mono1)
  then show "R < dh * 65536" using x by (simp add: R_def)
  show q0: "q0 \<le> 65537"
  proof (rule ccontr)
    assume "\<not> q0 \<le> 65537"
    then have "65538 * dh \<le> q0 * dh" by simp
    also have "\<dots> \<le> a" using aq by simp
    finally show False using a d dl dh by simp
  qed
  have "q0 * dl \<le> 65537 * 65535" using q0 dl by (intro mult_le_mono) simp_all
  then show "q0 * dl < 4294967296" by simp
qed

lemma udiv_digit_correct:
  assumes norm: "2 ^ 31 \<le> unat d" and a: "unat a < unat d" and x: "unat x < 2 ^ 16"
  shows "unat (fst (udiv_digit a x d)) = (unat a * 2 ^ 16 + unat x) div unat d"
    and "unat (snd (udiv_digit a x d)) = (unat a * 2 ^ 16 + unat x) mod unat d"
proof -
  define dh where "dh = unat d div 65536"
  define dl where "dl = unat d mod 65536"
  have d: "unat d = dh * 65536 + dl" by (simp add: dh_def dl_def)
  have d32: "unat d < 4294967296" using unat_less_exp [of d] by simp
  have dl: "dl < 65536" by (simp add: dl_def)
  define q0 where "q0 = unat a div dh"
  define R where "R = unat a mod dh * 65536 + unat x"
  define m where "m = q0 * dl"
  have est: "unat a * 65536 + unat x + m = q0 * unat d + R" "m < 4294967296"
      "R < dh * 65536" "q0 \<le> 65537"
    unfolding q0_def R_def m_def
    using digit_estimate [OF d dl, of "unat a" "unat x"] norm d32 a x by simp_all
  have dhpos: "0 < dh" using d norm dl by (cases dh) simp_all
  let ?dh = "drop_bit 16 d" and ?dl = "d AND 0xffff"
  have udh: "unat ?dh = dh" by (simp only: unat_drop_bit_div dh_def) simp
  have udl: "unat ?dl = dl"
    using unat_and_mask [of d 16] by (simp add: dl_def mask_eq_exp_minus_1)
  let ?q = "a div ?dh"
  have uq: "unat ?q = q0" by (simp add: unat_div udh q0_def)
  let ?r0 = "a - ?q * ?dh"
  have ur0: "unat ?r0 = unat a mod dh"
    by (simp add: minus_div_mult_eq_mod unat_mod udh)
  let ?m = "?q * ?dl"
  have um: "unat ?m = m"
    using est(2) by (subst unat_mult_fits) (simp_all add: uq udl m_def)
  let ?r = "push_bit 16 ?r0 OR x"
  have R32: "R < 4294967296" using est(3) d d32 by simp
  have ur: "unat ?r = R"
    using x R32 by (subst unat_join) (simp_all add: ur0 R_def)
  note u = uq um ur
  define N where "N = unat a * 65536 + unat x"
  have N: "N + m = q0 * unat d + R" using est(1) by (simp add: N_def)
  have Rd: "R < unat d" using est(3) d by simp
  have m2: "m < 2 * unat d" using est(2) norm by simp
  have goal: "unat (fst (udiv_digit a x d)) = N div unat d
      \<and> unat (snd (udiv_digit a x d)) = N mod unat d"
  proof (cases "R < m")
    case False
    then have eq: "N = q0 * unat d + (R - m)" using N by simp
    have "fst (udiv_digit a x d) = ?q" "snd (udiv_digit a x d) = ?r - ?m"
      using False by (simp_all add: udiv_digit_def Let_def word_less_nat_alt u)
    moreover have "unat (?r - ?m) = R - m" using False by (simp add: unat_sub_fits u)
    ultimately show ?thesis using div_mod_eqI [OF eq] Rd by (simp add: uq)
  next
    case True
    have q0pos: "0 < q0" using True by (cases q0) (simp_all add: m_def)
    have wd: "?r = of_nat R" "d = of_nat (unat d)" "?m = of_nat m"
      by (simp_all flip: ur um)
    have final: "unat (w - ?m) = k" if "w = of_nat (k + m)" "k < unat d" for w k
      using that wd(3) d32 by (simp add: unat_of_nat_eq)
    show ?thesis
    proof (cases "R + unat d < m")
      case False
      let ?k = "R + unat d - m"
      have k: "?k < unat d" "?k + m = R + unat d" using True False by simp_all
      have "q0 * unat d = (q0 - 1) * unat d + unat d" using q0pos by (cases q0) simp_all
      then have eq: "N = (q0 - 1) * unat d + ?k" using N k by simp
      have "\<not> (d \<le> ?r + d \<and> ?r + d < ?m)"
        using False d32 R32 by (auto simp: word_less_nat_alt word_le_nat_alt unat_plus_if' u)
      then have "udiv_digit a x d = (?q - 1, ?r + d - ?m)"
        using True by (simp add: udiv_digit_def Let_def word_less_nat_alt u)
      moreover have "unat (?r + d - ?m) = ?k"
        by (rule final [OF _ k(1)]) (simp add: k wd(1) flip: wd(2))
      moreover have "unat (?q - 1) = q0 - 1" using q0pos by (simp add: unat_sub_fits uq)
      ultimately show ?thesis using div_mod_eqI [OF eq k(1)] by (simp only: fst_conv snd_conv simp_thms)
    next
      case True2: True
      let ?k = "R + 2 * unat d - m"
      have k: "?k < unat d" "?k + m = R + 2 * unat d" using True2 m2 by simp_all
      have q0two: "2 \<le> q0"
      proof (rule ccontr)
        assume "\<not> 2 \<le> q0"
        with q0pos have "q0 = 1" by simp
        then have "m \<le> unat d" using d by (simp add: m_def)
        with True2 show False by simp
      qed
      then have "q0 * unat d = (q0 - 2) * unat d + 2 * unat d"
        by (metis add_mult_distrib le_add_diff_inverse2)
      then have eq: "N = (q0 - 2) * unat d + ?k" using N k by simp
      have "R + unat d < 4294967296" using True2 est(2) by simp
      then have "d \<le> ?r + d" "?r + d < ?m"
        using True2 by (simp_all add: word_less_nat_alt word_le_nat_alt unat_add_fits u)
      then have "udiv_digit a x d = (?q - 1 - 1, ?r + d + d - ?m)"
        using True by (simp add: udiv_digit_def Let_def word_less_nat_alt u)
      moreover have "unat (?r + d + d - ?m) = ?k"
        by (rule final [OF _ k(1)]) (simp add: k wd(1) flip: wd(2))
      moreover have "unat (?q - 1 - 1) = q0 - 2" using q0two by (simp add: unat_sub_fits uq)
      ultimately show ?thesis using div_mod_eqI [OF eq k(1)] by (simp only: fst_conv snd_conv simp_thms)
    qed
  qed
  show "unat (fst (udiv_digit a x d)) = (unat a * 2 ^ 16 + unat x) div unat d"
    and "unat (snd (udiv_digit a x d)) = (unat a * 2 ^ 16 + unat x) mod unat d"
    using goal by (simp_all add: N_def)
qed

section \<open>Two digits: 64 by 32 bits with a normalised divisor\<close>

text \<open>The step of long division: a quotient digit, then the remainder with the next digit.\<close>

lemma long_division_step:
  fixes H x d B :: nat
  assumes "0 < d"
  shows "(H * B + x) div d = H div d * B + (H mod d * B + x) div d"
    and "(H * B + x) mod d = (H mod d * B + x) mod d"
proof -
  have "H * B = (H div d * d + H mod d) * B" by simp
  then have eq: "H * B + x = (H div d * B) * d + (H mod d * B + x)"
    by (simp only: add_mult_distrib mult.assoc mult.commute [of d B] add.assoc)
  show "(H * B + x) div d = H div d * B + (H mod d * B + x) div d"
    unfolding eq by (rule div_mult_self3) (use assms in simp)
  show "(H * B + x) mod d = (H mod d * B + x) mod d"
    unfolding eq by (rule mod_mult_self3)
qed

lemma digit_less:
  fixes a x d B :: nat
  assumes "a < d" and "x < B"
  shows "(a * B + x) div d < B"
proof -
  have "(a + 1) * B \<le> d * B" using assms(1) by (intro mult_le_mono1) simp
  then have "a * B + x < B * d" using assms(2) by (simp add: algebra_simps)
  then show ?thesis by (simp add: less_mult_imp_div_less)
qed

lemma udiv_adjusted_correct:
  assumes norm: "2 ^ 31 \<le> unat d" and hi: "unat n_hi < unat d"
  shows "unat (fst (udiv_adjusted n_hi n_lo d)) = (unat n_hi * 2 ^ 32 + unat n_lo) div unat d"
    and "unat (snd (udiv_adjusted n_hi n_lo d)) = (unat n_hi * 2 ^ 32 + unat n_lo) mod unat d"
proof -
  let ?u = "drop_bit 16 n_lo" and ?l = "n_lo AND 0xffff"
  have u: "unat ?u = unat n_lo div 2 ^ 16" by (rule unat_drop_bit_div)
  have l: "unat ?l = unat n_lo mod 2 ^ 16"
    using unat_and_mask [of n_lo 16] by (simp add: mask_eq_exp_minus_1)
  have ub: "unat ?u < 2 ^ 16" using unat_less_exp [of n_lo] unfolding u by simp
  have lb: "unat ?l < 2 ^ 16" unfolding l by simp
  have pos: "0 < unat d" using norm by simp
  obtain q1 r1 where d1: "udiv_digit n_hi ?u d = (q1, r1)" by fastforce
  obtain q2 r2 where d2: "udiv_digit r1 ?l d = (q2, r2)" by fastforce
  let ?H = "unat n_hi * 2 ^ 16 + unat ?u"
  have c1: "unat q1 = ?H div unat d" "unat r1 = ?H mod unat d"
    using udiv_digit_correct [OF norm hi ub] d1 by simp_all
  have r1: "unat r1 < unat d" using pos by (simp add: c1)
  have c2: "unat q2 = (unat r1 * 2 ^ 16 + unat ?l) div unat d"
      "unat r2 = (unat r1 * 2 ^ 16 + unat ?l) mod unat d"
    using udiv_digit_correct [OF norm r1 lb] d2 by simp_all
  have b1: "unat q1 < 2 ^ 16" unfolding c1 by (rule digit_less [OF hi ub])
  have b2: "unat q2 < 2 ^ 16" unfolding c2 by (rule digit_less [OF r1 lb])
  have j: "unat (push_bit 16 q1 OR q2) = unat q1 * 2 ^ 16 + unat q2"
    using b1 b2 by (intro unat_join) simp_all
  have N: "unat n_hi * 2 ^ 32 + unat n_lo = ?H * 2 ^ 16 + unat ?l"
    by (simp add: u l)
  have res: "udiv_adjusted n_hi n_lo d = (push_bit 16 q1 OR q2, r2)"
    by (simp add: udiv_adjusted_def d1 d2)
  show "unat (fst (udiv_adjusted n_hi n_lo d)) = (unat n_hi * 2 ^ 32 + unat n_lo) div unat d"
    unfolding N using long_division_step(1) [OF pos, of ?H "2 ^ 16" "unat ?l"]
    by (simp only: res j c2 fst_conv flip: c1)
  show "unat (snd (udiv_adjusted n_hi n_lo d)) = (unat n_hi * 2 ^ 32 + unat n_lo) mod unat d"
    unfolding N using long_division_step(2) [OF pos, of ?H "2 ^ 16" "unat ?l"]
    by (simp only: res c2 snd_conv flip: c1)
qed

section \<open>Normalisation\<close>

lemma unat_push_bit_mod: "unat (push_bit n a) = unat a * 2 ^ n mod 2 ^ LENGTH('a)"
  for a :: "'a::len word"
  by (metis push_bit_nat_def take_bit_eq_mod unsigned_push_bit_eq)

text \<open>Shifting a two-word value left by \<open>k\<close>: the new upper word, and the bits that fall out.\<close>

lemma unat_shift_pair:
  fixes a b :: u32
  assumes k: "0 < k" "k < 32"
  shows "unat (push_bit k a OR drop_bit (32 - k) b)
    = unat a * 2 ^ k mod 2 ^ 32 + unat b * 2 ^ k div 2 ^ 32"
    and "unat (drop_bit (32 - k) b) = unat b * 2 ^ k div 2 ^ 32"
proof -
  have p: "(2::nat) ^ 32 = 2 ^ (32 - k) * 2 ^ k" using k by (simp flip: power_add)
  show top: "unat (drop_bit (32 - k) b) = unat b * 2 ^ k div 2 ^ 32"
    by (simp add: unat_drop_bit_div p del: power_numeral)
  have blt: "unat b < 2 ^ k * 2 ^ (32 - k)" using unat_less_exp [of b] p by (simp add: mult.commute)
  then have small: "unat (drop_bit (32 - k) b) < 2 ^ k"
    by (simp add: unat_drop_bit_div less_mult_imp_div_less)
  have mult: "unat a * 2 ^ k mod 2 ^ 32 = (unat a mod 2 ^ (32 - k)) * 2 ^ k"
    by (simp add: p mod_mult_mult2 del: power_numeral)
  have "unat a mod 2 ^ (32 - k) + 1 \<le> 2 ^ (32 - k)" by (simp add: Suc_leI)
  then have "(unat a mod 2 ^ (32 - k) + 1) * 2 ^ k \<le> 2 ^ (32 - k) * 2 ^ k" by (rule mult_le_mono1)
  then have fit: "unat (push_bit k a) + unat (drop_bit (32 - k) b) < 2 ^ LENGTH(32)"
    using small p mult by (simp add: unat_push_bit_mod)
  show "unat (push_bit k a OR drop_bit (32 - k) b)
    = unat a * 2 ^ k mod 2 ^ 32 + unat b * 2 ^ k div 2 ^ 32"
    unfolding push_bit_or_add [OF small] unat_add_fits [OF fit] top
    by (simp add: unat_push_bit_mod)
qed

section \<open>The whole division\<close>

text \<open>The two halves of the dividend.\<close>

lemma unat_halves:
  fixes n :: u64
  defines "hi \<equiv> ucast (drop_bit 32 n) :: u32" and "lo \<equiv> ucast n :: u32"
  shows "unat n = unat hi * 2 ^ 32 + unat lo"
proof -
  have "unat n < 2 ^ 64" using unat_less_exp [of n] by simp
  then have "unat n div 2 ^ 32 < 2 ^ 32" by (simp add: less_mult_imp_div_less)
  then have hi: "unat hi = unat n div 2 ^ 32"
    by (simp only: hi_def unat_ucast_mod unat_drop_bit_div len_bit0 len_num1) simp
  have lo: "unat lo = unat n mod 2 ^ 32"
    by (simp only: lo_def unat_ucast_mod) simp
  show ?thesis by (simp only: hi lo div_mult_mod_eq)
qed

lemma unat_join_halves:
  "unat (push_bit 32 (ucast a :: u64) OR ucast b) = unat a * 2 ^ 32 + unat b"
  for a b :: u32
proof -
  have a: "unat a < 2 ^ 32" and b: "unat b < 2 ^ 32"
    using unat_less_exp [of a] unat_less_exp [of b] by simp_all
  then have "unat a * 2 ^ 32 + unat b < 2 ^ 64" by simp
  with a b show ?thesis by (subst unat_join) (simp_all add: unat_ucast_up)
qed

lemma div_scaled: "0 < s \<Longrightarrow> (n * s) div (d * s) = n div d"
  for n d s :: nat
  by simp

lemma mod_scaled: "0 < s \<Longrightarrow> (n * s) mod (d * s) div s = n mod d"
  for n d s :: nat
  by (simp add: mod_mult_mult2)

text \<open>
  The last step shared by all branches: a normalised upper word below the divisor, divided together
  with the lower word.
\<close>

lemma last_step:
  assumes d: "d \<noteq> 0" and bm: "bm = unat (stdc_leading_zerosui d)"
    and h: "unat h < unat (push_bit bm d)"
    and res: "udiv_adjusted h l (push_bit bm d) = (q, r)"
    and N: "(unat h + q_hi * unat (push_bit bm d)) * 2 ^ 32 + unat l = N * 2 ^ bm"
  shows "q_hi * 2 ^ 32 + unat q = N div unat d" and "unat (drop_bit bm r) = N mod unat d"
proof -
  let ?D = "push_bit bm d"
  have D: "unat ?D = unat d * 2 ^ bm"
    using leading_zeros_bounds(3) [OF d] by (intro unat_push_bit_fits) (simp add: bm)
  have norm: "2 ^ 31 \<le> unat ?D"
    unfolding D using leading_zeros_bounds(2) [OF d] by (simp add: bm)
  have pos: "0 < unat ?D" using norm by simp
  let ?M = "unat h * 2 ^ 32 + unat l"
  have q: "unat q = ?M div unat ?D" and r: "unat r = ?M mod unat ?D"
    using udiv_adjusted_correct [OF norm h, of l] res by simp_all
  have eq: "N * 2 ^ bm = (q_hi * 2 ^ 32) * unat ?D + ?M"
    unfolding N [symmetric] by (simp add: algebra_simps)
  have "N * 2 ^ bm div unat ?D = q_hi * 2 ^ 32 + ?M div unat ?D"
    unfolding eq by (rule div_mult_self3) (use pos in simp)
  then show "q_hi * 2 ^ 32 + unat q = N div unat d"
    unfolding q [symmetric] unfolding D by (simp only: div_scaled zero_less_power zero_less_numeral)
  have "N * 2 ^ bm mod unat ?D = ?M mod unat ?D"
    unfolding eq by (rule mod_mult_self3)
  then have "unat r = (N * 2 ^ bm) mod (unat d * 2 ^ bm)" unfolding r D by simp
  then show "unat (drop_bit bm r) = N mod unat d"
    by (simp only: unat_drop_bit_div mod_scaled zero_less_power zero_less_numeral)
qed

lemma umoddiv32_soft_small:
  assumes "d \<noteq> 0" and "ucast (drop_bit 32 n) = (0 :: u32)"
  shows "\<exists>q r. umoddiv32_soft n d = Inr (q, r) \<and> unat q = unat n div unat d
    \<and> unat r = unat n mod unat d"
proof -
  have n: "unat n = unat (ucast n :: u32)" using unat_halves [of n] assms(2) by simp
  then show ?thesis
    using assms by (simp add: umoddiv32_soft_def Let_def unat_div unat_mod unat_ucast_up)
qed

lemma umoddiv32_soft_large:
  assumes d: "d \<noteq> 0" and hi0: "ucast (drop_bit 32 n) \<noteq> (0 :: u32)"
  shows "\<exists>q r. umoddiv32_soft n d = Inr (q, r) \<and> unat q = unat n div unat d
    \<and> unat r = unat n mod unat d"
proof -
  define hi where "hi = (ucast (drop_bit 32 n) :: u32)"
  define lo where "lo = (ucast n :: u32)"
  define bm where "bm = unat (stdc_leading_zerosui d)"
  have n: "unat n = unat hi * 2 ^ 32 + unat lo" unfolding hi_def lo_def by (rule unat_halves)
  have bm32: "bm < 32" using leading_zeros_bounds(1) [OF d] by (simp add: bm_def)
  let ?D = "push_bit bm d"
  have D: "unat ?D = unat d * 2 ^ bm"
    using leading_zeros_bounds(3) [OF d] by (intro unat_push_bit_fits) (simp add: bm_def)
  have norm: "2 ^ 31 \<le> unat ?D"
    unfolding D using leading_zeros_bounds(2) [OF d] by (simp add: bm_def)
  have pos: "0 < unat ?D" using norm by simp
  note last = last_step [OF d bm_def]
  let ?s = "2 ^ bm :: nat"
  let ?hi' = "push_bit bm hi OR drop_bit (32 - bm) lo" and ?lo' = "push_bit bm lo"
  have scale: "unat n * ?s = (unat hi * ?s div 2 ^ 32 * 2 ^ 32 + unat ?hi') * 2 ^ 32 + unat ?lo'"
    if "0 < bm"
  proof -
    have lo': "unat ?lo' = unat lo * ?s mod 2 ^ 32" by (simp only: unat_push_bit_mod) simp
    have "unat n * ?s = unat hi * ?s * 2 ^ 32 + unat lo * ?s" by (simp add: n algebra_simps)
    also have "\<dots> = (unat hi * ?s div 2 ^ 32 * 2 ^ 32 + unat hi * ?s mod 2 ^ 32) * 2 ^ 32
        + (unat lo * ?s div 2 ^ 32 * 2 ^ 32 + unat lo * ?s mod 2 ^ 32)"
      by (simp only: div_mult_mod_eq)
    finally show ?thesis
      unfolding lo' unat_shift_pair(1) [OF that bm32] by (simp only: algebra_simps)
  qed
  have hi_ne: "hi \<noteq> 0" using hi0 by (simp add: hi_def)
  show ?thesis
  proof (cases "hi < d")
    case True
    define h where "h = (if bm \<noteq> 0 then ?hi' else hi)"
    define l where "l = (if bm \<noteq> 0 then ?lo' else lo)"
    obtain q r where qr: "udiv_adjusted h l ?D = (q, r)" by fastforce
    have res: "umoddiv32_soft n d = Inr (push_bit 32 (ucast (0 :: u32)) OR ucast q, drop_bit bm r)"
      using True d hi_ne qr unfolding umoddiv32_soft_def h_def l_def
      by (cases "bm = 0") (simp_all add: Let_def flip: hi_def lo_def bm_def)
    have "unat hi * ?s < unat ?D" using True by (simp add: D word_less_nat_alt)
    then have top0: "unat hi * ?s div 2 ^ 32 = 0" using unat_less_exp [of ?D] by simp
    have N: "unat h * 2 ^ 32 + unat l = unat n * ?s"
      using scale top0 n by (cases "bm = 0") (simp_all add: h_def l_def)
    have "(unat hi + 1) * 2 ^ 32 \<le> unat d * 2 ^ 32"
      using True by (intro mult_le_mono1) (simp add: word_less_nat_alt)
    then have "unat n < unat d * 2 ^ 32" using unat_less_exp [of lo] n by simp
    then have "unat n * ?s < unat d * 2 ^ 32 * ?s" by simp
    then have "unat h * 2 ^ 32 < unat ?D * 2 ^ 32"
      unfolding N [symmetric] D by (simp only: algebra_simps)
    then have h: "unat h < unat ?D" by simp
    have "0 * 2 ^ 32 + unat q = unat n div unat d" "unat (drop_bit bm r) = unat n mod unat d"
      using last [OF h qr, of 0 "unat n"] N by simp_all
    then show ?thesis unfolding res by (simp add: unat_ucast_up)
  next
    case False
    then have le: "unat d \<le> unat hi" by (simp add: word_less_nat_alt)
    define h' where "h' = (if bm = 0 then (1 :: u32, hi - d)
       else udiv_adjusted (drop_bit (32 - bm) hi) ?hi' ?D)"
    define l where "l = push_bit bm lo"
    obtain q_hi h where h': "h' = (q_hi, h)" by fastforce
    obtain q r where qr: "udiv_adjusted h l ?D = (q, r)" by fastforce
    have res: "umoddiv32_soft n d = Inr (push_bit 32 (ucast q_hi) OR ucast q, drop_bit bm r)"
      using False d hi_ne qr h' unfolding umoddiv32_soft_def l_def h'_def
      by (cases "bm = 0") (simp_all add: Let_def flip: hi_def lo_def bm_def)
    have hN: "unat h < unat ?D \<and> (unat h + unat q_hi * unat ?D) * 2 ^ 32 + unat l = unat n * ?s"
    proof (cases "bm = 0")
      case True
      have "q_hi = 1" "h = hi - d" using h' True by (simp_all add: h'_def)
      moreover have "unat (hi - d) = unat hi - unat d" using le by (rule unat_sub_fits)
      moreover have "unat hi < 2 * unat d" using norm True unat_less_exp [of hi] by simp
      ultimately show ?thesis using True le by (simp add: n l_def)
    next
      case False
      then have b: "0 < bm" by simp
      let ?t = "drop_bit (32 - bm) hi"
      have t: "unat ?t = unat hi * ?s div 2 ^ 32" by (rule unat_shift_pair(2) [OF b bm32])
      have "unat ?t < unat ?D"
      proof -
        have "unat hi * ?s < 2 ^ 32 * 2 ^ 31"
          using unat_less_exp [of hi] bm32 power_increasing [of bm 31 "2 :: nat"]
          by (intro mult_less_le_imp_less) simp_all
        then have "unat ?t < 2 ^ 31" unfolding t by (simp add: less_mult_imp_div_less)
        with norm show ?thesis by simp
      qed
      note c = udiv_adjusted_correct [OF norm this, of ?hi']
      have e: "udiv_adjusted ?t ?hi' ?D = (q_hi, h)" using h' False by (simp add: h'_def)
      let ?H = "unat ?t * 2 ^ 32 + unat ?hi'"
      have "unat q_hi = ?H div unat ?D" "unat h = ?H mod unat ?D" using c e by simp_all
      then have "unat h < unat ?D" "unat h + unat q_hi * unat ?D = ?H" using pos by simp_all
      then show ?thesis using scale [OF b] by (simp add: l_def t)
    qed
    have "unat q_hi * 2 ^ 32 + unat q = unat n div unat d" "unat (drop_bit bm r) = unat n mod unat d"
      using last [OF conjunct1 [OF hN] qr conjunct2 [OF hN]] by simp_all
    then show ?thesis unfolding res by (simp add: unat_join_halves)
  qed
qed

section \<open>Correctness\<close>

lemma umoddiv32_soft_nat:
  assumes "d \<noteq> 0"
  shows "\<exists>q r. umoddiv32_soft n d = Inr (q, r) \<and> unat q = unat n div unat d
    \<and> unat r = unat n mod unat d"
  using umoddiv32_soft_small [OF assms] umoddiv32_soft_large [OF assms] by blast

lemma umoddiv32_platform_nat:
  assumes "d \<noteq> 0"
  shows "\<exists>q r. umoddiv32_platform n d = Inr (q, r) \<and> unat q = unat n div unat d
    \<and> unat r = unat n mod unat d"
proof -
  have d: "unat (ucast d :: u64) = unat d" by (simp add: unat_ucast_up)
  have "0 < unat d" using assms by (simp add: unat_gt_0)
  then have "unat n mod unat d < 2 ^ 32"
    using unat_less_exp [of d] by (intro order_less_trans [OF mod_less_divisor]) simp_all
  then have "unat (ucast (n mod ucast d) :: u32) = unat n mod unat d"
    unfolding unat_ucast_mod [where 'b = 32] unat_mod d by simp
  then show ?thesis using assms by (simp add: umoddiv32_platform_def unat_div d)
qed

text \<open>
  The contract of \<open>umoddiv32\<close> in \<open>common.h\<close>: divide \<open>n\<close>, return the remainder, update
  \<open>n\<close> to the quotient; both versions provide it, and the clients rely on nothing else.
\<close>

locale divider =
  fixes divide :: "u64 \<Rightarrow> u32 \<Rightarrow> (u64 \<times> u32) res"
  assumes divide_zero: "divide n 0 = Inl Div_By_Zero"
    and divide_nat: "d \<noteq> 0 \<Longrightarrow> \<exists>q r. divide n d = Inr (q, r)
      \<and> unat q = unat n div unat d \<and> unat r = unat n mod unat d"
begin

lemma divide_unique:
  assumes "d \<noteq> 0" and "unat q = unat n div unat d" and "unat r = unat n mod unat d"
  shows "divide n d = Inr (q, r)"
proof -
  obtain q' r' where "divide n d = Inr (q', r')" "unat q' = unat q" "unat r' = unat r"
    using divide_nat [OF assms(1), of n] assms(2,3) by metis
  then show ?thesis by (auto intro: word_unat_eq_iff [THEN iffD2])
qed

lemma divide_reconstructs:
  assumes "divide n d = Inr (q, r)"
  shows "unat n = unat q * unat d + unat r" and "unat r < unat d"
proof -
  have d: "d \<noteq> 0" using assms divide_zero by (cases "d = 0") simp_all
  then have "0 < unat d" by (simp add: unat_gt_0)
  moreover obtain q' r' where "divide n d = Inr (q', r')" "unat q' = unat n div unat d"
      "unat r' = unat n mod unat d"
    using divide_nat [OF d] by blast
  ultimately show "unat n = unat q * unat d + unat r" and "unat r < unat d"
    using assms by simp_all
qed

lemma divide_progress:
  assumes "divide n d = Inr (q, r)" and "n \<noteq> 0" and "1 < d"
  shows "q < n"
proof -
  have "0 < unat n" using assms(2) by (simp add: unat_gt_0)
  moreover have d: "1 < unat d" using assms(3) by (simp add: word_less_nat_alt)
  moreover have "unat q * unat d \<le> unat n" using divide_reconstructs(1) [OF assms(1)] by simp
  ultimately have "unat q < unat n"
    by (metis div_less_dividend le_less_trans less_imp_le_nat nat_neq_iff div_mult_self_is_m
        div_le_mono less_le_trans zero_less_one)
  then show ?thesis by (simp add: word_less_nat_alt)
qed

end

interpretation soft: divider umoddiv32_soft
proof
  show "umoddiv32_soft n 0 = Inl Div_By_Zero" for n by (simp add: umoddiv32_soft_def Let_def)
qed (rule umoddiv32_soft_nat)

interpretation platform: divider umoddiv32_platform
proof
  show "umoddiv32_platform n 0 = Inl Div_By_Zero" for n by (simp add: umoddiv32_platform_def)
qed (rule umoddiv32_platform_nat)

text \<open>
  C10. The portable Knuth division and the 64-bit division of the platform are the same function:
  same quotient, same remainder and the same fault on a zero divisor, for every 64-bit dividend
  and every 32-bit divisor.
\<close>

theorem umoddiv32_soft_eq_platform: "umoddiv32_soft n d = umoddiv32_platform n d"
proof (cases "d = 0")
  case True
  then show ?thesis using soft.divide_zero platform.divide_zero by simp
next
  case False
  then obtain q r where "umoddiv32_platform n d = Inr (q, r)" "unat q = unat n div unat d"
      "unat r = unat n mod unat d"
    using platform.divide_nat by blast
  with soft.divide_unique [OF False, of q n r] show ?thesis by simp
qed

text \<open>
  Whenever the portable division returns, the dividend is quotient times divisor plus
  remainder and the remainder is below the divisor; it returns for every non-zero divisor.
\<close>

theorem umoddiv32_soft_reconstructs:
  "(umoddiv32_soft n d = Inl Div_By_Zero \<and> d = 0) \<or>
   (\<exists>q r. umoddiv32_soft n d = Inr (q, r)
     \<and> unat n = unat q * unat d + unat r \<and> unat r < unat d)"
proof (cases "d = 0")
  case True
  then show ?thesis using soft.divide_zero by simp
next
  case False
  then obtain q r where "umoddiv32_soft n d = Inr (q, r)" using soft.divide_nat by blast
  then show ?thesis using soft.divide_reconstructs by blast
qed

end
