(* ===== verification/Target.thy ===== *)
theory Target
  imports Division
begin

text \<open>
  The build configuration of the library (\<open>Makefile\<close>, \<open>include/noc_internal/common.h\<close>) and
  the inline helpers every component uses: \<open>MIN\<close>, \<open>rol32\<close>, the character classes of
  \<open>include/string.h\<close>, and the absolute values of \<open>src/abs.c\<close>.
\<close>

section \<open>Build configuration\<close>

text \<open>
  The Makefile chooses the architecture (\<open>ARCH_X86_64\<close>) and \<open>USE_PLATFORM_64BIT_DIV\<close>; whether
  a plain \<open>char\<close> is signed is the compiler's choice for the architecture (signed on x86_64,
  unsigned on aarch64 and riscv32).
\<close>

record target =
  arch_x86_64 :: bool
  use_platform_64bit_div :: bool
  char_is_signed :: bool

definition x86_64_target :: target where
  "x86_64_target = \<lparr>arch_x86_64 = True, use_platform_64bit_div = True, char_is_signed = True\<rparr>"

definition aarch64_target :: target where
  "aarch64_target = \<lparr>arch_x86_64 = False, use_platform_64bit_div = True, char_is_signed = False\<rparr>"

definition umoddiv32 :: "target \<Rightarrow> u64 \<Rightarrow> u32 \<Rightarrow> (u64 \<times> u32) res" where
  "umoddiv32 t = (if use_platform_64bit_div t then umoddiv32_platform else umoddiv32_soft)"

lemma divider_umoddiv32: "divider (umoddiv32 t)"
  by (cases "use_platform_64bit_div t")
    (simp_all only: umoddiv32_def if_True if_False soft.divider_axioms platform.divider_axioms)

interpretation target_div: divider "umoddiv32 t" for t
  by (rule divider_umoddiv32)

text \<open>The value of a \<open>char\<close> in an expression: promoted to \<open>int\<close>.\<close>

definition char_val :: "target \<Rightarrow> byte \<Rightarrow> int" where
  "char_val t c = (if char_is_signed t then sint c else uint c)"

lemma sint_byte: "sint c = (if c < 128 then uint c else uint c - 256)"
  for c :: byte
proof -
  have u: "0 \<le> uint c" "uint c < 256" using uint_bounded [of c] by simp_all
  have "sint c = (uint c + 128) mod 256 - 128"
    by (subst sint_uint, subst signed_take_bit_eq_take_bit_shift) (simp add: take_bit_eq_mod)
  moreover have "(uint c + 128) mod 256 = (if uint c < 128 then uint c + 128 else uint c - 128)"
    using u by (simp add: mod_pos_geq)
  moreover have "c < 128 \<longleftrightarrow> uint c < 128" by (simp add: word_less_def)
  ultimately show ?thesis by simp
qed

lemma char_val_ascii: "c < 128 \<Longrightarrow> char_val t c = uint c"
  by (simp add: char_val_def sint_byte)

lemma char_val_high:
  "\<not> c < 128 \<Longrightarrow> char_val t c = (if char_is_signed t then uint c - 256 else uint c)"
  by (simp add: char_val_def sint_byte)

lemma char_val_eq_iff: "char_val t c = char_val t d \<longleftrightarrow> c = d"
  by (simp add: char_val_def word_uint_eq_iff [symmetric] word_eq_iff_signed [symmetric])

section \<open>Fixed-width signed arithmetic\<close>

text \<open>Signed arithmetic on \<open>int\<close> and \<open>long\<close>: a result out of range is undefined behaviour.\<close>

definition int32 :: "int \<Rightarrow> int res" where
  "int32 z = (if - (2 ^ 31) \<le> z \<and> z < 2 ^ 31 then Inr z else Inl Signed_Overflow)"

definition int64 :: "int \<Rightarrow> int res" where
  "int64 z = (if - (2 ^ 63) \<le> z \<and> z < 2 ^ 63 then Inr z else Inl Signed_Overflow)"

definition abs_c :: "int \<Rightarrow> int res" where
  "abs_c j = (if j < 0 then int32 (- j) else Inr j)"

definition labs_c :: "int \<Rightarrow> int res" where
  "labs_c j = (if j < 0 then int64 (- j) else Inr j)"

definition llabs_c :: "int \<Rightarrow> int res" where
  "llabs_c j = (if j < 0 then int64 (- j) else Inr j)"

section \<open>Character classes\<close>

text \<open>Their argument is an \<open>int\<close>; characters are written by their ASCII codes.\<close>

definition isspace :: "int \<Rightarrow> bool" where
  "isspace c = (c = 32 \<or> (c \<ge> 0x9 \<and> c \<le> 0xd))"

definition isdigit :: "int \<Rightarrow> bool" where
  "isdigit c = (c \<ge> 48 \<and> c \<le> 57)"

definition isxdigit :: "int \<Rightarrow> bool" where
  "isxdigit c = (isdigit c \<or> (c \<ge> 65 \<and> c \<le> 70) \<or> (c \<ge> 97 \<and> c \<le> 102))"

definition isalpha :: "int \<Rightarrow> bool" where
  "isalpha c = ((c \<ge> 65 \<and> c \<le> 90) \<or> (c \<ge> 97 \<and> c \<le> 122))"

definition isalnum :: "int \<Rightarrow> bool" where
  "isalnum c = (isdigit c \<or> isalpha c)"

definition iscntrl :: "int \<Rightarrow> bool" where
  "iscntrl c = ((c \<ge> 0 \<and> c \<le> 31) \<or> c = 127)"

definition tolower :: "int \<Rightarrow> int" where
  "tolower c = (if c \<ge> 65 \<and> c \<le> 90 then c + 97 - 65 else c)"

definition toupper :: "int \<Rightarrow> int" where
  "toupper c = (if c \<ge> 97 \<and> c \<le> 122 then c + 65 - 97 else c)"

lemmas ctype_defs = isspace_def isdigit_def isxdigit_def isalpha_def isalnum_def iscntrl_def
  tolower_def toupper_def

section \<open>Rotation\<close>

definition rol32 :: "u32 \<Rightarrow> nat \<Rightarrow> u32" where
  "rol32 x k = push_bit k x OR drop_bit (32 - k) x"

section \<open>Absolute value\<close>

text \<open>
  \<open>abs\<close>, \<open>labs\<close> and \<open>llabs\<close> return the absolute value of every argument of their type
  but the smallest one, for which the negation overflows.
\<close>

theorem abs_functions:
  "(j \<in> {- (2 ^ 31) ..< 2 ^ 31} \<longrightarrow>
      abs_c j = (if j = - (2 ^ 31) then Inl Signed_Overflow else Inr \<bar>j\<bar>))
   \<and> (k \<in> {- (2 ^ 63) ..< 2 ^ 63} \<longrightarrow>
      labs_c k = (if k = - (2 ^ 63) then Inl Signed_Overflow else Inr \<bar>k\<bar>)
      \<and> llabs_c k = labs_c k)"
  by (auto simp: abs_c_def labs_c_def llabs_c_def int32_def int64_def)

lemma abs_functions_witness:
  "abs_c (- 5) = Inr 5 \<and> labs_c (- (2 ^ 63)) = Inl Signed_Overflow"
  using abs_functions [of "- 5" "- (2 ^ 63)"] by simp

end
