(* ===== verification/Rand.thy ===== *)
theory Rand
  imports Target
begin

text \<open>
  \<open>src/rand.c\<close>: the xoroshiro64** generator behind \<open>rand\<close> and \<open>srand\<close>.  The static array
  \<open>rand_state[2]\<close> is a record that every operation takes and returns.
\<close>

section \<open>The code\<close>

record rand_state =
  state0 :: u32
  state1 :: u32

text \<open>The initial contents of the static array.\<close>

definition rand_init :: rand_state where
  "rand_init = \<lparr>state0 = 0, state1 = 0\<rparr>"

definition next_rand :: "rand_state \<Rightarrow> u32 \<times> rand_state" where
  "next_rand st =
     (let s0 = state0 st;
          s1 = state1 st;
          s0 = (if s0 OR s1 = 0 then 1 else s0);
          result = rol32 (s0 * 0x9E3779BB) 5 * 5;
          s1 = s1 XOR s0
      in (result,
          \<lparr>state0 = rol32 s0 26 XOR s1 XOR push_bit 9 s1,
           state1 = rol32 s1 13\<rparr>))"

definition RAND_MAX :: u64 where
  "RAND_MAX = 0x7fffffff"

definition rand :: "rand_state \<Rightarrow> u32 \<times> rand_state" where
  "rand st =
     (let (r, st') = next_rand st
      in (ucast (drop_bit 32 (RAND_MAX * ucast r)), st'))"

definition srand :: "u32 \<Rightarrow> rand_state \<Rightarrow> rand_state" where
  "srand seed st = st\<lparr>state0 := seed, state1 := seed\<rparr>"

text \<open>The numbers that \<open>k\<close> successive calls of \<open>rand\<close> return, as the \<open>int\<close> they are.\<close>

fun rand_seq :: "nat \<Rightarrow> rand_state \<Rightarrow> int list" where
  "rand_seq 0 st = []"
| "rand_seq (Suc k) st = (let (r, st') = rand st in sint r # rand_seq k st')"

section \<open>Rotation\<close>

lemma bit_rol32:
  assumes "0 < k" and "k < 32" and "n < 32"
  shows "bit (rol32 x k) n = (if n < k then bit x (n + (32 - k)) else bit x (n - k))"
  using assms
  by (auto simp: rol32_def bit_or_iff bit_push_bit_iff bit_drop_bit_eq add.commute
      dest: bit_imp_le_length)

lemma rol32_0 [simp]: "rol32 0 k = 0"
  by (simp add: rol32_def)

lemma rol32_zero_iff:
  assumes "0 < k" and "k < 32"
  shows "rol32 x k = 0 \<longleftrightarrow> x = 0"
proof
  assume z: "rol32 x k = 0"
  show "x = 0"
  proof (rule bit_word_eqI)
    fix n assume "n < LENGTH(32)"
    then have n: "n < 32" by simp
    show "bit x n = bit 0 n"
    proof (cases "n < 32 - k")
      case True
      then show ?thesis using bit_rol32 [OF assms, of "n + k" x] z by simp
    next
      case False
      then have m: "n - (32 - k) < 32" "n - (32 - k) < k" "n - (32 - k) + (32 - k) = n"
        using n assms by simp_all
      show ?thesis using bit_rol32 [OF assms m(1), of x] z m(2,3) by (simp del: diff_diff_right)
    qed
  qed
qed (simp add: rol32_def)

text \<open>The shift version for gcc is the rotation that clang's builtin computes.\<close>

lemma rol32_rotl:
  assumes "0 < k" and "k < 32"
  shows "rol32 x k = word_rotl k x"
proof (rule bit_word_eqI)
  fix n assume "n < LENGTH(32)"
  then have n: "n < 32" by simp
  show "bit (rol32 x k) n = bit (word_rotl k x) n"
  proof (cases "n < k")
    case True
    then show ?thesis using bit_rol32 [OF assms n] assms n by (simp add: bit_word_rotl_iff)
  next
    case False
    then have "(n + (32 - k)) mod 32 = n - k"
      using n assms by (simp add: mod_if)
    then show ?thesis using False bit_rol32 [OF assms n] assms n by (simp add: bit_word_rotl_iff)
  qed
qed

lemma rol32_inverse:
  assumes "0 < k" and "k < 32"
  shows "rol32 (rol32 x k) (32 - k) = x"
proof (rule bit_word_eqI)
  fix n assume "n < LENGTH(32)"
  then have n: "n < 32" by simp
  have k': "0 < 32 - k" "32 - k < 32" using assms by simp_all
  show "bit (rol32 (rol32 x k) (32 - k)) n = bit x n"
  proof (cases "n < 32 - k")
    case True
    then show ?thesis
      using bit_rol32 [OF k' n, of "rol32 x k"] bit_rol32 [OF assms, of "n + k" x] assms by simp
  next
    case False
    then have m: "n - (32 - k) < 32" "n - (32 - k) < k" "n - (32 - k) + (32 - k) = n"
      using n assms by simp_all
    then show ?thesis
      using bit_rol32 [OF k' n, of "rol32 x k"] bit_rol32 [OF assms m(1), of x] False
      by (simp del: diff_diff_right)
  qed
qed

section \<open>The state transition\<close>

definition nonzero_state :: "rand_state \<Rightarrow> bool" where
  "nonzero_state st \<longleftrightarrow> state0 st \<noteq> 0 \<or> state1 st \<noteq> 0"

text \<open>The successor and, on states that are not all zero, its inverse.\<close>

definition succ_state :: "rand_state \<Rightarrow> rand_state" where
  "succ_state st = snd (next_rand st)"

definition pred_state :: "rand_state \<Rightarrow> rand_state" where
  "pred_state st =
     (let x = rol32 (state1 st) 19;
          s0 = rol32 (state0 st XOR x XOR push_bit 9 x) 6
      in \<lparr>state0 = s0, state1 = x XOR s0\<rparr>)"

lemma succ_state_nonzero:
  assumes "nonzero_state st" and "x = state1 st XOR state0 st"
  shows "succ_state st =
    \<lparr>state0 = rol32 (state0 st) 26 XOR x XOR push_bit 9 x, state1 = rol32 x 13\<rparr>"
  using assms
  by (auto simp: succ_state_def next_rand_def Let_def nonzero_state_def or_eq_0_iff)

lemma rol32_13_19 [simp]: "rol32 (rol32 x 13) 19 = x" "rol32 (rol32 x 19) 13 = x"
  using rol32_inverse [of 13 x] rol32_inverse [of 19 x] by simp_all

lemma rol32_26_6 [simp]: "rol32 (rol32 x 26) 6 = x" "rol32 (rol32 x 6) 26 = x"
  using rol32_inverse [of 26 x] rol32_inverse [of 6 x] by simp_all

lemma xor_cancel_right: "(x XOR y) XOR y = x"
  for x y :: "'a::len word"
  by (rule bit_word_eqI) (auto simp: bit_xor_iff)

lemma xor_twice: "(x XOR y XOR z) XOR y XOR z = x"
  for x y z :: "'a::len word"
  by (rule bit_word_eqI) (auto simp: bit_xor_iff)

lemma pred_succ:
  assumes "nonzero_state st"
  shows "pred_state (succ_state st) = st"
proof -
  define x where "x = state1 st XOR state0 st"
  have "x XOR state0 st = state1 st" by (simp add: x_def xor_cancel_right)
  then show ?thesis
    unfolding succ_state_nonzero [OF assms x_def] pred_state_def
    by (simp add: Let_def xor_twice)
qed

lemma succ_state_keeps_nonzero: "nonzero_state (succ_state st)"
proof -
  have step: "nonzero_state (succ_state st)" if nz: "nonzero_state st" for st
  proof (rule ccontr)
    assume "\<not> nonzero_state (succ_state st)"
    then have z: "state0 (succ_state st) = 0" "state1 (succ_state st) = 0"
      by (simp_all add: nonzero_state_def)
    define x where "x = state1 st XOR state0 st"
    note succ = succ_state_nonzero [OF nz x_def]
    have "x = 0" using z(2) by (simp add: succ rol32_zero_iff)
    then have "state0 st = 0" using z(1) by (simp add: succ rol32_zero_iff)
    with \<open>x = 0\<close> nz show False by (simp add: nonzero_state_def x_def)
  qed
  show ?thesis
  proof (cases "nonzero_state st")
    case False
    then have "succ_state st = succ_state \<lparr>state0 = 1, state1 = 0\<rparr>"
      by (simp add: nonzero_state_def succ_state_def next_rand_def Let_def)
    moreover have "nonzero_state (succ_state \<lparr>state0 = 1, state1 = 0\<rparr>)"
      by (rule step) (simp add: nonzero_state_def)
    ultimately show ?thesis by simp
  qed (rule step)
qed

lemma succ_pred:
  assumes nz: "nonzero_state st"
  shows "succ_state (pred_state st) = st" and "nonzero_state (pred_state st)"
proof -
  define x where "x = rol32 (state1 st) 19"
  define y where "y = state0 st XOR x XOR push_bit 9 x"
  have p: "state0 (pred_state st) = rol32 y 6" "state1 (pred_state st) = x XOR rol32 y 6"
    by (simp_all add: pred_state_def Let_def x_def y_def)
  show nzp: "nonzero_state (pred_state st)"
  proof (rule ccontr)
    assume "\<not> ?thesis"
    then have "rol32 y 6 = 0" and "x XOR rol32 y 6 = 0" by (simp_all add: nonzero_state_def p)
    then have "y = 0" by (simp add: rol32_zero_iff)
    with \<open>x XOR rol32 y 6 = 0\<close> have "x = 0" by simp
    then have "state0 st = 0" using \<open>y = 0\<close> by (simp add: y_def)
    moreover have "state1 st = 0" using \<open>x = 0\<close> by (simp add: x_def rol32_zero_iff)
    ultimately show False using nz by (simp add: nonzero_state_def)
  qed
  have "x = state1 (pred_state st) XOR state0 (pred_state st)" by (simp add: p xor_cancel_right)
  then show "succ_state (pred_state st) = st"
    using succ_state_nonzero [OF nzp] by (simp add: p y_def xor_twice x_def)
qed

lemma bij_succ_state: "bij_betw succ_state {st. nonzero_state st} {st. nonzero_state st}"
  by (rule bij_betw_byWitness [where f' = pred_state])
    (auto simp: pred_succ succ_pred succ_state_keeps_nonzero)

text \<open>
  One step of the generator permutes the states that are not all zero, and from the all-zero
  state it moves to one of them: no state is lost, and the generator never reaches the state in
  which xoroshiro would be stuck.
\<close>

theorem next_rand_permutes:
  "bij_betw (\<lambda>st. snd (next_rand st)) {st. nonzero_state st} {st. nonzero_state st}
   \<and> nonzero_state (snd (next_rand st0))"
  using bij_succ_state succ_state_keeps_nonzero [of st0]
  by (simp add: succ_state_def [abs_def])

section \<open>Period\<close>

lemma finite_rand_states: "finite (UNIV :: rand_state set)"
proof -
  have "st \<in> range (\<lambda>(a, b). \<lparr>state0 = a, state1 = b\<rparr>)" for st :: rand_state
    by (cases st) auto
  then have "(UNIV :: rand_state set) = range (\<lambda>(a, b). \<lparr>state0 = a, state1 = b\<rparr>)" by blast
  then show ?thesis by (metis finite_imageI finite)
qed

lemma bij_funpow: "bij_betw f A A \<Longrightarrow> bij_betw (f ^^ n) A A"
  by (induction n) (auto intro: bij_betw_trans simp: bij_betw_id)

lemma bij_finite_returns:
  assumes bij: "bij_betw f A A" and fin: "finite A" and x: "x \<in> A"
  shows "\<exists>n > 0. (f ^^ n) x = x"
proof -
  have orbit: "(f ^^ n) x \<in> A" for n
    using bij_funpow [OF bij, of n] x by (auto simp: bij_betw_def)
  then have "\<not> inj (\<lambda>n. (f ^^ n) x)"
    using fin by (metis finite_subset image_subsetI infinite_UNIV_nat finite_imageD)
  then obtain i j where ij: "(f ^^ i) x = (f ^^ j) x" "i < j"
    by (metis (mono_tags, lifting) injI nat_neq_iff)
  have "(f ^^ i) ((f ^^ (j - i)) x) = (f ^^ i) x"
    using ij by (simp flip: funpow_add [THEN fun_cong, unfolded comp_def])
  moreover have "inj_on (f ^^ i) A" using bij_funpow [OF bij] by (simp add: bij_betw_def)
  ultimately have "(f ^^ (j - i)) x = x" using orbit x by (auto dest: inj_onD)
  with ij(2) show ?thesis by (intro exI [of _ "j - i"]) simp
qed

text \<open>
  The generator is periodic from the start: every state that is not all zero is reached again
  after some positive number of steps.
\<close>

theorem next_rand_periodic:
  "nonzero_state st \<Longrightarrow> \<exists>n > 0. ((\<lambda>st. snd (next_rand st)) ^^ n) st = st"
  using bij_finite_returns [OF bij_succ_state] finite_subset [OF subset_UNIV finite_rand_states]
  by (simp add: succ_state_def [abs_def])

lemma next_rand_periodic_witness:
  "nonzero_state (srand 7 rand_init) \<and>
   (\<exists>n > 0. ((\<lambda>st. snd (next_rand st)) ^^ n) (srand 7 rand_init) = srand 7 rand_init)"
proof
  show "nonzero_state (srand 7 rand_init)"
    by (simp add: nonzero_state_def srand_def rand_init_def)
  then show "\<exists>n > 0. ((\<lambda>st. snd (next_rand st)) ^^ n) (srand 7 rand_init) = srand 7 rand_init"
    by (rule next_rand_periodic)
qed

section \<open>The numbers returned\<close>

lemma unat_rand: "unat (fst (rand st)) = (2 ^ 31 - 1) * unat (fst (next_rand st)) div 2 ^ 32"
proof -
  let ?r = "fst (next_rand st)"
  have r: "unat ?r < 2 ^ 32" using unat_less_exp [of ?r] by simp
  have u: "unat (ucast ?r :: u64) = unat ?r" by (simp add: unat_ucast_up)
  have m: "unat RAND_MAX = 2 ^ 31 - 1" by (simp add: RAND_MAX_def)
  have "unat RAND_MAX * unat (ucast ?r :: u64) < 2 ^ 31 * 2 ^ 32"
    unfolding u m using r by (intro mult_strict_mono) simp_all
  then have "unat (RAND_MAX * ucast ?r) = (2 ^ 31 - 1) * unat ?r"
    by (subst unat_mult_fits) (simp_all add: u m)
  then have d: "unat (drop_bit 32 (RAND_MAX * ucast ?r)) = (2 ^ 31 - 1) * unat ?r div 2 ^ 32"
    by (simp only: unat_drop_bit_div)
  have "(2 ^ 31 - 1) * unat ?r div 2 ^ 32 < 2 ^ 32" using r by simp
  then have "unat (ucast (drop_bit 32 (RAND_MAX * ucast ?r)) :: u32)
      = (2 ^ 31 - 1) * unat ?r div 2 ^ 32"
    unfolding unat_ucast_mod [where 'b = 32] d by simp
  moreover have "fst (rand st) = ucast (drop_bit 32 (RAND_MAX * ucast ?r))"
    by (simp add: rand_def split: prod.split)
  ultimately show ?thesis by simp
qed

text \<open>
  \<open>rand\<close> returns the 32-bit random number scaled to the fixed-point fraction of
  \<open>RAND_MAX\<close>: a non-negative \<open>int\<close> strictly below \<open>RAND_MAX\<close>.
\<close>

theorem rand_range:
  "sint (fst (rand st)) = int ((2 ^ 31 - 1) * unat (fst (next_rand st)) div 2 ^ 32)
   \<and> 0 \<le> sint (fst (rand st)) \<and> sint (fst (rand st)) < int (unat RAND_MAX)"
proof -
  let ?v = "(2 ^ 31 - 1) * unat (fst (next_rand st)) div 2 ^ 32"
  have lt: "?v < 2 ^ 31 - 1" using unat_less_exp [of "fst (next_rand st)"] by simp
  then have "sint (fst (rand st)) = int ?v"
    by (subst sint_small) (simp_all only: unat_rand, simp)
  moreover have "unat RAND_MAX = 2 ^ 31 - 1" by (simp add: RAND_MAX_def)
  ultimately show ?thesis using lt by (simp only: of_nat_less_iff of_nat_0_le_iff simp_thms)
qed

text \<open>
  A program that never calls \<open>srand\<close> does not get the sequence of seed 1: the first number
  agrees, the second does not.
\<close>

theorem rand_unseeded_is_not_seed_1:
  "rand_seq 1 rand_init = rand_seq 1 (srand 1 rand_init)
   \<and> rand_seq 2 rand_init \<noteq> rand_seq 2 (srand 1 rand_init)"
proof -
  have "rand_seq 1 rand_init = [1901464222]" "rand_seq 1 (srand 1 rand_init) = [1901464222]"
    by code_simp+
  moreover have "rand_seq 2 rand_init = [1901464222, 1567287996]" by code_simp
  moreover have "rand_seq 2 (srand 1 rand_init) = [1901464222, 1073741895]" by code_simp
  ultimately show ?thesis by simp
qed

end
