(* ===== verification/Gf2.thy ===== *)
theory Gf2
  imports Noc_Prelude
begin

text \<open>
  Polynomials over the field of two elements, as lists of coefficients with the highest first, and
  their action on a space of bit vectors with a linear map: the tool with which the period of a
  linear generator is computed.
\<close>

section \<open>Arithmetic\<close>

text \<open>Addition, aligned at the heads.\<close>

fun poly_add :: "bool list \<Rightarrow> bool list \<Rightarrow> bool list" where
  "poly_add [] bs = bs"
| "poly_add (a # as) [] = a # as"
| "poly_add (a # as) (b # bs) = (if a then \<not> b else b) # poly_add as bs"

text \<open>
  A modulus is given by the coefficients \<open>m\<close> below its leading one.  \<open>reduce m k a\<close> removes the \<open>k\<close>
  leading coefficients of \<open>a\<close>.
\<close>

fun reduce :: "bool list \<Rightarrow> nat \<Rightarrow> bool list \<Rightarrow> bool list" where
  "reduce m 0 a = a"
| "reduce m (Suc k) [] = []"
| "reduce m (Suc k) (h # t) = reduce m k (if h then poly_add t m else t)"

fun spread :: "bool list \<Rightarrow> bool list" where
  "spread [] = []"
| "spread (b # bs) = False # b # spread bs"

text \<open>Squares, products (by Horner's rule over \<open>bs\<close>) and powers, modulo \<open>m\<close>.\<close>

definition square_mod :: "bool list \<Rightarrow> bool list \<Rightarrow> bool list" where
  "square_mod m a = reduce m (length a) (spread a)"

fun squares_mod :: "bool list \<Rightarrow> nat \<Rightarrow> bool list \<Rightarrow> bool list" where
  "squares_mod m 0 a = a"
| "squares_mod m (Suc k) a = squares_mod m k (square_mod m a)"

fun mult_mod :: "bool list \<Rightarrow> bool list \<Rightarrow> bool list \<Rightarrow> bool list \<Rightarrow> bool list" where
  "mult_mod m a [] r = r"
| "mult_mod m a (b # bs) r =
     (let s = reduce m 1 (r @ [False]) in mult_mod m a bs (if b then poly_add s a else s))"

text \<open>The power with exponent \<open>2 ^ k + 1\<close>, and the one with the exponent of binary digits \<open>es\<close>.\<close>

definition fermat_mod :: "bool list \<Rightarrow> nat \<Rightarrow> bool list \<Rightarrow> bool list" where
  "fermat_mod m k a = mult_mod m (squares_mod m k a) a (replicate (length m) False)"

fun power_mod :: "bool list \<Rightarrow> bool list \<Rightarrow> bool list \<Rightarrow> bool list \<Rightarrow> bool list" where
  "power_mod m a [] r = r"
| "power_mod m a (e # es) r =
     (let s = square_mod m r in
      power_mod m a es (if e then mult_mod m s a (replicate (length m) False) else s))"

text \<open>The polynomial whose coefficients are the \<open>k\<close> lowest bits of a number.\<close>

fun poly_bits :: "nat \<Rightarrow> int \<Rightarrow> bool list \<Rightarrow> bool list" where
  "poly_bits 0 n acc = acc"
| "poly_bits (Suc k) n acc = poly_bits k (n div 2) (odd n # acc)"

abbreviation poly64 :: "int \<Rightarrow> bool list" where
  "poly64 n \<equiv> poly_bits 64 n []"

lemma poly_add_length [simp]: "length (poly_add a b) = max (length a) (length b)"
  by (induction a b rule: poly_add.induct) auto

lemma spread_length [simp]: "length (spread a) = 2 * length a"
  by (induction a) auto

lemma reduce_length: "k \<le> length a \<Longrightarrow> length m \<le> length a - k \<Longrightarrow> length (reduce m k a) = length a - k"
  by (induction m k a rule: reduce.induct) auto

lemma poly_bits_length [simp]: "length (poly_bits k n acc) = k + length acc"
  by (induction k n acc rule: poly_bits.induct) simp_all

lemma square_mod_length [simp]: "length a = length m \<Longrightarrow> length (square_mod m a) = length m"
  by (simp add: square_mod_def reduce_length)

lemma squares_mod_length [simp]: "length a = length m \<Longrightarrow> length (squares_mod m k a) = length m"
  by (induction m k a rule: squares_mod.induct) simp_all

lemma mult_mod_length [simp]: "length r = length m \<Longrightarrow> length a = length m \<Longrightarrow> length (mult_mod m a bs r) = length m"
  by (induction m a bs r rule: mult_mod.induct) (simp_all add: Let_def reduce_length del: reduce.simps)

lemma fermat_mod_length [simp]: "length a = length m \<Longrightarrow> length (fermat_mod m k a) = length m"
  by (simp add: fermat_mod_def)

section \<open>The action of a polynomial\<close>

fun act :: "('v \<Rightarrow> 'v \<Rightarrow> 'v) \<Rightarrow> 'v \<Rightarrow> ('v \<Rightarrow> 'v) \<Rightarrow> bool list \<Rightarrow> 'v \<Rightarrow> 'v" where
  "act add zero T [] v = zero"
| "act add zero T (b # bs) v = add (if b then (T ^^ length bs) v else zero) (act add zero T bs v)"

text \<open>The same by Horner's rule.\<close>

fun horner :: "('v \<Rightarrow> 'v \<Rightarrow> 'v) \<Rightarrow> ('v \<Rightarrow> 'v) \<Rightarrow> bool list \<Rightarrow> 'v \<Rightarrow> 'v \<Rightarrow> 'v" where
  "horner add T [] v acc = acc"
| "horner add T (b # bs) v acc = horner add T bs v (if b then add (T acc) v else T acc)"

locale xor_linear =
  fixes add :: "'v \<Rightarrow> 'v \<Rightarrow> 'v" and zero :: 'v and T :: "'v \<Rightarrow> 'v"
  assumes add_assoc: "add (add u v) w = add u (add v w)"
    and add_commute: "add u v = add v u"
    and add_zero: "add zero v = v"
    and add_self: "add v v = zero"
    and T_add: "T (add v w) = add (T v) (T w)"
begin

abbreviation "acts \<equiv> act add zero T"

lemma add_left_commute: "add u (add v w) = add v (add u w)"
  by (metis add_assoc add_commute)

lemmas add_ac = add_assoc add_commute add_left_commute

lemma add_zero_right: "add v zero = v"
  by (metis add_commute add_zero)

lemma add_cancel: "add v (add v w) = w"
  by (simp add: add_assoc [symmetric] add_self add_zero)

lemma add_zero_eq: "add v w = zero \<Longrightarrow> w = v"
  by (metis add_cancel add_zero_right)

lemma T_zero: "T zero = zero"
  by (metis T_add add_self)

lemma power_add: "(T ^^ n) (add v w) = add ((T ^^ n) v) ((T ^^ n) w)"
  by (induction n) (simp_all add: T_add)

lemma power_zero: "(T ^^ n) zero = zero"
  by (induction n) (simp_all add: T_zero)

lemma power_power: "(T ^^ a) ((T ^^ b) v) = (T ^^ (a + b)) v"
  by (simp add: funpow_add)

lemma power_commute: "(T ^^ a) ((T ^^ b) v) = (T ^^ b) ((T ^^ a) v)"
  by (simp add: power_power add.commute)

lemmas linear_simps = add_zero add_zero_right add_self add_cancel power_add power_zero T_zero

lemma acts_power: "acts a ((T ^^ n) v) = (T ^^ n) (acts a v)"
  by (induction a) (simp_all add: linear_simps power_commute)

lemma acts_add: "acts a (add v w) = add (acts a v) (acts a w)"
  by (induction a) (simp_all add: linear_simps add_ac)

lemma acts_zero: "acts a zero = zero"
  by (induction a) (simp_all add: linear_simps)

lemma acts_append: "acts (a @ b) v = add ((T ^^ length b) (acts a v)) (acts b v)"
  by (induction a) (simp_all add: linear_simps add_ac power_power add.commute)

lemma acts_commute: "acts a (acts b v) = acts b (acts a v)"
proof (induction b)
  case (Cons x b)
  then show ?case by (simp add: acts_add acts_power acts_zero)
qed (simp add: acts_zero)

lemma acts_poly_add:
  "length b \<le> length a \<Longrightarrow>
    acts (poly_add a b) v = add (acts a v) ((T ^^ (length a - length b)) (acts b v))"
proof (induction a b rule: poly_add.induct)
  case (3 x a y b)
  then have "length (poly_add a b) = length a" by (simp add: max_def)
  then show ?case using 3 by (cases x; cases y) (simp_all add: linear_simps add_ac power_power)
qed (simp_all add: linear_simps)

lemma horner_acts: "horner add T bs v acc = add ((T ^^ length bs) acc) (acts bs v)"
  by (induction bs arbitrary: acc) (simp_all add: linear_simps add_ac funpow_swap1)

lemma acts_replicate: "acts (replicate n False) v = zero"
  by (induction n) (simp_all add: linear_simps)

lemma acts_spread: "acts (spread a) v = acts a (acts a v)"
proof (induction a)
  case (Cons x a)
  have "acts (x # a) (acts (x # a) v) = add (if x then (T ^^ (2 * length a)) v else zero) (acts a (acts a v))"
    by (simp add: linear_simps acts_zero acts_add acts_power power_power add_ac mult_2)
  then show ?case using Cons by (simp add: linear_simps acts_zero)
qed simp

end

text \<open>
  A modulus that annihilates the vector \<open>e\<close>: then \<open>reduce\<close> keeps the action on \<open>e\<close>, and the
  polynomials that act on \<open>e\<close> as a power of \<open>T\<close> can be multiplied.
\<close>

locale annihilated = xor_linear add zero T
  for add :: "'v \<Rightarrow> 'v \<Rightarrow> 'v" and zero :: 'v and T :: "'v \<Rightarrow> 'v" +
  fixes m :: "bool list" and e :: 'v
  assumes annihilates: "act add zero T m e = (T ^^ length m) e"
begin

lemma acts_reduce:
  "k \<le> length a \<Longrightarrow> length m \<le> length a - k \<Longrightarrow> acts (reduce m k a) e = acts a e"
proof (induction k arbitrary: a)
  case (Suc k)
  obtain h t where a: "a = h # t" using Suc.prems(1) by (cases a) simp_all
  have le: "length m \<le> length t" using Suc.prems(2) a by simp
  have "acts (if h then poly_add t m else t) e = acts (h # t) e"
    using le by (simp add: acts_poly_add annihilates linear_simps power_power add_ac)
  moreover have "acts (reduce m k (if h then poly_add t m else t)) e = acts (if h then poly_add t m else t) e"
    using Suc.prems a le by (intro Suc.IH) (simp_all add: max_def)
  ultimately show ?case by (simp add: a)
qed simp

lemma acts_mult_mod:
  assumes "length a = length m"
  shows "length r = length m \<Longrightarrow>
    acts (mult_mod m a bs r) e = add (acts bs (acts a e)) ((T ^^ length bs) (acts r e))"
proof (induction bs arbitrary: r)
  case (Cons b bs)
  define s where "s = reduce m 1 (r @ [False])"
  have s: "length s = length m" unfolding s_def using Cons.prems by (subst reduce_length) simp_all
  have "acts s e = T (acts r e)"
    unfolding s_def using Cons.prems by (subst acts_reduce) (simp_all add: acts_append linear_simps)
  then have "acts (if b then poly_add s a else s) e = add (if b then acts a e else zero) (T (acts r e))"
    using s assms by (simp add: acts_poly_add linear_simps add_ac)
  moreover have "length (if b then poly_add s a else s) = length m" using s assms by simp
  moreover have "mult_mod m a (b # bs) r = mult_mod m a bs (if b then poly_add s a else s)"
    by (simp only: mult_mod.simps s_def Let_def)
  ultimately show ?case
    using Cons.IH [of "if b then poly_add s a else s"]
    by (cases b) (simp_all add: linear_simps add_ac funpow_swap1 del: mult_mod.simps)
qed (simp add: linear_simps)

text \<open>\<open>a\<close> is the power \<open>n\<close> of the variable.\<close>

definition is_power :: "bool list \<Rightarrow> nat \<Rightarrow> bool" where
  "is_power a n \<longleftrightarrow> length a = length m \<and> acts a e = (T ^^ n) e"

lemma mult_power:
  assumes "is_power a i" and "is_power b j"
  shows "is_power (mult_mod m a b (replicate (length m) False)) (i + j)"
proof -
  have "acts b (acts a e) = (T ^^ (i + j)) e"
    using assms by (simp add: is_power_def acts_power power_power)
  then show ?thesis
    using assms by (simp add: is_power_def acts_mult_mod acts_replicate linear_simps)
qed

lemma square_power: "is_power a i \<Longrightarrow> is_power (square_mod m a) (2 * i)"
  by (simp add: is_power_def square_mod_def reduce_length acts_reduce acts_spread acts_power power_power mult_2)

lemma squares_power: "is_power a i \<Longrightarrow> is_power (squares_mod m k a) (2 ^ k * i)"
proof (induction k arbitrary: a i)
  case (Suc k)
  show ?case using Suc.IH [OF square_power [OF Suc.prems]] by (simp add: mult.assoc mult.left_commute)
qed simp

lemma fermat_power: "is_power a i \<Longrightarrow> is_power (fermat_mod m k a) ((2 ^ k + 1) * i)"
  using mult_power [OF squares_power, of a i a i k] by (simp add: fermat_mod_def add.commute)

lemma power_mod_power:
  assumes "is_power a i"
  shows "is_power r j \<Longrightarrow>
    is_power (power_mod m a es r) (foldl (\<lambda>k b. 2 * k + (if b then i else 0)) j es)"
proof (induction es arbitrary: r j)
  case (Cons b es)
  have "is_power (square_mod m r) (2 * j)" by (rule square_power [OF Cons.prems])
  then have "is_power (if b then mult_mod m (square_mod m r) a (replicate (length m) False) else square_mod m r)
      (2 * j + (if b then i else 0))"
    using mult_power assms by auto
  from Cons.IH [OF this] show ?case by (simp add: Let_def)
qed simp

text \<open>Where \<open>z - 1\<close> has the inverse \<open>u\<close>, the power that \<open>z\<close> is does not fix \<open>e\<close>.\<close>

lemma power_moves:
  assumes "is_power z n" and "is_power one 0" and "length u = length m"
    and "mult_mod m u (poly_add z one) (replicate (length m) False) = one" and "e \<noteq> zero"
  shows "(T ^^ n) e \<noteq> e"
proof
  assume fixed: "(T ^^ n) e = e"
  have "acts (poly_add z one) e = zero"
    using assms(1,2) fixed by (simp add: is_power_def acts_poly_add add_self)
  then have "acts (poly_add z one) (acts u e) = zero"
    using acts_commute [of "poly_add z one" u e] by (simp add: acts_zero)
  then have "acts (mult_mod m u (poly_add z one) (replicate (length m) False)) e = zero"
    using assms(3) by (simp add: acts_mult_mod acts_replicate linear_simps)
  then show False using assms(2,4,5) by (simp add: is_power_def)
qed

end

end
