(* ===== verification/Rand_Period.thy ===== *)
theory Rand_Period
  imports Rand Gf2
begin

text \<open>
  The period of the generator.  On states that are not all zero its step is linear; the minimal
  polynomial of the step, of degree 64, is primitive, which is checked by computing with polynomials
  modulo it: the states that are not all zero form one cycle.
\<close>

section \<open>Orders\<close>

text \<open>A number that no smaller one divides, by trial of the numbers next to multiples of 6.\<close>

definition trial_range :: "int \<Rightarrow> int \<Rightarrow> int \<Rightarrow> bool" where
  "trial_range q a b \<longleftrightarrow> list_all (\<lambda>i. q mod (6 * i - 1) \<noteq> 0 \<and> q mod (6 * i + 1) \<noteq> 0) [a..b]"

lemma trial_range_join: "trial_range q a b \<Longrightarrow> trial_range q (b + 1) c \<Longrightarrow> trial_range q a c"
  unfolding trial_range_def list_all_iff set_upto by (metis atLeastAtMost_iff linorder_not_less zless_imp_add1_zle)

definition only_trivial :: "nat \<Rightarrow> bool" where
  "only_trivial q \<longleftrightarrow> (\<forall>g. g dvd q \<longrightarrow> g = 1 \<or> g = q)"

lemma only_trivial_bound:
  fixes q :: nat
  assumes "\<And>i. 2 \<le> i \<Longrightarrow> i \<le> r \<Longrightarrow> \<not> i dvd q" and "q < (r + 1) * (r + 1)" and "0 < q"
  shows "only_trivial q"
  unfolding only_trivial_def
proof (intro allI impI)
  fix g assume "g dvd q"
  then obtain h where q: "q = g * h" by (elim dvdE)
  have "\<not> (2 \<le> g \<and> g \<le> r)" "\<not> (2 \<le> h \<and> h \<le> r)"
    using assms(1) [of g] assms(1) [of h] q by auto
  moreover have "g \<noteq> 0" "h \<noteq> 0" using q assms(3) by auto
  moreover have "\<not> (r + 1 \<le> g \<and> r + 1 \<le> h)"
    using assms(2) q mult_le_mono [of "r + 1" g "r + 1" h] by auto
  ultimately have "g = 1 \<or> h = 1" by linarith
  then show "g = 1 \<or> g = q" using q by auto
qed

lemma trial_no_divisor:
  assumes "trial_range (int q) 1 (int n)" and "odd q" and "\<not> 3 dvd q" and "2 \<le> i" and "i \<le> 6 * n"
  shows "\<not> i dvd q"
proof
  assume i: "i dvd q"
  have "odd i" "\<not> 3 dvd i" using i assms(2,3) dvd_trans by blast+
  then obtain j where j: "i = 6 * j - 1 \<or> i = 6 * j + 1" "1 \<le> j" "j \<le> n"
  proof -
    assume *: "\<And>j. i = 6 * j - 1 \<or> i = 6 * j + 1 \<Longrightarrow> 1 \<le> j \<Longrightarrow> j \<le> n \<Longrightarrow> thesis"
    have "i mod 6 = 1 \<or> i mod 6 = 5" using \<open>odd i\<close> \<open>\<not> 3 dvd i\<close> by presburger
    then have "i = 6 * ((i + 1) div 6) - 1 \<or> i = 6 * ((i + 1) div 6) + 1" by presburger
    moreover have "1 \<le> (i + 1) div 6" using assms(4) \<open>odd i\<close> \<open>\<not> 3 dvd i\<close> by presburger
    moreover have "(i + 1) div 6 \<le> n" using assms(5) by linarith
    ultimately show thesis by (rule *)
  qed
  then have "int j \<in> set [1..int n]" by simp
  then have "\<not> (6 * int j - 1) dvd int q" "\<not> (6 * int j + 1) dvd int q"
    using assms(1) by (auto simp: trial_range_def list_all_iff dvd_eq_mod_eq_0)
  moreover have "int i = 6 * int j - 1 \<or> int i = 6 * int j + 1" using j(1,2) by auto
  ultimately show False using i by (metis of_nat_dvd_iff)
qed

text \<open>The order of a point that returns after \<open>N\<close> steps, but not after the cofactors of \<open>N\<close>.\<close>

lemma order_exact:
  fixes N :: nat
  assumes "0 < N" and "(f ^^ N) e = e"
    and "\<And>k. k dvd N \<Longrightarrow> k \<noteq> 1 \<Longrightarrow> \<exists>q \<in> Q. q dvd k"
    and "\<And>q. q \<in> Q \<Longrightarrow> q dvd N \<and> (f ^^ (N div q)) e \<noteq> e"
  shows "(f ^^ n) e = e \<longleftrightarrow> N dvd n"
proof -
  define d where "d = (LEAST n. 0 < n \<and> (f ^^ n) e = e)"
  have d: "0 < d" "(f ^^ d) e = e"
    using LeastI [of "\<lambda>n. 0 < n \<and> (f ^^ n) e = e" N] assms(1,2) by (simp_all add: d_def)
  have returns: "(f ^^ n) e = e \<longleftrightarrow> d dvd n" for n
  proof
    assume "(f ^^ n) e = e"
    then have "(f ^^ (n mod d)) e = e" using funpow_mod_eq [OF d(2), of n] by simp
    moreover have "n mod d < d" using d(1) by simp
    ultimately have "n mod d = 0"
      using not_less_Least [of "n mod d" "\<lambda>n. 0 < n \<and> (f ^^ n) e = e"] by (auto simp: d_def)
    then show "d dvd n" by (simp add: dvd_eq_mod_eq_0)
  next
    assume "d dvd n"
    then show "(f ^^ n) e = e" using funpow_mod_eq [OF d(2), of n] by simp
  qed
  have "d dvd N" using returns [of N] assms(2) by simp
  then obtain k where k: "N = d * k" by (elim dvdE)
  have "k = 1"
  proof (rule ccontr)
    assume "k \<noteq> 1"
    then obtain q where q: "q \<in> Q" "q dvd k" using assms(3) [of k] k by auto
    then have "0 < q" using k assms(1) by (auto intro: dvd_pos_nat)
    then have "N div q = d * (k div q)" using q(2) k by (simp add: div_mult_swap)
    then show False using returns assms(4) [OF q(1)] by simp
  qed
  then show ?thesis using returns k by simp
qed

section \<open>The linear step\<close>

definition xoro_step :: "rand_state \<Rightarrow> rand_state" where
  "xoro_step st =
     (let x = state1 st XOR state0 st
      in \<lparr>state0 = rol32 (state0 st) 26 XOR x XOR push_bit 9 x, state1 = rol32 x 13\<rparr>)"

definition add_state :: "rand_state \<Rightarrow> rand_state \<Rightarrow> rand_state" where
  "add_state st st' = \<lparr>state0 = state0 st XOR state0 st', state1 = state1 st XOR state1 st'\<rparr>"

definition first_state :: rand_state where
  "first_state = \<lparr>state0 = 1, state1 = 0\<rparr>"

lemma xoro_step_succ: "nonzero_state st \<Longrightarrow> xoro_step st = succ_state st"
  by (simp add: succ_state_nonzero xoro_step_def Let_def)

lemma rol32_xor: "rol32 (x XOR y) k = rol32 x k XOR rol32 y k" if "0 < k" "k < 32" for x y :: u32
proof (rule bit_word_eqI)
  fix n assume "n < LENGTH(32)"
  then have n: "n < 32" by simp
  show "bit (rol32 (x XOR y) k) n = bit (rol32 x k XOR rol32 y k) n"
    using bit_rol32 [OF that n, of "x XOR y"] bit_rol32 [OF that n, of x] bit_rol32 [OF that n, of y]
    by (simp add: bit_xor_iff)
qed

interpretation xoro: xor_linear add_state rand_init xoro_step
proof
  fix u v w :: rand_state
  show "add_state (add_state u v) w = add_state u (add_state v w)" by (simp add: add_state_def xor.assoc)
  show "add_state u v = add_state v u" by (simp add: add_state_def xor.commute)
  show "add_state rand_init v = v" by (simp add: add_state_def rand_init_def)
  show "add_state v v = rand_init" by (simp add: add_state_def rand_init_def)
  show "xoro_step (add_state v w) = add_state (xoro_step v) (xoro_step w)"
    by (simp add: add_state_def xoro_step_def Let_def rol32_xor push_bit_xor xor.assoc xor.commute xor.left_commute)
qed

text \<open>The minimal polynomial, without its leading coefficient.\<close>

definition rand_poly :: "bool list" where
  "rand_poly = poly64 0x053be9da6e2286c1"

lemma rand_poly_length [simp]: "length rand_poly = 64"
  by code_simp

text \<open>The step on lists of bits, on which 64 steps are computed.\<close>

definition bits32 :: "u32 \<Rightarrow> bool list" where
  "bits32 x = map (\<lambda>n. bit x (31 - n)) [0..<32]"

definition list_state :: "rand_state \<Rightarrow> bool list \<times> bool list" where
  "list_state st = (bits32 (state0 st), bits32 (state1 st))"

definition list_add :: "bool list \<times> bool list \<Rightarrow> bool list \<times> bool list \<Rightarrow> bool list \<times> bool list" where
  "list_add = (\<lambda>(a, b) (a', b'). (poly_add a a', poly_add b b'))"

definition list_rol :: "nat \<Rightarrow> bool list \<Rightarrow> bool list" where
  "list_rol k xs = drop k xs @ take k xs"

definition list_step :: "bool list \<times> bool list \<Rightarrow> bool list \<times> bool list" where
  "list_step = (\<lambda>(a, b).
     let x = poly_add b a
     in (poly_add (list_rol 26 a) (poly_add x (drop 9 x @ replicate 9 False)), list_rol 13 x))"

lemma bits32_length [simp]: "length (bits32 x) = 32"
  by (simp add: bits32_def)

lemma bits32_nth: "n < 32 \<Longrightarrow> bits32 x ! n = bit x (31 - n)"
  by (simp add: bits32_def)

lemma poly_add_nth: "length a = length b \<Longrightarrow> n < length a \<Longrightarrow> poly_add a b ! n = (a ! n \<noteq> b ! n)"
  by (induction a b arbitrary: n rule: poly_add.induct) (auto simp: nth_Cons split: nat.split)

lemma bits32_xor: "bits32 (x XOR y) = poly_add (bits32 x) (bits32 y)"
  by (rule nth_equalityI) (simp_all add: bits32_nth poly_add_nth bit_xor_iff)

lemma bits32_rol: "0 < k \<Longrightarrow> k < 32 \<Longrightarrow> bits32 (rol32 x k) = list_rol k (bits32 x)"
  by (rule nth_equalityI) (auto simp: list_rol_def bits32_nth bit_rol32 nth_append add.commute intro: arg_cong [of _ _ "bit x"])

lemma bits32_push: "k < 32 \<Longrightarrow> bits32 (push_bit k x) = drop k (bits32 x) @ replicate k False"
  by (rule nth_equalityI) (auto simp: bits32_nth bit_push_bit_iff nth_append add.commute intro: arg_cong [of _ _ "bit x"])

lemma bits32_inj: "bits32 x = bits32 y \<Longrightarrow> x = y"
proof (rule bit_word_eqI)
  fix n assume eq: "bits32 x = bits32 y" and "n < LENGTH(32)"
  then have "31 - n < 32" "31 - (31 - n) = n" by simp_all
  then show "bit x n = bit y n" using bits32_nth [of "31 - n" x] bits32_nth [of "31 - n" y] eq by simp
qed

lemma list_state_inj: "list_state st = list_state st' \<Longrightarrow> st = st'"
  using bits32_inj by (cases st; cases st') (auto simp: list_state_def)

lemma horner_hom:
  assumes "\<And>u v. h (add u v) = add' (h u) (h v)" and "\<And>v. h (T v) = T' (h v)"
  shows "h (horner add T bs v acc) = horner add' T' bs (h v) (h acc)"
  by (induction bs arbitrary: acc) (simp_all add: assms)

lemma list_horner:
  "list_state (horner add_state xoro_step bs v acc) = horner list_add list_step bs (list_state v) (list_state acc)"
  by (rule horner_hom)
    (simp_all add: list_state_def add_state_def list_add_def list_step_def xoro_step_def Let_def
      bits32_xor bits32_rol bits32_push del: push_bit_xor)

lemma rand_poly_annihilates: "horner add_state xoro_step (True # rand_poly) first_state rand_init = rand_init"
proof (rule list_state_inj)
  have first: "list_state first_state = (replicate 31 False @ [True], replicate 32 False)"
    "list_state rand_init = (replicate 32 False, replicate 32 False)"
    by code_simp+
  have "horner list_add list_step (True # rand_poly) (replicate 31 False @ [True], replicate 32 False)
      (replicate 32 False, replicate 32 False) = (replicate 32 False, replicate 32 False)"
    by code_simp
  then show "list_state (horner add_state xoro_step (True # rand_poly) first_state rand_init) = list_state rand_init"
    unfolding list_horner first .
qed

interpretation rand_order: annihilated add_state rand_init xoro_step rand_poly first_state
proof
  have "(xoro_step ^^ length (True # rand_poly)) rand_init = rand_init" by (rule xoro.power_zero)
  then have z: "add_state ((xoro_step ^^ 64) first_state) (act add_state rand_init xoro_step rand_poly first_state) = rand_init"
    using rand_poly_annihilates xoro.horner_acts [of "True # rand_poly" first_state rand_init] by (simp add: xoro.add_zero)
  then show "act add_state rand_init xoro_step rand_poly first_state = (xoro_step ^^ length rand_poly) first_state"
    by (simp add: xoro.add_zero_eq)
qed

section \<open>Powers of the step\<close>

text \<open>
  The powers of the variable modulo the polynomial, with the exponents \<open>(2 ^ 64 - 1) div q\<close> for the
  prime factors \<open>q\<close> of \<open>2 ^ 64 - 1\<close>, built from the Fermat numbers \<open>2 ^ 2 ^ i + 1\<close>; and the inverses that
  show that none of them is a fixed point.
\<close>

lemma fermat5: "fermat_mod rand_poly 32 (poly64 2) = poly64 0x997f337aeff9a340"
  by code_simp

lemma fermat54: "fermat_mod rand_poly 16 (poly64 0x997f337aeff9a340) = poly64 0xbeddd157b34e9053"
  by code_simp

lemma fermat543: "fermat_mod rand_poly 8 (poly64 0xbeddd157b34e9053) = poly64 0xd64a92554364b563"
  by code_simp

lemma fermat5432: "fermat_mod rand_poly 4 (poly64 0xd64a92554364b563) = poly64 0xe899d42abd368284"
  by code_simp

lemma cofactor3: "fermat_mod rand_poly 2 (poly64 0xe899d42abd368284) = poly64 0xfd64f34d18b1aa77"
  by code_simp

lemma cofactor5: "fermat_mod rand_poly 1 (poly64 0xe899d42abd368284) = poly64 0xff60e9b8e910b282"
  by code_simp

lemma cofactor17:
  "fermat_mod rand_poly 2 (fermat_mod rand_poly 1 (poly64 0xd64a92554364b563))
    = poly64 0xbb5216f68b3e5a7b"
  by code_simp

lemma cofactor257:
  "fermat_mod rand_poly 4 (fermat_mod rand_poly 2 (fermat_mod rand_poly 1
      (poly64 0xbeddd157b34e9053)))
    = poly64 0x81609b4cec48ede3"
  by code_simp

lemma cofactor65537:
  "fermat_mod rand_poly 8 (fermat_mod rand_poly 4 (fermat_mod rand_poly 2 (fermat_mod rand_poly 1
      (poly64 0x997f337aeff9a340))))
    = poly64 0xb8662dd36b156f1a"
  by code_simp

lemma fermat01234:
  "fermat_mod rand_poly 16 (fermat_mod rand_poly 8 (fermat_mod rand_poly 4 (fermat_mod rand_poly 2 (fermat_mod rand_poly 1
      (poly64 2)))))
    = poly64 0x265fccdebbfe68d0"
  by code_simp

lemma cofactor641:
  "power_mod rand_poly
      (poly64 0x265fccdebbfe68d0) (poly_bits 22 2506113 []) (poly64 0x265fccdebbfe68d0)
    = poly64 0x74eccff1772b078f"
  by code_simp

lemma cofactor6700417:
  "power_mod rand_poly
      (poly64 0x265fccdebbfe68d0) (poly_bits 9 129 []) (poly64 0x265fccdebbfe68d0)
    = poly64 0xefa312dfdfd62080"
  by code_simp

lemma full_power: "fermat_mod rand_poly 32 (poly64 0x265fccdebbfe68d0) = poly64 1"
  by code_simp

lemma inverse3:
  "mult_mod rand_poly
      (poly64 0xfd64f34d18b1aa77) (poly_add (poly64 0xfd64f34d18b1aa77) (poly64 1)) (replicate 64 False)
    = poly64 1"
  by code_simp

lemma inverse5:
  "mult_mod rand_poly
      (poly64 0xe899d42abd368284) (poly_add (poly64 0xff60e9b8e910b282) (poly64 1)) (replicate 64 False)
    = poly64 1"
  by code_simp

lemma inverse17:
  "mult_mod rand_poly
      (poly64 0xc5de2f621b25f09a) (poly_add (poly64 0xbb5216f68b3e5a7b) (poly64 1)) (replicate 64 False)
    = poly64 1"
  by code_simp

lemma inverse257:
  "mult_mod rand_poly
      (poly64 0xee3c5a7953da7f82) (poly_add (poly64 0x81609b4cec48ede3) (poly64 1)) (replicate 64 False)
    = poly64 1"
  by code_simp

lemma inverse65537:
  "mult_mod rand_poly
      (poly64 0x3b7c5f0bd3e992f6) (poly_add (poly64 0xb8662dd36b156f1a) (poly64 1)) (replicate 64 False)
    = poly64 1"
  by code_simp

lemma inverse641:
  "mult_mod rand_poly
      (poly64 0xf269980a0f2f9957) (poly_add (poly64 0x74eccff1772b078f) (poly64 1)) (replicate 64 False)
    = poly64 1"
  by code_simp

lemma inverse6700417:
  "mult_mod rand_poly
      (poly64 0x4cc5c87d9e634973) (poly_add (poly64 0xefa312dfdfd62080) (poly64 1)) (replicate 64 False)
    = poly64 1"
  by code_simp

text \<open>The exponents.\<close>

lemma one_power: "rand_order.is_power (poly64 1) 0"
proof -
  have "poly64 1 = replicate 63 False @ [True]" by code_simp
  then show ?thesis
    by (simp add: rand_order.is_power_def xoro.acts_append xoro.acts_replicate xoro.linear_simps)
qed

lemma variable_power: "rand_order.is_power (poly64 2) 1"
proof -
  have "poly64 2 = replicate 62 False @ [True, False]" by code_simp
  then show ?thesis
    by (simp add: rand_order.is_power_def xoro.acts_append xoro.acts_replicate xoro.linear_simps)
qed

lemma power_f5: "rand_order.is_power (poly64 0x997f337aeff9a340) 4294967297"
  using rand_order.fermat_power [OF variable_power, of 32] fermat5 by simp

lemma power_f54: "rand_order.is_power (poly64 0xbeddd157b34e9053) 281479271743489"
  using rand_order.fermat_power [OF power_f5, of 16] fermat54 by simp

lemma power_f543: "rand_order.is_power (poly64 0xd64a92554364b563) 72340172838076673"
  using rand_order.fermat_power [OF power_f54, of 8] fermat543 by simp

lemma power_f5432: "rand_order.is_power (poly64 0xe899d42abd368284) 1229782938247303441"
  using rand_order.fermat_power [OF power_f543, of 4] fermat5432 by simp

lemma power_f01234: "rand_order.is_power (poly64 0x265fccdebbfe68d0) 4294967295"
  using rand_order.fermat_power [OF rand_order.fermat_power [OF rand_order.fermat_power [OF rand_order.fermat_power [OF rand_order.fermat_power [OF variable_power, of 1], of 2], of 4], of 8], of 16] fermat01234 by simp

lemma power_full: "rand_order.is_power (poly64 0x0000000000000001) 18446744073709551615"
  using rand_order.fermat_power [OF power_f01234, of 32] full_power by simp

lemma power_3: "rand_order.is_power (poly64 0xfd64f34d18b1aa77) 6148914691236517205"
  using rand_order.fermat_power [OF power_f5432, of 2] cofactor3 by simp

lemma power_5: "rand_order.is_power (poly64 0xff60e9b8e910b282) 3689348814741910323"
  using rand_order.fermat_power [OF power_f5432, of 1] cofactor5 by simp

lemma power_17: "rand_order.is_power (poly64 0xbb5216f68b3e5a7b) 1085102592571150095"
  using rand_order.fermat_power [OF rand_order.fermat_power [OF power_f543, of 1], of 2] cofactor17 by simp

lemma power_257: "rand_order.is_power (poly64 0x81609b4cec48ede3) 71777214294589695"
  using rand_order.fermat_power [OF rand_order.fermat_power [OF rand_order.fermat_power [OF power_f54, of 1], of 2], of 4] cofactor257 by simp

lemma power_65537: "rand_order.is_power (poly64 0xb8662dd36b156f1a) 281470681808895"
  using rand_order.fermat_power [OF rand_order.fermat_power [OF rand_order.fermat_power [OF rand_order.fermat_power [OF power_f5, of 1], of 2], of 4], of 8] cofactor65537 by simp

lemma power_641: "rand_order.is_power (poly64 0x74eccff1772b078f) 28778071877862015"
proof -
  have "poly_bits 22 2506113 [] = [True, False, False, True, True, False, False, False, True, True, True, True, False, True, True, False, False, False, False, False, False, True]" by code_simp
  then show ?thesis
    using rand_order.power_mod_power [OF power_f01234 power_f01234, of "poly_bits 22 2506113 []"] cofactor641 by simp
qed

lemma power_6700417: "rand_order.is_power (poly64 0xefa312dfdfd62080) 2753074036095"
proof -
  have "poly_bits 9 129 [] = [False, True, False, False, False, False, False, False, True]" by code_simp
  then show ?thesis
    using rand_order.power_mod_power [OF power_f01234 power_f01234, of "poly_bits 9 129 []"] cofactor6700417 by simp
qed


section \<open>The order of the step\<close>

definition rand_primes :: "nat set" where
  "rand_primes = {3, 5, 17, 257, 641, 65537, 6700417}"

lemma first_state_nonzero: "first_state \<noteq> rand_init"
  by (simp add: first_state_def rand_init_def)

lemma rand_moves:
  assumes "rand_order.is_power (poly64 z) n"
    and "mult_mod rand_poly (poly64 u) (poly_add (poly64 z) (poly64 1)) (replicate 64 False) = poly64 1"
  shows "(xoro_step ^^ n) first_state \<noteq> first_state"
  using rand_order.power_moves [OF assms(1) one_power, of "poly64 u"] assms(2) first_state_nonzero by simp

lemma cofactor_moves:
  "q \<in> rand_primes \<Longrightarrow> q dvd 2 ^ 64 - 1 \<and> (xoro_step ^^ ((2 ^ 64 - 1) div q)) first_state \<noteq> first_state"
  using rand_moves [OF power_3 inverse3] rand_moves [OF power_5 inverse5] rand_moves [OF power_17 inverse17]
    rand_moves [OF power_257 inverse257] rand_moves [OF power_641 inverse641]
    rand_moves [OF power_65537 inverse65537] rand_moves [OF power_6700417 inverse6700417]
  by (auto simp: rand_primes_def)

lemma full_period: "(xoro_step ^^ (2 ^ 64 - 1)) first_state = first_state"
  using power_full one_power by (simp add: rand_order.is_power_def)

text \<open>The factors are prime.\<close>

lemma trial_6700417: "trial_range 6700417 1 432"
proof -
  have "trial_range 6700417 1 144" by code_simp
  moreover have "trial_range 6700417 145 288" by code_simp
  moreover have "trial_range 6700417 289 432" by code_simp
  ultimately show ?thesis
    using trial_range_join [of 6700417 1 144 288] trial_range_join [of 6700417 1 288 432] by simp
qed

lemma rand_primes_prime: "q \<in> rand_primes \<Longrightarrow> only_trivial q"
proof -
  have trial: "only_trivial q" if "trial_range (int q) 1 (int n)" "odd q" "\<not> 3 dvd q" "q < (6 * n + 1) * (6 * n + 1)"
    for q n using only_trivial_bound [of "6 * n" q] trial_no_divisor [OF that(1-3)] that(2,4) by (auto intro: odd_pos)
  have "trial_range 17 1 1" "trial_range 257 1 3" "trial_range 641 1 5" "trial_range 65537 1 43" by code_simp+
  then have "only_trivial 17" "only_trivial 257" "only_trivial 641" "only_trivial 65537" "only_trivial 6700417"
    using trial [of 17 1] trial [of 257 3] trial [of 641 5] trial [of 65537 43] trial [of 6700417 432]
      trial_6700417 by simp_all
  moreover have "only_trivial 3" by (rule only_trivial_bound [of 1]) simp_all
  moreover have "only_trivial 5"
  proof (rule only_trivial_bound [of 2])
    fix i :: nat assume "2 \<le> i" "i \<le> 2"
    then have "i = 2" by simp
    then show "\<not> i dvd 5" by simp
  qed simp_all
  ultimately show "q \<in> rand_primes \<Longrightarrow> only_trivial q" by (auto simp: rand_primes_def)
qed

lemma rand_primes_divide:
  assumes "k dvd 2 ^ 64 - 1" and "k \<noteq> 1"
  shows "\<exists>q \<in> rand_primes. q dvd k"
proof (rule ccontr)
  assume none: "\<not> ?thesis"
  have co: "coprime k q" if "q \<in> rand_primes" for q
  proof -
    have "gcd k q = 1 \<or> gcd k q = q" using rand_primes_prime [OF that] by (simp add: only_trivial_def)
    moreover have "gcd k q \<noteq> q" using none that by (metis gcd_dvd1)
    ultimately show ?thesis by (simp add: coprime_iff_gcd_eq_1)
  qed
  have "(2 ^ 64 - 1 :: nat) = 3 * (5 * (17 * (257 * (641 * (65537 * 6700417)))))" by simp
  moreover have "coprime k (3 * (5 * (17 * (257 * (641 * (65537 * 6700417))))))"
    unfolding coprime_mult_right_iff using co by (simp add: rand_primes_def)
  ultimately have "coprime k (2 ^ 64 - 1)" by (simp only:)
  then have "k = 1" using assms(1) by (metis coprime_common_divisor_nat dvd_refl)
  with assms(2) show False ..
qed

lemma xoro_order: "(xoro_step ^^ n) first_state = first_state \<longleftrightarrow> 2 ^ 64 - 1 dvd n"
  by (rule order_exact [OF _ full_period rand_primes_divide cofactor_moves]) simp_all

section \<open>One cycle\<close>

lemma nonzero_power: "nonzero_state st \<Longrightarrow> nonzero_state ((succ_state ^^ n) st)"
  by (cases n) (simp_all add: succ_state_keeps_nonzero)

lemma succ_xoro_power: "nonzero_state st \<Longrightarrow> (succ_state ^^ n) st = (xoro_step ^^ n) st"
proof (induction n)
  case (Suc n)
  then show ?case using xoro_step_succ [OF nonzero_power [OF Suc.prems], of n] by simp
qed simp

lemma first_nonzero: "nonzero_state first_state"
  by (simp add: nonzero_state_def first_state_def)

lemma first_order: "(succ_state ^^ n) first_state = first_state \<longleftrightarrow> 2 ^ 64 - 1 dvd n"
  by (simp add: succ_xoro_power first_nonzero xoro_order)

lemma power_inj:
  "nonzero_state st \<Longrightarrow> nonzero_state st' \<Longrightarrow> (succ_state ^^ n) st = (succ_state ^^ n) st' \<longleftrightarrow> st = st'"
  using bij_funpow [OF bij_succ_state, of n] by (auto simp: bij_betw_def inj_on_def)

lemma first_orbit_inj: "inj_on (\<lambda>n. (succ_state ^^ n) first_state) {..<2 ^ 64 - 1}"
proof (rule linorder_inj_onI)
  fix i j :: nat assume ij: "i < j" "j \<in> {..<2 ^ 64 - 1}"
  show "(succ_state ^^ i) first_state \<noteq> (succ_state ^^ j) first_state"
  proof
    assume "(succ_state ^^ i) first_state = (succ_state ^^ j) first_state"
    also have "\<dots> = (succ_state ^^ i) ((succ_state ^^ (j - i)) first_state)"
      using ij(1) by (simp flip: funpow_add [THEN fun_cong, unfolded comp_def])
    finally have "(succ_state ^^ (j - i)) first_state = first_state"
      using power_inj [OF first_nonzero nonzero_power [OF first_nonzero]] by metis
    then have "2 ^ 64 - 1 dvd j - i" by (simp only: first_order)
    then have "2 ^ 64 - 1 \<le> j - i" using ij(1) by (intro dvd_imp_le) simp_all
    then show False using ij by simp
  qed
qed auto

lemma card_nonzero: "card {st. nonzero_state st} = 2 ^ 64 - 1"
proof -
  have "bij_betw (\<lambda>(a, b). \<lparr>state0 = a, state1 = b\<rparr>) (UNIV :: (u32 \<times> u32) set) UNIV"
    by (rule bij_betw_byWitness [where f' = "\<lambda>st. (state0 st, state1 st)"]) auto
  then have "card (UNIV :: rand_state set) = CARD(u32 \<times> u32)" by (metis bij_betw_same_card)
  then have "card (UNIV :: rand_state set) = 2 ^ 32 * 2 ^ 32" by (simp add: card_word)
  moreover have "{st. nonzero_state st} = UNIV - {rand_init}"
    by (auto simp: nonzero_state_def rand_init_def)
  ultimately show ?thesis using finite_rand_states by (simp add: card_Diff_singleton)
qed

lemma first_orbit: "(\<lambda>n. (succ_state ^^ n) first_state) ` {..<2 ^ 64 - 1} = {st. nonzero_state st}"
proof (rule card_subset_eq)
  show "finite {st. nonzero_state st}" by (rule finite_subset [OF subset_UNIV finite_rand_states])
  show "(\<lambda>n. (succ_state ^^ n) first_state) ` {..<2 ^ 64 - 1} \<subseteq> {st. nonzero_state st}"
    using nonzero_power [OF first_nonzero] by blast
  show "card ((\<lambda>n. (succ_state ^^ n) first_state) ` {..<2 ^ 64 - 1}) = card {st. nonzero_state st}"
    by (simp only: card_image [OF first_orbit_inj] card_lessThan card_nonzero)
qed

lemma in_orbit:
  assumes "nonzero_state st"
  obtains i where "i < 2 ^ 64 - 1" and "st = (succ_state ^^ i) first_state"
  using assms first_orbit by (auto simp: set_eq_iff image_iff)

lemma full_cycle:
  assumes "nonzero_state st" and "nonzero_state st'"
  shows "((succ_state ^^ n) st = st \<longleftrightarrow> 2 ^ 64 - 1 dvd n) \<and> (\<exists>k < 2 ^ 64 - 1. (succ_state ^^ k) st = st')"
proof
  obtain i where i: "i < 2 ^ 64 - 1" "st = (succ_state ^^ i) first_state" using assms(1) by (rule in_orbit)
  obtain j where j: "j < 2 ^ 64 - 1" "st' = (succ_state ^^ j) first_state" using assms(2) by (rule in_orbit)
  have later: "(succ_state ^^ k) st = (succ_state ^^ (k + i)) first_state" for k
    by (simp add: i(2) funpow_add)
  have "(succ_state ^^ n) st = (succ_state ^^ i) ((succ_state ^^ n) first_state)"
    unfolding later by (simp add: funpow_add add.commute [of n])
  then show "(succ_state ^^ n) st = st \<longleftrightarrow> 2 ^ 64 - 1 dvd n"
    using power_inj [OF nonzero_power [OF first_nonzero] first_nonzero, of i n] i(2) first_order by simp
  show "\<exists>k < 2 ^ 64 - 1. (succ_state ^^ k) st = st'"
  proof (cases "i \<le> j")
    case True
    then have "(succ_state ^^ (j - i)) st = st'" unfolding later j(2) by simp
    then show ?thesis using j(1) by (intro exI [of _ "j - i"]) simp
  next
    case False
    then have "2 ^ 64 - 1 - i + j + i = j + (2 ^ 64 - 1)" using i(1) by simp
    then have "(succ_state ^^ (2 ^ 64 - 1 - i + j)) st = (succ_state ^^ j) ((succ_state ^^ (2 ^ 64 - 1)) first_state)"
      unfolding later by (simp only: funpow_add comp_apply)
    also have "\<dots> = st'" using first_order [of "2 ^ 64 - 1"] j(2) by simp
    finally show ?thesis using False i(1) by (intro exI [of _ "2 ^ 64 - 1 - i + j"]) simp
  qed
qed

text \<open>
  C17. The generator has the full period: from every state that is not all zero it passes through all
  \<open>2 ^ 64 - 1\<close> such states before it returns, so all seeds but 0 start on the same cycle.
\<close>

theorem next_rand_full_period:
  assumes "nonzero_state st" and "nonzero_state st'"
  shows "(((\<lambda>st. snd (next_rand st)) ^^ n) st = st \<longleftrightarrow> 2 ^ 64 - 1 dvd n)
    \<and> (\<exists>k < 2 ^ 64 - 1. ((\<lambda>st. snd (next_rand st)) ^^ k) st = st')"
  using full_cycle [OF assms, of n] by (simp add: succ_state_def [abs_def])

lemma next_rand_full_period_witness:
  "((\<lambda>st. snd (next_rand st)) ^^ (2 ^ 32)) (srand 7 rand_init) \<noteq> srand 7 rand_init
    \<and> (\<exists>k < 2 ^ 64 - 1. ((\<lambda>st. snd (next_rand st)) ^^ k) (srand 7 rand_init) = srand 1 rand_init)"
proof -
  have "nonzero_state (srand 7 rand_init)" "nonzero_state (srand 1 rand_init)"
    by (simp_all add: nonzero_state_def srand_def rand_init_def)
  then show ?thesis using next_rand_full_period [of "srand 7 rand_init" "srand 1 rand_init" "2 ^ 32"] by simp
qed

end
