(* ===== verification/Memory.thy ===== *)
theory Memory
  imports Target
begin

text \<open>
  The memory the C code runs on: one byte at each 64-bit address, with the loads and stores of
  \<open>size_t\<close>-sized words (little-endian, as on every target of the Makefile), and the reference
  copy and fill operations that the routines of \<open>memcpy.c\<close> are compared with.
\<close>

section \<open>Bytes and words\<close>

type_synonym mem = "addr \<Rightarrow> byte"

definition load64 :: "mem \<Rightarrow> addr \<Rightarrow> u64" where
  "load64 m a =
     ucast (m a) OR push_bit 8 (ucast (m (a + 1))) OR push_bit 16 (ucast (m (a + 2)))
     OR push_bit 24 (ucast (m (a + 3))) OR push_bit 32 (ucast (m (a + 4)))
     OR push_bit 40 (ucast (m (a + 5))) OR push_bit 48 (ucast (m (a + 6)))
     OR push_bit 56 (ucast (m (a + 7)))"

definition store64 :: "mem \<Rightarrow> addr \<Rightarrow> u64 \<Rightarrow> mem" where
  "store64 m a v =
     (\<lambda>x. if x - a < 8 then ucast (drop_bit (8 * unat (x - a)) v) else m x)"

definition bytes_at :: "mem \<Rightarrow> addr \<Rightarrow> nat \<Rightarrow> byte list" where
  "bytes_at m a n = map (\<lambda>i. m (a + of_nat i)) [0..<n]"

lemma length_bytes_at [simp]: "length (bytes_at m a n) = n"
  by (simp add: bytes_at_def)

lemma nth_bytes_at [simp]: "i < n \<Longrightarrow> bytes_at m a n ! i = m (a + of_nat i)"
  by (simp add: bytes_at_def)

lemma byte_bit_less: "bit (w :: byte) i \<Longrightarrow> i < 8"
  by (drule bit_imp_le_length) simp

lemma bit_load64:
  assumes "n < 64"
  shows "bit (load64 m a) n = bit (m (a + of_nat (n div 8))) (n mod 8)"
proof -
  define q r where "q = n div 8" and "r = n mod 8"
  have n: "n = 8 * q + r" "r < 8" "q < 8" using assms by (simp_all add: q_def r_def)
  have qc: "q = 0 \<or> q = 1 \<or> q = 2 \<or> q = 3 \<or> q = 4 \<or> q = 5 \<or> q = 6 \<or> q = 7" using n(3) by auto
  show ?thesis unfolding q_def[symmetric] r_def[symmetric] unfolding n(1)
    using qc n(2) 
    by (elim disjE) (auto simp: load64_def bit_or_iff bit_push_bit_iff bit_ucast_iff dest: byte_bit_less)
qed

text \<open>The byte a word store leaves behind, and a load that reads it back.\<close>

lemma store64_byte:
  "i < 8 \<Longrightarrow> store64 m a v (a + of_nat i) = ucast (drop_bit (8 * i) v)"
  by (simp add: store64_def word_less_nat_alt unat_of_nat_eq)

lemma load64_store64_same [simp]: "load64 (store64 m a v) a = v"
proof (rule bit_word_eqI)
  fix n assume "n < LENGTH(64)" then have n: "n < 64" "n div 8 < 8" by simp_all
  show "bit (load64 (store64 m a v) a) n = bit v n"
    unfolding bit_load64 [OF n(1)] store64_byte [OF n(2)]
    by (simp add: bit_ucast_iff bit_drop_bit_eq)
qed

lemma ucast_load64_byte:
  "i < 8 \<Longrightarrow> ucast (drop_bit (8 * i) (load64 m a)) = m (a + of_nat i)"
proof (rule bit_word_eqI)
  fix n assume i: "i < 8" and "n < LENGTH(8)" then have n: "n < 8" by simp
  have l: "8 * i + n < 64" "(8 * i + n) div 8 = i" "(8 * i + n) mod 8 = n" using i n by simp_all
  show "bit (ucast (drop_bit (8 * i) (load64 m a)) :: byte) n = bit (m (a + of_nat i)) n"
    using bit_load64 [OF l(1), of m a] n l by (simp add: bit_ucast_iff bit_drop_bit_eq)
qed

lemma load64_cong: "(\<And>i. i < 8 \<Longrightarrow> m (a + of_nat i) = m' (b + of_nat i)) \<Longrightarrow> load64 m a = load64 m' b"
  by (rule bit_word_eqI) (simp add: bit_load64)

lemma store64_other: "\<not> x - a < 8 \<Longrightarrow> store64 m a v x = m x"
  by (simp add: store64_def)

text \<open>Two words that do not overlap.\<close>

definition apart64 :: "addr \<Rightarrow> addr \<Rightarrow> bool" where
  "apart64 a b \<longleftrightarrow> unat a + 8 \<le> unat b \<or> unat b + 8 \<le> unat a"

lemma load64_store64_apart:
  assumes "apart64 a b" and "unat a + 8 \<le> 2 ^ 64" and "unat b + 8 \<le> 2 ^ 64"
  shows "load64 (store64 m a v) b = load64 m b"
proof (rule load64_cong)
  fix i :: nat assume i: "i < 8"
  have b: "unat (b + of_nat i) = unat b + i"
    using i assms(3) by (subst unat_add_fits) (simp_all add: unat_of_nat_eq)
  have "\<not> b + of_nat i - a < 8"
    using assms i by (auto simp: apart64_def word_less_nat_alt unat_sub_if' b)
  then show "store64 m a v (b + of_nat i) = m (b + of_nat i)" by (rule store64_other)
qed

section \<open>Reference copy and fill\<close>

text \<open>
  \<open>blit m d s n\<close> is the effect that \<open>include/string.h\<close> promises for \<open>memmove\<close>: as if the
  \<open>n\<close> bytes were first read into a temporary array.
\<close>

definition blit :: "mem \<Rightarrow> addr \<Rightarrow> addr \<Rightarrow> nat \<Rightarrow> mem" where
  "blit m d s n = (\<lambda>x. if unat (x - d) < n then m (s + (x - d)) else m x)"

definition fill :: "mem \<Rightarrow> addr \<Rightarrow> byte \<Rightarrow> nat \<Rightarrow> mem" where
  "fill m d c n = (\<lambda>x. if unat (x - d) < n then c else m x)"

text \<open>The offset of an address in a shifted block.\<close>

lemma unat_offset_shift:
  fixes x d :: addr
  assumes "k < 2 ^ 64"
  shows "unat (x - (d + of_nat k)) =
    (if k \<le> unat (x - d) then unat (x - d) - k else unat (x - d) + 2 ^ 64 - k)"
proof -
  have "x - (d + of_nat k) = (x - d) - of_nat k" by simp
  then show ?thesis using assms by (simp only: unat_sub_if') (simp add: unat_of_nat_eq)
qed

lemma blit_0 [simp]: "blit m d s 0 = m"
  by (simp add: blit_def)

lemma fill_0 [simp]: "fill m d c 0 = m"
  by (simp add: fill_def)

lemma blit_1: "blit m d s (Suc 0) = m(d := m s)"
  by (auto simp: blit_def fun_eq_iff unat_eq_zero)

lemma fill_1: "fill m d c (Suc 0) = m(d := c)"
  by (auto simp: fill_def fun_eq_iff unat_eq_zero)

lemma blit_8: "blit m d s 8 = store64 m d (load64 m s)"
proof
  fix x
  show "blit m d s 8 x = store64 m d (load64 m s) x"
    using ucast_load64_byte [of "unat (x - d)" m s]
    by (simp add: blit_def store64_def word_less_nat_alt)
qed

text \<open>
  Copying upwards is safe when the destination is not above the source inside it, copying
  downwards when it is not below the source inside it.
\<close>

definition up_safe :: "addr \<Rightarrow> addr \<Rightarrow> nat \<Rightarrow> bool" where
  "up_safe d s n \<longleftrightarrow> unat d + n < 2 ^ 64 \<and> unat s + n < 2 ^ 64
     \<and> (unat d \<le> unat s \<or> unat s + n \<le> unat d)"

definition down_safe :: "addr \<Rightarrow> addr \<Rightarrow> nat \<Rightarrow> bool" where
  "down_safe d s n \<longleftrightarrow> unat d + n < 2 ^ 64 \<and> unat s + n < 2 ^ 64
     \<and> (unat s \<le> unat d \<or> unat d + n \<le> unat s)"

lemma unat_add_of_nat: "unat a + n < 2 ^ 64 \<Longrightarrow> unat (a + of_nat n) = unat a + n"
  for a :: addr
  by (subst unat_add_fits) (simp_all add: unat_of_nat_eq)

lemma up_safe_drop: "up_safe d s n \<Longrightarrow> k \<le> n \<Longrightarrow> up_safe (d + of_nat k) (s + of_nat k) (n - k)"
  by (auto simp: up_safe_def unat_add_of_nat)

lemma up_safe_take: "up_safe d s n \<Longrightarrow> k \<le> n \<Longrightarrow> up_safe d s k"
  by (auto simp: up_safe_def)

lemma down_safe_drop: "down_safe d s n \<Longrightarrow> k \<le> n \<Longrightarrow> down_safe (d + of_nat k) (s + of_nat k) (n - k)"
  by (auto simp: down_safe_def unat_add_of_nat)

lemma down_safe_take: "down_safe d s n \<Longrightarrow> k \<le> n \<Longrightarrow> down_safe d s k"
  by (auto simp: down_safe_def)

lemma blit_up:
  assumes safe: "up_safe d s n" and k: "k \<le> n"
  shows "blit (blit m d s k) (d + of_nat k) (s + of_nat k) (n - k) = blit m d s n"
proof
  fix x
  have n: "n < 2 ^ 64" and kk: "k < 2 ^ 64" using safe k by (simp_all add: up_safe_def)
  define i where "i = unat (x - d)"
  have x: "x - d = of_nat i" by (simp add: i_def)
  then have ui: "unat (of_nat i :: addr) = i" by (simp add: i_def)
  have off: "unat (x - (d + of_nat k)) = (if k \<le> i then i - k else i + 2 ^ 64 - k)"
    using unat_offset_shift [OF kk, of x d] by (simp add: i_def)
  show "blit (blit m d s k) (d + of_nat k) (s + of_nat k) (n - k) x = blit m d s n x"
  proof (cases "k \<le> i \<and> i < n")
    case True
    have y: "s + of_nat k + (x - (d + of_nat k)) = s + of_nat i" by (simp flip: x)
    have "unat (s + of_nat i) = unat s + i"
      using safe True by (intro unat_add_of_nat) (simp add: up_safe_def)
    then have "k \<le> unat (s + of_nat i - d)"
      using safe True by (auto simp: unat_sub_if' up_safe_def)
    then show ?thesis using True off unfolding blit_def y by (simp add: x ui diff_less_mono)
  next
    case False
    then show ?thesis using k n off by (auto simp: blit_def simp flip: i_def)
  qed
qed

lemma blit_down:
  assumes safe: "down_safe d s n" and k: "k \<le> n"
  shows "blit (blit m (d + of_nat k) (s + of_nat k) (n - k)) d s k = blit m d s n"
proof
  fix x
  have n: "n < 2 ^ 64" and kk: "k < 2 ^ 64" using safe k by (simp_all add: down_safe_def)
  define i where "i = unat (x - d)"
  have x: "x - d = of_nat i" by (simp add: i_def)
  then have ui: "unat (of_nat i :: addr) = i" by (simp add: i_def)
  have off: "unat (x - (d + of_nat k)) = (if k \<le> i then i - k else i + 2 ^ 64 - k)"
    using unat_offset_shift [OF kk, of x d] by (simp add: i_def)
  show "blit (blit m (d + of_nat k) (s + of_nat k) (n - k)) d s k x = blit m d s n x"
  proof (cases "i < k")
    case True
    have "unat (s + of_nat i) = unat s + i"
      using safe True k by (intro unat_add_of_nat) (simp add: down_safe_def)
    then have "\<not> unat (s + of_nat i - (d + of_nat k)) < n - k"
      using safe True k unat_add_of_nat [of d k] by (auto simp: unat_sub_if' down_safe_def)
    then show ?thesis using True k unfolding blit_def by (simp add: x ui)
  next
    case False
    have y: "s + of_nat k + (x - (d + of_nat k)) = s + (x - d)" by simp
    show ?thesis using False k n off unfolding blit_def y by (auto simp flip: i_def)
  qed
qed

lemma fill_up:
  assumes "k \<le> n" and "n < 2 ^ 64"
  shows "fill (fill m d c k) (d + of_nat k) c (n - k) = fill m d c n"
proof
  fix x
  have kk: "k < 2 ^ 64" using assms by simp
  show "fill (fill m d c k) (d + of_nat k) c (n - k) x = fill m d c n x"
    using unat_offset_shift [OF kk, of x d] assms by (auto simp: fill_def)
qed

end
