(* ===== verification/MemCopy.thy ===== *)
theory MemCopy
  imports Memory
begin

text \<open>
  \<open>src/memcpy.c\<close>: \<open>memcpy\<close> in its portable and its x86_64 version, \<open>memset\<close>, \<open>memmove\<close> and
  the checked entry points.  A loop that might not end is a partial function whose value \<open>None\<close>
  is not returning; every correctness theorem states that \<open>Some\<close> result is returned.
\<close>

section \<open>The code\<close>

subsection \<open>memcpy\<close>

text \<open>\<open>while (d < head) *(d++) = *(s++)\<close>, on bytes and on words.\<close>

partial_function (option) copy_up ::
  "mem \<Rightarrow> addr \<Rightarrow> addr \<Rightarrow> addr \<Rightarrow> (mem \<times> addr \<times> addr) option" where
  "copy_up m d s head =
     (if d < head then copy_up (m(d := m s)) (d + 1) (s + 1) head else Some (m, d, s))"

declare copy_up.simps [code]

partial_function (option) copy_up_words ::
  "mem \<Rightarrow> addr \<Rightarrow> addr \<Rightarrow> addr \<Rightarrow> (mem \<times> addr \<times> addr) option" where
  "copy_up_words m dw sw body =
     (if dw < body then copy_up_words (store64 m dw (load64 m sw)) (dw + 8) (sw + 8) body
      else Some (m, dw, sw))"

declare copy_up_words.simps [code]

definition memcpy_c :: "mem \<Rightarrow> addr \<Rightarrow> addr \<Rightarrow> u64 \<Rightarrow> (mem \<times> addr) option" where
  "memcpy_c m dest src len =
     (let d = dest;
          s = src;
          mask = 7;
          tail = dest + len;
          head = tail
      in if dest = src \<or> len = 0 then Some (m, dest)
         else
           let body = tail AND NOT mask;
               head = (if d AND mask = s AND mask \<and> (d + mask) AND NOT mask \<le> tail
                       then (d + mask) AND NOT mask else head)
           in do {
                (m, d, s) \<leftarrow> copy_up m d s head;
                (m, dw, sw) \<leftarrow> copy_up_words m d s body;
                (m, d, s) \<leftarrow> copy_up m dw sw tail;
                Some (m, dest)
              })"

text \<open>
  The x86_64 version is one \<open>rep movsb\<close>: while \<open>rcx\<close> is not zero, move a byte from \<open>rsi\<close> to
  \<open>rdi\<close>, increment both (the ABI keeps the direction flag clear) and decrement \<open>rcx\<close>.
\<close>

function rep_movsb :: "mem \<Rightarrow> addr \<Rightarrow> addr \<Rightarrow> u64 \<Rightarrow> mem" where
  "rep_movsb m rdi rsi rcx =
     (if rcx = 0 then m else rep_movsb (m(rdi := m rsi)) (rdi + 1) (rsi + 1) (rcx - 1))"
  by pat_completeness auto
termination
  by (relation "measure (\<lambda>(m, rdi, rsi, rcx). unat rcx)") (auto simp: unat_sub_fits unat_gt_0 Suc_leI)

declare rep_movsb.simps [simp del]

definition memcpy_x86 :: "mem \<Rightarrow> addr \<Rightarrow> addr \<Rightarrow> u64 \<Rightarrow> (mem \<times> addr) option" where
  "memcpy_x86 m dest src len = Some (rep_movsb m dest src len, dest)"

definition memcpy :: "target \<Rightarrow> mem \<Rightarrow> addr \<Rightarrow> addr \<Rightarrow> u64 \<Rightarrow> (mem \<times> addr) option" where
  "memcpy t = (if arch_x86_64 t then memcpy_x86 else memcpy_c)"

subsection \<open>memset\<close>

partial_function (option) set_up :: "mem \<Rightarrow> addr \<Rightarrow> byte \<Rightarrow> addr \<Rightarrow> (mem \<times> addr) option" where
  "set_up m d c head = (if d < head then set_up (m(d := c)) (d + 1) c head else Some (m, d))"

declare set_up.simps [code]

partial_function (option) set_up_words ::
  "mem \<Rightarrow> addr \<Rightarrow> u64 \<Rightarrow> addr \<Rightarrow> (mem \<times> addr) option" where
  "set_up_words m dw cccc body =
     (if dw < body then set_up_words (store64 m dw cccc) (dw + 8) cccc body else Some (m, dw))"

declare set_up_words.simps [code]

definition memset :: "mem \<Rightarrow> addr \<Rightarrow> u32 \<Rightarrow> u64 \<Rightarrow> (mem \<times> addr) option" where
  "memset m dest c len =
     (let d = dest;
          cccc = ucast (c AND 0xff) :: u64;
          tail = dest + len;
          head = tail;
          mask = 7;
          body = tail AND NOT mask;
          cccc = cccc * 0x0101010101010101;
          head = (if (d + mask) AND NOT mask \<le> tail then (d + mask) AND NOT mask else head)
      in do {
           (m, d) \<leftarrow> set_up m d (ucast c) head;
           (m, dw) \<leftarrow> set_up_words m d cccc body;
           (m, d) \<leftarrow> set_up m dw (ucast c) tail;
           Some (m, dest)
         })"

subsection \<open>memmove\<close>

text \<open>\<open>while (d > head) *(--d) = *(--s)\<close>, on bytes and on words.\<close>

partial_function (option) copy_down ::
  "mem \<Rightarrow> addr \<Rightarrow> addr \<Rightarrow> addr \<Rightarrow> (mem \<times> addr \<times> addr) option" where
  "copy_down m d s head =
     (if head < d then copy_down (m(d - 1 := m (s - 1))) (d - 1) (s - 1) head
      else Some (m, d, s))"

declare copy_down.simps [code]

partial_function (option) copy_down_words ::
  "mem \<Rightarrow> addr \<Rightarrow> addr \<Rightarrow> addr \<Rightarrow> (mem \<times> addr \<times> addr) option" where
  "copy_down_words m dw sw body =
     (if body < dw
      then copy_down_words (store64 m (dw - 8) (load64 m (sw - 8))) (dw - 8) (sw - 8) body
      else Some (m, dw, sw))"

declare copy_down_words.simps [code]

definition memmove :: "target \<Rightarrow> mem \<Rightarrow> addr \<Rightarrow> addr \<Rightarrow> u64 \<Rightarrow> (mem \<times> addr) option" where
  "memmove t m dest src len =
     (if dest \<le> src \<or> src + len \<le> dest then memcpy t m dest src len
      else
        let d = dest + len;
            s = src + len;
            mask = 7;
            tail = dest;
            head = tail;
            body = (tail + mask) AND NOT mask;
            head = (if d AND mask = s AND mask \<and> d AND NOT mask < tail
                    then d AND NOT mask else head)
        in do {
             (m, d, s) \<leftarrow> copy_down m d s head;
             (m, dw, sw) \<leftarrow> copy_down_words m d s body;
             (m, d, s) \<leftarrow> copy_down m dw sw tail;
             Some (m, dest)
           })"

subsection \<open>Checked entry points\<close>

text \<open>\<open>__chk_fail\<close> traps; a weak symbol, so a program may replace it.\<close>

definition memcpy_chk ::
  "target \<Rightarrow> mem \<Rightarrow> addr \<Rightarrow> addr \<Rightarrow> u64 \<Rightarrow> u64 \<Rightarrow> (mem \<times> addr) res option" where
  "memcpy_chk t m dest src len destlen =
     (if destlen < len then Some (Inl Trap) else map_option Inr (memcpy t m dest src len))"

definition memset_chk :: "mem \<Rightarrow> addr \<Rightarrow> u32 \<Rightarrow> u64 \<Rightarrow> u64 \<Rightarrow> (mem \<times> addr) res option" where
  "memset_chk m dest c len destlen =
     (if destlen < len then Some (Inl Trap) else map_option Inr (memset m dest c len))"

definition memmove_chk ::
  "target \<Rightarrow> mem \<Rightarrow> addr \<Rightarrow> addr \<Rightarrow> u64 \<Rightarrow> u64 \<Rightarrow> (mem \<times> addr) res option" where
  "memmove_chk t m dest src len destlen =
     (if destlen < len then Some (Inl Trap) else map_option Inr (memmove t m dest src len))"

section \<open>Masks\<close>

text \<open>The simplifier writes the mask \<open>NOT 7\<close> as \<open>- 8\<close>.\<close>

lemma align_down_push: "a AND - 8 = push_bit 3 (drop_bit 3 a)"
  for a :: addr
proof -
  have "a AND NOT (mask 3) = push_bit 3 (drop_bit 3 a)"
    by (intro bit_word_eqI)
      (auto simp: bit_and_iff bit_not_iff bit_mask_iff bit_push_bit_iff bit_drop_bit_eq)
  then show ?thesis by (simp add: mask_eq_exp_minus_1)
qed

lemma unat_align_down: "unat (a AND - 8) = unat a div 8 * 8"
  for a :: addr
proof -
  have "unat a div 2 ^ 3 * 2 ^ 3 < 2 ^ LENGTH(64)"
    by (rule le_less_trans [OF div_times_less_eq_dividend unat_less_exp])
  then have "unat (push_bit 3 (drop_bit 3 a)) = unat a div 2 ^ 3 * 2 ^ 3"
    by (subst unat_push_bit_fits) (simp_all only: unat_drop_bit_div)
  then show ?thesis by (simp add: align_down_push)
qed

lemma unat_align_up:
  "unat ((a + 7) AND - 8) = (if unat a + 7 < 2 ^ 64 then (unat a + 7) div 8 * 8 else 0)"
  for a :: addr
proof (cases "unat a + 7 < 2 ^ 64")
  case True
  then have "unat (a + 7) = unat a + 7" by (subst unat_add_fits) simp_all
  with True show ?thesis by (simp add: unat_align_down)
next
  case False
  then have "unat (a + 7) = unat a + 7 - 2 ^ 64" by (simp add: unat_plus_if')
  then have "unat (a + 7) < 8" using unat_less_exp [of a] by simp
  with False show ?thesis by (simp add: unat_align_down)
qed

section \<open>The loops\<close>

lemma copy_up_stop: "\<not> d < head \<Longrightarrow> copy_up m d s head = Some (m, d, s)"
  by (simp add: copy_up.simps)

lemma copy_up_words_stop: "\<not> d < body \<Longrightarrow> copy_up_words m d s body = Some (m, d, s)"
  by (simp add: copy_up_words.simps)

lemma copy_up_blit:
  "up_safe d s n \<Longrightarrow>
    copy_up m d s (d + of_nat n) = Some (blit m d s n, d + of_nat n, s + of_nat n)"
proof (induction n arbitrary: m d s)
  case 0
  then show ?case by (simp add: copy_up_stop)
next
  case (Suc n)
  have less: "d < d + of_nat (Suc n)"
    using Suc.prems unat_add_of_nat [of d "Suc n"] by (simp add: word_less_nat_alt up_safe_def)
  have eq: "d + of_nat (Suc n) = (d + 1) + of_nat n" "s + of_nat (Suc n) = (s + 1) + of_nat n"
    by simp_all
  have "up_safe (d + 1) (s + 1) n" using up_safe_drop [OF Suc.prems, of 1] by simp
  then have "copy_up (m(d := m s)) (d + 1) (s + 1) (d + of_nat (Suc n)) =
      Some (blit (m(d := m s)) (d + 1) (s + 1) n, d + of_nat (Suc n), s + of_nat (Suc n))"
    unfolding eq by (rule Suc.IH)
  moreover have "blit (m(d := m s)) (d + 1) (s + 1) n = blit m d s (Suc n)"
    using blit_up [OF Suc.prems, of 1 m] by (simp add: blit_1)
  ultimately show ?case using less by (subst copy_up.simps) simp
qed

lemma copy_up_words_blit:
  "up_safe d s (8 * n) \<Longrightarrow>
    copy_up_words m d s (d + of_nat (8 * n)) =
      Some (blit m d s (8 * n), d + of_nat (8 * n), s + of_nat (8 * n))"
proof (induction n arbitrary: m d s)
  case 0
  then show ?case by (simp add: copy_up_words_stop)
next
  case (Suc n)
  have less: "d < d + of_nat (8 * Suc n)"
    using Suc.prems unat_add_of_nat [of d "8 * Suc n"] by (simp add: word_less_nat_alt up_safe_def)
  have eq: "d + of_nat (8 * Suc n) = (d + 8) + of_nat (8 * n)"
      "s + of_nat (8 * Suc n) = (s + 8) + of_nat (8 * n)"
    by simp_all
  have "up_safe (d + 8) (s + 8) (8 * n)" using up_safe_drop [OF Suc.prems, of 8] by simp
  then have "copy_up_words (store64 m d (load64 m s)) (d + 8) (s + 8) (d + of_nat (8 * Suc n)) =
      Some (blit (store64 m d (load64 m s)) (d + 8) (s + 8) (8 * n),
        d + of_nat (8 * Suc n), s + of_nat (8 * Suc n))"
    unfolding eq by (rule Suc.IH)
  moreover have "blit (store64 m d (load64 m s)) (d + 8) (s + 8) (8 * n) = blit m d s (8 * Suc n)"
    using blit_up [OF Suc.prems, of 8 m] by (simp add: blit_8)
  ultimately show ?case using less by (subst copy_up_words.simps) simp
qed

lemma set_up_stop: "\<not> d < head \<Longrightarrow> set_up m d c head = Some (m, d)"
  by (simp add: set_up.simps)

lemma set_up_words_stop: "\<not> d < body \<Longrightarrow> set_up_words m d c body = Some (m, d)"
  by (simp add: set_up_words.simps)

lemma set_up_fill:
  "unat d + n < 2 ^ 64 \<Longrightarrow> set_up m d c (d + of_nat n) = Some (fill m d c n, d + of_nat n)"
proof (induction n arbitrary: m d)
  case 0
  then show ?case by (simp add: set_up_stop)
next
  case (Suc n)
  have less: "d < d + of_nat (Suc n)"
    using Suc.prems unat_add_of_nat [of d "Suc n"] by (simp add: word_less_nat_alt)
  have eq: "d + of_nat (Suc n) = (d + 1) + of_nat n" by simp
  have "unat (d + 1) + n < 2 ^ 64" using Suc.prems unat_add_of_nat [of d 1] by simp
  then have "set_up (m(d := c)) (d + 1) c (d + of_nat (Suc n)) =
      Some (fill (m(d := c)) (d + 1) c n, d + of_nat (Suc n))"
    unfolding eq by (rule Suc.IH)
  moreover have "fill (m(d := c)) (d + 1) c n = fill m d c (Suc n)"
    using fill_up [of 1 "Suc n" m d c] Suc.prems by (simp add: fill_1)
  ultimately show ?case using less by (subst set_up.simps) simp
qed

lemma set_up_words_fill:
  assumes "\<And>m d. store64 m d w = fill m d c 8"
  shows "unat d + 8 * n < 2 ^ 64 \<Longrightarrow>
    set_up_words m d w (d + of_nat (8 * n)) = Some (fill m d c (8 * n), d + of_nat (8 * n))"
proof (induction n arbitrary: m d)
  case 0
  then show ?case by (simp add: set_up_words_stop)
next
  case (Suc n)
  have less: "d < d + of_nat (8 * Suc n)"
    using Suc.prems unat_add_of_nat [of d "8 * Suc n"] by (simp add: word_less_nat_alt)
  have eq: "d + of_nat (8 * Suc n) = (d + 8) + of_nat (8 * n)" by simp
  have "unat (d + 8) + 8 * n < 2 ^ 64" using Suc.prems unat_add_of_nat [of d 8] by simp
  then have "set_up_words (fill m d c 8) (d + 8) w (d + of_nat (8 * Suc n)) =
      Some (fill (fill m d c 8) (d + 8) c (8 * n), d + of_nat (8 * Suc n))"
    unfolding eq by (rule Suc.IH)
  moreover have "fill (fill m d c 8) (d + 8) c (8 * n) = fill m d c (8 * Suc n)"
    using fill_up [of 8 "8 * Suc n" m d c] Suc.prems by simp
  ultimately show ?case using less by (subst set_up_words.simps) (simp add: assms)
qed

lemma copy_down_stop: "\<not> head < d \<Longrightarrow> copy_down m d s head = Some (m, d, s)"
  by (simp add: copy_down.simps)

lemma copy_down_blit:
  "down_safe d s n \<Longrightarrow> copy_down m (d + of_nat n) (s + of_nat n) d = Some (blit m d s n, d, s)"
proof (induction n arbitrary: m)
  case 0
  then show ?case by (simp add: copy_down_stop)
next
  case (Suc n)
  have less: "d < d + of_nat (Suc n)"
    using Suc.prems unat_add_of_nat [of d "Suc n"] by (simp add: word_less_nat_alt down_safe_def)
  have eq: "d + of_nat (Suc n) - 1 = d + of_nat n" "s + of_nat (Suc n) - 1 = s + of_nat n"
    by simp_all
  let ?m = "m(d + of_nat n := m (s + of_nat n))"
  have "down_safe d s n" using down_safe_take [OF Suc.prems, of n] by simp
  then have "copy_down ?m (d + of_nat n) (s + of_nat n) d = Some (blit ?m d s n, d, s)"
    by (rule Suc.IH)
  moreover have "blit ?m d s n = blit m d s (Suc n)"
    using blit_down [OF Suc.prems, of n m] by (simp add: blit_1)
  ultimately show ?case using less by (subst copy_down.simps) (simp only: eq if_True)
qed

section \<open>memcpy\<close>

text \<open>
  The three loops in sequence: up to \<open>head\<close>, in words up to \<open>body\<close>, up to \<open>tail\<close>.  A bound that
  is not above the current position ends its loop at once.
\<close>

lemma copy_phases:
  assumes safe: "up_safe dest src n" and le: "k + 8 * w \<le> n"
    and head: "head = dest + of_nat k \<or> (k = 0 \<and> \<not> dest < head)"
    and body: "body = dest + of_nat (k + 8 * w) \<or> (w = 0 \<and> \<not> dest + of_nat k < body)"
  shows "do {
      (m, d, s) \<leftarrow> copy_up m dest src head;
      (m, dw, sw) \<leftarrow> copy_up_words m d s body;
      (m, d, s) \<leftarrow> copy_up m dw sw (dest + of_nat n);
      Some (m, dest)
    } = Some (blit m dest src n, dest)"
proof -
  let ?k = "of_nat k :: addr" and ?j = "of_nat (k + 8 * w) :: addr"
  have 1: "copy_up m dest src head = Some (blit m dest src k, dest + ?k, src + ?k)"
  proof (cases "head = dest + ?k")
    case True
    then show ?thesis using copy_up_blit [OF up_safe_take [OF safe, of k]] le by simp
  next
    case False
    then show ?thesis using head by (simp add: copy_up_stop)
  qed
  have safe2: "up_safe (dest + ?k) (src + ?k) (8 * w)"
    using up_safe_take [OF up_safe_drop [OF safe, of k], of "8 * w"] le by simp
  have e: "dest + ?j = (dest + ?k) + of_nat (8 * w)" "src + ?j = (src + ?k) + of_nat (8 * w)"
    by simp_all
  have 2: "copy_up_words (blit m dest src k) (dest + ?k) (src + ?k) body
      = Some (blit m dest src (k + 8 * w), dest + ?j, src + ?j)"
  proof (cases "body = dest + ?j")
    case True
    then have "copy_up_words (blit m dest src k) (dest + ?k) (src + ?k) body
      = Some (blit (blit m dest src k) (dest + ?k) (src + ?k) (8 * w), dest + ?j, src + ?j)"
      unfolding True e by (intro copy_up_words_blit safe2)
    moreover have "blit (blit m dest src k) (dest + ?k) (src + ?k) (8 * w) = blit m dest src (k + 8 * w)"
      using blit_up [OF up_safe_take [OF safe le], of k m] by simp
    ultimately show ?thesis by simp
  next
    case False
    then show ?thesis using body by (simp add: copy_up_words_stop)
  qed
  have safe3: "up_safe (dest + ?j) (src + ?j) (n - (k + 8 * w))" by (rule up_safe_drop [OF safe le])
  have "(of_nat n :: addr) = ?j + of_nat (n - (k + 8 * w))"
    using le by (simp only: of_nat_add [symmetric] le_add_diff_inverse)
  then have e3: "dest + of_nat n = (dest + ?j) + of_nat (n - (k + 8 * w))" by (simp only: add.assoc)
  have 3: "copy_up (blit m dest src (k + 8 * w)) (dest + ?j) (src + ?j) (dest + of_nat n)
      = Some (blit m dest src n, dest + of_nat n, src + ?j + of_nat (n - (k + 8 * w)))"
    unfolding e3 copy_up_blit [OF safe3] blit_up [OF safe le] ..
  show ?thesis by (simp only: 1 2 3 bind.bind_lunit split)
qed

lemma blit_self: "blit m d d n = m"
  by (simp add: blit_def fun_eq_iff)

text \<open>
  The bounds the code computes are such bounds: \<open>head\<close> is the tail or the first word boundary,
  \<open>body\<close> the last one.  Where rounding up wraps around, both loops end at once.
\<close>

lemma phase_bounds:
  fixes dest :: addr
  assumes T: "unat dest + n < 2 ^ 64"
  defines "tail \<equiv> dest + of_nat n" and "up \<equiv> (dest + 7) AND - 8"
  assumes c: "c \<Longrightarrow> up \<le> tail"
  shows "\<exists>k w. k + 8 * w \<le> n
    \<and> ((if c then up else tail) = dest + of_nat k \<or> (k = 0 \<and> \<not> dest < (if c then up else tail)))
    \<and> (tail AND - 8 = dest + of_nat (k + 8 * w) \<or> (w = 0 \<and> \<not> dest + of_nat k < tail AND - 8))"
proof -
  let ?D = "unat dest" and ?T = "unat dest + n"
  have tail: "unat tail = ?T" unfolding tail_def by (rule unat_add_of_nat [OF T])
  have body: "unat (tail AND - 8) = ?T div 8 * 8" by (simp only: unat_align_down tail)
  have up: "unat up = (if ?D + 7 < 2 ^ 64 then (?D + 7) div 8 * 8 else 0)"
    by (simp only: up_def unat_align_up)
  show ?thesis
  proof (cases c)
    case False
    have "\<not> tail < tail AND - 8" using body tail by (simp add: word_less_nat_alt)
    with False show ?thesis by (intro exI [of _ n] exI [of _ 0]) (simp add: tail_def)
  next
    case True
    show ?thesis
    proof (cases "?D + 7 < 2 ^ 64")
      case False
      then have "\<not> dest < up" using up by (simp add: word_less_nat_alt)
      moreover have "?T div 8 < 2 ^ 61" using T by simp
      then have "\<not> dest < tail AND - 8"
        using False body by (simp add: word_less_nat_alt)
      ultimately show ?thesis using True by (intro exI [of _ 0]) simp
    next
      case nowrap: True
      let ?h = "(?D + 7) div 8 * 8" and ?b = "?T div 8 * 8"
      have h: "?D \<le> ?h" "?h \<le> ?T"
        using c [OF True] nowrap up tail by (simp_all add: word_le_nat_alt)
      then have hb: "?h \<le> ?b" by (simp add: div_le_mono flip: less_eq_div_iff_mult_less_eq)
      obtain k where k: "?h = ?D + k" using h(1) le_Suc_ex by blast
      define w where "w = ?T div 8 - (?D + 7) div 8"
      have b: "?b = ?h + 8 * w" using hb by (simp add: w_def diff_mult_distrib2)
      have bn: "?b \<le> ?T" by simp
      have kn: "k + 8 * w \<le> n" using b k bn by simp
      have "unat (dest + of_nat k) = ?h" using k kn T by (subst unat_add_of_nat) simp_all
      then have "up = dest + of_nat k" using nowrap up by (simp add: word_unat_eq_iff)
      moreover have "unat (dest + of_nat (k + 8 * w)) = ?b"
        using b k kn T by (subst unat_add_of_nat) simp_all
      then have "tail AND - 8 = dest + of_nat (k + 8 * w)"
        using body by (simp only: word_unat_eq_iff)
      ultimately show ?thesis using kn True by auto
    qed
  qed
qed

lemma memcpy_c_blit:
  assumes safe: "up_safe dest src (unat len)"
  shows "memcpy_c m dest src len = Some (blit m dest src (unat len), dest)"
proof (cases "dest = src \<or> len = 0")
  case True
  then show ?thesis by (auto simp: memcpy_c_def blit_self)
next
  case False
  define n where "n = unat len"
  have safe': "up_safe dest src n" using safe by (simp add: n_def)
  then have T: "unat dest + n < 2 ^ 64" by (simp add: up_safe_def)
  define c where "c \<longleftrightarrow> dest AND 7 = src AND 7 \<and> ((dest + 7) AND - 8) \<le> dest + of_nat n"
  let ?head = "if c then (dest + 7) AND - 8 else dest + of_nat n"
  obtain k w where kw: "k + 8 * w \<le> n" "?head = dest + of_nat k \<or> (k = 0 \<and> \<not> dest < ?head)"
      "dest + of_nat n AND - 8 = dest + of_nat (k + 8 * w)
        \<or> (w = 0 \<and> \<not> dest + of_nat k < dest + of_nat n AND - 8)"
    using phase_bounds [OF T, of c] by (auto simp: c_def)
  have "memcpy_c m dest src len = do {
      (m, d, s) \<leftarrow> copy_up m dest src ?head;
      (m, dw, sw) \<leftarrow> copy_up_words m d s (dest + of_nat n AND - 8);
      (m, d, s) \<leftarrow> copy_up m dw sw (dest + of_nat n);
      Some (m, dest)
    }"
    using False by (simp add: memcpy_c_def Let_def c_def n_def)
  then show ?thesis using copy_phases [OF safe' kw] by (simp only: n_def)
qed

lemma rep_movsb_blit:
  "up_safe d s n \<Longrightarrow> rep_movsb m d s (of_nat n) = blit m d s n"
proof (induction n arbitrary: m d s)
  case 0
  then show ?case by (simp add: rep_movsb.simps)
next
  case (Suc n)
  have "Suc n < 2 ^ 64" using Suc.prems by (simp add: up_safe_def)
  then have "unat (of_nat (Suc n) :: u64) = Suc n" by (intro unat_of_nat_eq) simp
  then have "(of_nat (Suc n) :: u64) \<noteq> 0" by (metis unat_0 nat.distinct(1))
  moreover have "(of_nat (Suc n) :: u64) - 1 = of_nat n" by simp
  ultimately have "rep_movsb m d s (of_nat (Suc n)) = rep_movsb (m(d := m s)) (d + 1) (s + 1) (of_nat n)"
    by (subst rep_movsb.simps) (simp only: if_False)
  also have "\<dots> = blit (m(d := m s)) (d + 1) (s + 1) n"
    using up_safe_drop [OF Suc.prems, of 1] by (intro Suc.IH) simp
  also have "\<dots> = blit m d s (Suc n)"
    using blit_up [OF Suc.prems, of 1 m] by (simp add: blit_1)
  finally show ?case .
qed

lemma memcpy_x86_blit:
  assumes "up_safe dest src (unat len)"
  shows "memcpy_x86 m dest src len = Some (blit m dest src (unat len), dest)"
  using rep_movsb_blit [OF assms, of m] by (simp add: memcpy_x86_def)

text \<open>
  The contract \<open>memmove\<close> and the allocator rely on: a forward copy, correct also for overlapping
  blocks when the destination is not above the source.
\<close>

locale forward_copy =
  fixes cpy :: "mem \<Rightarrow> addr \<Rightarrow> addr \<Rightarrow> u64 \<Rightarrow> (mem \<times> addr) option"
  assumes forward: "up_safe dest src (unat len) \<Longrightarrow>
    cpy m dest src len = Some (blit m dest src (unat len), dest)"
begin

lemma forward_bytes:
  assumes "up_safe dest src (unat len)" and "cpy m dest src len = Some (m', p)"
  shows "bytes_at m' dest (unat len) = bytes_at m src (unat len)" and "p = dest"
proof -
  have m': "m' = blit m dest src (unat len)" and "p = dest" using assms forward by auto
  show "p = dest" by fact
  show "bytes_at m' dest (unat len) = bytes_at m src (unat len)"
    unfolding m' bytes_at_def
    by (rule map_cong) (auto simp: blit_def unat_of_nat_below)
qed

lemma forward_frame:
  assumes "up_safe dest src (unat len)" and "cpy m dest src len = Some (m', p)"
    and "\<not> unat (x - dest) < unat len"
  shows "m' x = m x"
  using assms forward by (auto simp: blit_def)

end

interpretation portable: forward_copy memcpy_c
  by unfold_locales (rule memcpy_c_blit)

interpretation x86: forward_copy memcpy_x86
  by unfold_locales (rule memcpy_x86_blit)

lemma forward_copy_memcpy: "forward_copy (memcpy t)"
  by (cases "arch_x86_64 t")
    (simp_all only: memcpy_def if_True if_False x86.forward_copy_axioms portable.forward_copy_axioms)

interpretation target_copy: forward_copy "memcpy t" for t
  by (rule forward_copy_memcpy)

text \<open>
  C11. \<open>memcpy\<close>, word loops or \<open>rep movsb\<close>, returns and copies exactly \<open>len\<close> bytes between two blocks
  that do not overlap or are the same: whatever their alignment, the destination block holds the old
  bytes of the source block, no other byte changes, and the result is the destination.
\<close>

theorem memcpy_copies:
  assumes "unat dest + unat len < 2 ^ 64" and "unat src + unat len < 2 ^ 64"
    and "unat dest + unat len \<le> unat src \<or> unat src + unat len \<le> unat dest \<or> dest = src"
  shows "memcpy t m dest src len =
    Some (\<lambda>x. if unat (x - dest) < unat len then m (src + (x - dest)) else m x, dest)"
proof -
  have "up_safe dest src (unat len)" using assms by (auto simp: up_safe_def)
  from target_copy.forward [OF this, of t m] show ?thesis by (simp add: blit_def)
qed

lemma memcpy_copies_witness:
  "memcpy aarch64_target (\<lambda>x. ucast x) 0x2003 0x1003 30 =
    Some (\<lambda>x. if unat (x - 0x2003) < unat (30 :: u64) then ucast (0x1003 + (x - 0x2003))
       else ucast x, 0x2003)"
  by (rule memcpy_copies) simp_all

text \<open>
  C24. The portable word-wise \<open>memcpy\<close> and the x86_64 \<open>rep movsb\<close> are the same operation on
  every pair of blocks on which either of them is used, overlapping ones with the destination
  below the source included.
\<close>

theorem memcpy_versions_agree:
  assumes "up_safe dest src (unat len)"
  shows "memcpy_c m dest src len = memcpy_x86 m dest src len"
  using portable.forward [OF assms] x86.forward [OF assms] by simp

lemma memcpy_versions_agree_witness:
  "memcpy_c (\<lambda>x. ucast x) 0x1000 0x1008 100 = memcpy_x86 (\<lambda>x. ucast x) 0x1000 0x1008 100"
  by (rule memcpy_versions_agree) (simp add: up_safe_def)

section \<open>memmove\<close>

text \<open>
  On overlapping blocks with the destination above the source, the condition for copying by words
  can not hold: \<open>head\<close> is always \<open>tail\<close> and the whole block is copied byte by byte.
\<close>

lemma memmove_never_words:
  fixes dest src :: addr
  assumes n: "unat src + n < 2 ^ 64" "unat dest + n < 2 ^ 64"
    and overlap: "unat src < unat dest" "unat dest < unat src + n"
    and aligned: "(dest + of_nat n) AND 7 = (src + of_nat n) AND 7"
  shows "\<not> ((dest + of_nat n) AND - 8) < dest"
proof
  let ?d = "unat dest" and ?s = "unat src"
  assume "((dest + of_nat n) AND - 8) < dest"
  then have lt: "(?d + n) div 8 * 8 < ?d"
    using n by (simp add: word_less_nat_alt unat_align_down unat_add_of_nat)
  have m: "unat (a AND 7) = unat a mod 8" for a :: addr
    using unat_and_mask [of a 3] by (simp add: mask_eq_exp_minus_1)
  have "(?d + n) mod 8 = (?s + n) mod 8"
    using arg_cong [OF aligned, of unat] n by (simp add: m unat_add_of_nat)
  then have "8 dvd (?d + n) - (?s + n)" using overlap by (subst (asm) mod_eq_dvd_iff_nat) simp_all
  then have "8 dvd ?d - ?s" by simp
  then have "8 \<le> ?d - ?s" using overlap by (intro dvd_imp_le) simp_all
  then have "8 < n" using overlap by simp
  with lt show False by simp
qed

lemma memmove_blit:
  assumes d: "unat dest + unat len < 2 ^ 64" and s: "unat src + unat len < 2 ^ 64"
    and top: "unat dest + 7 < 2 ^ 64"
  shows "memmove t m dest src len = Some (blit m dest src (unat len), dest)"
proof -
  define n where "n = unat len"
  have len: "len = of_nat n" by (simp add: n_def)
  have send: "unat (src + len) = unat src + n" unfolding len
    using s by (intro unat_add_of_nat) (simp add: n_def)
  show ?thesis
  proof (cases "dest \<le> src \<or> src + len \<le> dest")
    case True
    then have "up_safe dest src (unat len)"
      using d s send by (auto simp: up_safe_def word_le_nat_alt n_def)
    then show ?thesis using True target_copy.forward by (simp add: memmove_def)
  next
    case False
    then have overlap: "unat src < unat dest" "unat dest < unat src + n"
      using send by (simp_all add: word_le_nat_alt)
    have "\<not> ((dest + len) AND 7 = (src + len) AND 7 \<and> ((dest + len) AND - 8) < dest)"
      using memmove_never_words [OF _ _ overlap] d s by (simp add: n_def)
    then have "memmove t m dest src len = do {
        (m, d, s) \<leftarrow> copy_down m (dest + len) (src + len) dest;
        (m, dw, sw) \<leftarrow> copy_down_words m d s ((dest + 7) AND - 8);
        (m, d, s) \<leftarrow> copy_down m dw sw dest;
        Some (m, dest)
      }"
      using False by (auto simp: memmove_def Let_def)
    moreover have safe: "down_safe dest src n"
      using d s overlap by (simp add: down_safe_def n_def)
    moreover have "copy_down_words m' dest src ((dest + 7) AND - 8) = Some (m', dest, src)" for m'
    proof -
      have "unat dest \<le> (unat dest + 7) div 8 * 8" by simp
      then have "unat dest \<le> unat ((dest + 7) AND - 8)"
        using top by (simp only: unat_align_up if_True)
      then show ?thesis
        by (subst copy_down_words.simps) (simp add: word_less_nat_alt)
    qed
    ultimately show ?thesis
      using copy_down_blit [OF safe, of m] by (simp add: copy_down_stop n_def)
  qed
qed

text \<open>
  C12. \<open>memmove\<close> returns and copies as if through a temporary array, for every pair of blocks,
  overlapping or not; it returns the destination and leaves every other byte unchanged.  The
  destination must not start in the last seven bytes of the address space, where the rounding
  of \<open>body\<close> wraps.
\<close>

theorem memmove_copies:
  assumes "unat dest + unat len < 2 ^ 64" and "unat src + unat len < 2 ^ 64"
    and "unat dest + 7 < 2 ^ 64"
  shows "memmove t m dest src len =
    Some (\<lambda>x. if unat (x - dest) < unat len then m (src + (x - dest)) else m x, dest)"
  using memmove_blit [OF assms, of t m] by (simp add: blit_def)

lemma memmove_copies_witness:
  "memmove x86_64_target (\<lambda>x. ucast x) 0x1008 0x1000 30 =
    Some (\<lambda>x. if unat (x - 0x1008) < unat (30 :: u64) then ucast (0x1000 + (x - 0x1008))
       else ucast x, 0x1008)"
  by (rule memmove_copies) simp_all

text \<open>
  On overlapping blocks with the destination above the source, \<open>memmove\<close> is the byte loop
  alone: the word loop of that branch is never used, whatever the alignment.
\<close>

theorem memmove_overlap_bytewise:
  assumes d: "unat dest + unat len < 2 ^ 64" and s: "unat src + unat len < 2 ^ 64"
    and top: "unat dest + 7 < 2 ^ 64"
    and overlap: "src < dest" "dest < src + len"
  shows "memmove t m dest src len =
    map_option (\<lambda>(m, d, s). (m, dest)) (copy_down m (dest + len) (src + len) dest)"
proof -
  have "unat (src + len) = unat src + unat len" using s by (simp add: unat_add_fits)
  then have "down_safe dest src (unat len)"
    using d s overlap by (simp add: down_safe_def word_less_nat_alt)
  from copy_down_blit [OF this, of m] show ?thesis
    by (simp add: memmove_blit [OF d s top])
qed

lemma memmove_overlap_bytewise_witness:
  "memmove aarch64_target (\<lambda>x. ucast x) 0x1010 0x1008 64 =
    map_option (\<lambda>(m, d, s). (m, 0x1010)) (copy_down (\<lambda>x. ucast x) (0x1010 + 64) (0x1008 + 64) 0x1010)"
  by (rule memmove_overlap_bytewise) simp_all

section \<open>memset\<close>

text \<open>The byte replicated into every byte of a word.\<close>

lemma load64_constant: "load64 (\<lambda>_. b) 0 = ucast b * 0x0101010101010101"
proof -
  define w :: u64 where "w = ucast b"
  have w: "unat w < 2 ^ 8" using unat_less_exp [of b] by (simp add: w_def unat_ucast_up)
  have j: "push_bit 8 h OR w = h * 256 + w" for h :: u64
    using push_bit_or_add [OF w, of h] by (simp add: push_bit_eq_mult)
  have "load64 (\<lambda>_. b) 0 =
      push_bit 8 (push_bit 8 (push_bit 8 (push_bit 8 (push_bit 8 (push_bit 8 (push_bit 8 w
        OR w) OR w) OR w) OR w) OR w) OR w) OR w"
    by (simp add: load64_def w_def push_bit_or or.commute or.left_commute or.assoc)
  also have "\<dots> = w * 0x0101010101010101" unfolding j by (simp add: algebra_simps)
  finally show ?thesis by (simp add: w_def)
qed

lemma store64_replicated: "store64 m d (ucast b * 0x0101010101010101) = fill m d b 8"
proof
  fix x
  show "store64 m d (ucast b * 0x0101010101010101) x = fill m d b 8 x"
    using ucast_load64_byte [of "unat (x - d)" "\<lambda>_. b" 0]
    by (simp add: store64_def fill_def word_less_nat_alt flip: load64_constant)
qed

lemma set_phases:
  assumes n: "unat dest + n < 2 ^ 64" and le: "k + 8 * w \<le> n"
    and head: "head = dest + of_nat k \<or> (k = 0 \<and> \<not> dest < head)"
    and body: "body = dest + of_nat (k + 8 * w) \<or> (w = 0 \<and> \<not> dest + of_nat k < body)"
  shows "do {
      (m, d) \<leftarrow> set_up m dest c head;
      (m, dw) \<leftarrow> set_up_words m d (ucast c * 0x0101010101010101) body;
      (m, d) \<leftarrow> set_up m dw c (dest + of_nat n);
      Some (m, dest)
    } = Some (fill m dest c n, dest)"
proof -
  let ?k = "of_nat k :: addr" and ?j = "of_nat (k + 8 * w) :: addr"
  let ?cccc = "ucast c * 0x0101010101010101 :: u64"
  have 1: "set_up m dest c head = Some (fill m dest c k, dest + ?k)"
  proof (cases "head = dest + ?k")
    case True
    then show ?thesis using set_up_fill [of dest k m c] n le by simp
  next
    case False
    then show ?thesis using head by (simp add: set_up_stop)
  qed
  have e: "dest + ?j = (dest + ?k) + of_nat (8 * w)" by simp
  have n2: "unat (dest + ?k) + 8 * w < 2 ^ 64" using n le by (simp add: unat_add_of_nat)
  have 2: "set_up_words (fill m dest c k) (dest + ?k) ?cccc body
      = Some (fill m dest c (k + 8 * w), dest + ?j)"
  proof (cases "body = dest + ?j")
    case True
    then have "set_up_words (fill m dest c k) (dest + ?k) ?cccc body
      = Some (fill (fill m dest c k) (dest + ?k) c (8 * w), dest + ?j)"
      unfolding True e by (intro set_up_words_fill store64_replicated n2)
    moreover have "fill (fill m dest c k) (dest + ?k) c (8 * w) = fill m dest c (k + 8 * w)"
      using fill_up [of k "k + 8 * w" m dest c] n le by simp
    ultimately show ?thesis by simp
  next
    case False
    then show ?thesis using body by (simp add: set_up_words_stop)
  qed
  have "(of_nat n :: addr) = ?j + of_nat (n - (k + 8 * w))"
    using le by (simp only: of_nat_add [symmetric] le_add_diff_inverse)
  then have e3: "dest + of_nat n = (dest + ?j) + of_nat (n - (k + 8 * w))" by (simp only: add.assoc)
  have n3: "unat (dest + ?j) + (n - (k + 8 * w)) < 2 ^ 64"
    using n le unat_add_of_nat [of dest "k + 8 * w"] by simp
  have "n < 2 ^ 64" using n by simp
  then have 3: "set_up (fill m dest c (k + 8 * w)) (dest + ?j) c (dest + of_nat n)
      = Some (fill m dest c n, dest + of_nat n)"
    unfolding e3 set_up_fill [OF n3] by (simp only: fill_up [OF le])
  show ?thesis by (simp only: 1 2 3 bind.bind_lunit split)
qed

lemma memset_fill:
  assumes "unat dest + unat len < 2 ^ 64"
  shows "memset m dest c len = Some (fill m dest (ucast c) (unat len), dest)"
proof -
  define n where "n = unat len"
  have T: "unat dest + n < 2 ^ 64" using assms by (simp add: n_def)
  define b where "b \<longleftrightarrow> ((dest + 7) AND - 8) \<le> dest + of_nat n"
  let ?head = "if b then (dest + 7) AND - 8 else dest + of_nat n"
  obtain k w where kw: "k + 8 * w \<le> n" "?head = dest + of_nat k \<or> (k = 0 \<and> \<not> dest < ?head)"
      "dest + of_nat n AND - 8 = dest + of_nat (k + 8 * w)
        \<or> (w = 0 \<and> \<not> dest + of_nat k < dest + of_nat n AND - 8)"
    using phase_bounds [OF T, of b] by (auto simp: b_def)
  have "ucast (c AND 0xff) = (ucast (ucast c :: byte) :: u64)"
  proof -
    have "c AND 0xff = c AND mask 8" by (simp add: mask_eq_exp_minus_1)
    also have "ucast \<dots> = (ucast (ucast c :: byte) :: u64)"
      by (rule bit_word_eqI) (auto simp: bit_ucast_iff bit_and_iff bit_mask_iff dest: bit_imp_le_length)
    finally show ?thesis .
  qed
  then have "memset m dest c len = do {
      (m, d) \<leftarrow> set_up m dest (ucast c) ?head;
      (m, dw) \<leftarrow> set_up_words m d (ucast (ucast c :: byte) * 0x0101010101010101) (dest + of_nat n AND - 8);
      (m, d) \<leftarrow> set_up m dw (ucast c) (dest + of_nat n);
      Some (m, dest)
    }"
    by (simp add: memset_def Let_def b_def n_def)
  then show ?thesis using set_phases [OF T kw] by (simp only: n_def)
qed

text \<open>
  C23. \<open>memset\<close> returns and stores the low byte of \<open>c\<close> into exactly the \<open>len\<close> bytes of the
  block, whatever its alignment; the word it stores into the middle of the block repeats that
  byte eight times.
\<close>

theorem memset_fills:
  assumes "unat dest + unat len < 2 ^ 64"
  shows "memset m dest c len =
    Some (\<lambda>x. if unat (x - dest) < unat len then ucast c else m x, dest)"
  using memset_fill [OF assms, of m c] by (simp add: fill_def)

lemma memset_fills_witness:
  "memset (\<lambda>x. 7) 0x1003 0x1ff 21 =
    Some (\<lambda>x. if unat (x - 0x1003) < unat (21 :: u64) then ucast (0x1ff :: u32) else 7, 0x1003)"
  by (rule memset_fills) simp

section \<open>Checked entry points\<close>

text \<open>
  C25. The checked entry points of the fortified headers never write past the destination object:
  all three trap when the length exceeds its size, and otherwise return the destination with no byte
  at or behind \<open>destlen\<close> changed (\<open>__memcpy_chk\<close> for blocks that \<open>memcpy\<close> may be called with).
\<close>

theorem chk_stays_in_object:
  assumes "unat dest + unat len < 2 ^ 64" and "unat src + unat len < 2 ^ 64"
    and "unat dest + 7 < 2 ^ 64"
  shows "if destlen < len
    then memcpy_chk t m dest src len destlen = Some (Inl Trap)
      \<and> memmove_chk t m dest src len destlen = Some (Inl Trap)
      \<and> memset_chk m dest c len destlen = Some (Inl Trap)
    else (unat dest + unat len \<le> unat src \<or> unat src + unat len \<le> unat dest \<or> dest = src
      \<longrightarrow> (\<exists>m'. memcpy_chk t m dest src len destlen = Some (Inr (m', dest))
          \<and> (\<forall>x. unat destlen \<le> unat (x - dest) \<longrightarrow> m' x = m x)))
      \<and> (\<exists>m'. memmove_chk t m dest src len destlen = Some (Inr (m', dest))
          \<and> (\<forall>x. unat destlen \<le> unat (x - dest) \<longrightarrow> m' x = m x))
      \<and> (\<exists>m'. memset_chk m dest c len destlen = Some (Inr (m', dest))
          \<and> (\<forall>x. unat destlen \<le> unat (x - dest) \<longrightarrow> m' x = m x))"
proof (cases "destlen < len")
  case True
  then show ?thesis by (simp add: memcpy_chk_def memmove_chk_def memset_chk_def)
next
  case False
  then have le: "unat len \<le> unat destlen" by (simp add: word_less_nat_alt)
  have "memcpy t m dest src len = Some (blit m dest src (unat len), dest)" 
    if "unat dest + unat len \<le> unat src \<or> unat src + unat len \<le> unat dest \<or> dest = src"
    using that assms by (intro target_copy.forward) (auto simp: up_safe_def)
  then show ?thesis
    using False le memmove_blit [OF assms(1-3), of t m] memset_fill [OF assms(1), of m c]
    by (auto simp: memcpy_chk_def memmove_chk_def memset_chk_def blit_def fill_def)
qed

lemma chk_stays_in_object_witness:
  "memmove_chk x86_64_target (\<lambda>x. 0) 0x2000 0x1000 9 8 = Some (Inl Trap)
    \<and> (\<exists>m'. memcpy_chk x86_64_target (\<lambda>x. 0) 0x2000 0x1000 8 8 = Some (Inr (m', 0x2000)))"
  using chk_stays_in_object [of "0x2000" 9 "0x1000" 8 x86_64_target "\<lambda>x. 0" 0]
    chk_stays_in_object [of "0x2000" 8 "0x1000" 8 x86_64_target "\<lambda>x. 0" 0]
  by auto

end
