(* ===== verification/StrMem.thy ===== *)
theory StrMem
  imports MemCopy
begin

text \<open>
  \<open>src/strmem.c\<close>: string length, bounded copy, search and comparison.  Pointers are addresses
  into a memory, \<open>NULL\<close> is the address 0; a loop is a partial function whose value \<open>None\<close> is
  not returning.
\<close>

section \<open>The code\<close>

definition PLATFORM_MAX_ADDR :: addr where
  "PLATFORM_MAX_ADDR = 0xffffffffffffffff"

definition MIN_size :: "u64 \<Rightarrow> u64 \<Rightarrow> u64" where
  "MIN_size a b = (if a < b then a else b)"

subsection \<open>strlen\<close>

partial_function (option) scan_nul :: "mem \<Rightarrow> addr \<Rightarrow> addr option" where
  "scan_nul m scan = (if m scan \<noteq> 0 then scan_nul m (scan + 1) else Some scan)"

declare scan_nul.simps [code]

definition strlen_c :: "mem \<Rightarrow> addr \<Rightarrow> u64 option" where
  "strlen_c m s = (if s = 0 then Some 0 else do { scan \<leftarrow> scan_nul m s; Some (scan - s) })"

text \<open>
  The x86_64 version: \<open>rax\<close> starts at -1 and is incremented until the byte at \<open>rdi + rax\<close> is zero;
  a null pointer jumps over the loop with \<open>rax\<close> 0.
\<close>

partial_function (option) strlen_x86_loop :: "mem \<Rightarrow> addr \<Rightarrow> u64 \<Rightarrow> u64 option" where
  "strlen_x86_loop m rdi rax =
     (let rax = rax + 1 in if m (rdi + rax) \<noteq> 0 then strlen_x86_loop m rdi rax else Some rax)"

declare strlen_x86_loop.simps [code]

definition strlen_x86 :: "mem \<Rightarrow> addr \<Rightarrow> u64 option" where
  "strlen_x86 m s = (if s = 0 then Some 0 else strlen_x86_loop m s (0 - 1))"

definition strlen :: "target \<Rightarrow> mem \<Rightarrow> addr \<Rightarrow> u64 option" where
  "strlen t = (if arch_x86_64 t then strlen_x86 else strlen_c)"

subsection \<open>strzcpy\<close>

partial_function (option) strzcpy_loop ::
  "mem \<Rightarrow> addr \<Rightarrow> addr \<Rightarrow> u64 \<Rightarrow> (mem \<times> addr) option" where
  "strzcpy_loop m d src len =
     (if len > 1 \<and> m src \<noteq> 0 then strzcpy_loop (m(d := m src)) (d + 1) (src + 1) (len - 1)
      else Some (m, d))"

declare strzcpy_loop.simps [code]

definition strzcpy :: "mem \<Rightarrow> addr \<Rightarrow> addr \<Rightarrow> u64 \<Rightarrow> (mem \<times> addr) option" where
  "strzcpy m dest src len =
     (let d = dest in
      if len = 0 then Some (m, dest)
      else do {
        (m, d) \<leftarrow> strzcpy_loop m d src len;
        Some (m(d := 0), dest)
      })"

subsection \<open>Searching\<close>

partial_function (option) memchr_loop :: "target \<Rightarrow> mem \<Rightarrow> addr \<Rightarrow> addr \<Rightarrow> int \<Rightarrow> addr option" where
  "memchr_loop t m current end_p c =
     (if current < end_p then
        (if char_val t (m current) = c then Some current else memchr_loop t m (current + 1) end_p c)
      else Some 0)"

declare memchr_loop.simps [code]

definition memchr :: "target \<Rightarrow> mem \<Rightarrow> addr \<Rightarrow> int \<Rightarrow> u64 \<Rightarrow> addr option" where
  "memchr t m buffer c n =
     (let current = buffer;
          n = MIN_size n (PLATFORM_MAX_ADDR - buffer);
          end_p = current + n
      in memchr_loop t m current end_p c)"

definition strnlen :: "target \<Rightarrow> mem \<Rightarrow> addr \<Rightarrow> u64 \<Rightarrow> u64 option" where
  "strnlen t m str maxlen = do {
     p \<leftarrow> memchr t m str 0 maxlen;
     Some (if p \<noteq> 0 then p - str else maxlen)
   }"

partial_function (option) memrchr_loop :: "target \<Rightarrow> mem \<Rightarrow> addr \<Rightarrow> addr \<Rightarrow> int \<Rightarrow> addr option" where
  "memrchr_loop t m start current c =
     (if current > start then
        (let current = current - 1 in
         if char_val t (m current) = c then Some current else memrchr_loop t m start current c)
      else Some 0)"

declare memrchr_loop.simps [code]

definition memrchr :: "target \<Rightarrow> mem \<Rightarrow> addr \<Rightarrow> int \<Rightarrow> u64 \<Rightarrow> addr option" where
  "memrchr t m buffer c n =
     (let start = buffer;
          n = MIN_size n (PLATFORM_MAX_ADDR - buffer);
          current = start + n
      in memrchr_loop t m start current c)"

subsection \<open>Comparing\<close>

text \<open>
  The loops return the last two bytes read; the bytes are unsigned and their difference is an
  \<open>int\<close> between -255 and 255.
\<close>

partial_function (option) memcmp_loop ::
  "mem \<Rightarrow> addr \<Rightarrow> addr \<Rightarrow> addr \<Rightarrow> (byte \<times> byte) option" where
  "memcmp_loop m sa sb sa_end =
     (let c1 = m sa; c2 = m sb; sa = sa + 1; sb = sb + 1 in
      if c1 = c2 \<and> sa < sa_end then memcmp_loop m sa sb sa_end else Some (c1, c2))"

declare memcmp_loop.simps [code]

definition memcmp :: "mem \<Rightarrow> addr \<Rightarrow> addr \<Rightarrow> u64 \<Rightarrow> int option" where
  "memcmp m sa sb len =
     (if len = 0 then Some 0
      else if sa = 0 then Some (if sb \<noteq> 0 then - uint (m sb) else 0)
      else if sb = 0 then Some (uint (m sa))
      else
        let len = MIN_size len (PLATFORM_MAX_ADDR - sa);
            sa_end = sa + len
        in do {
             (c1, c2) \<leftarrow> memcmp_loop m sa sb sa_end;
             Some (uint c1 - uint c2)
           })"

partial_function (option) strcmp_loop :: "mem \<Rightarrow> addr \<Rightarrow> addr \<Rightarrow> (byte \<times> byte) option" where
  "strcmp_loop m s1 s2 =
     (let c1 = m s1; c2 = m s2; s1 = s1 + 1; s2 = s2 + 1 in
      if c1 = c2 \<and> c1 \<noteq> 0 then strcmp_loop m s1 s2 else Some (c1, c2))"

declare strcmp_loop.simps [code]

definition strcmp :: "mem \<Rightarrow> addr \<Rightarrow> addr \<Rightarrow> int option" where
  "strcmp m s1 s2 =
     (if s1 = 0 then Some (if s2 \<noteq> 0 then - uint (m s2) else 0)
      else if s2 = 0 then Some (uint (m s1))
      else do {
        (c1, c2) \<leftarrow> strcmp_loop m s1 s2;
        Some (uint c1 - uint c2)
      })"

partial_function (option) strncmp_loop ::
  "mem \<Rightarrow> addr \<Rightarrow> addr \<Rightarrow> addr \<Rightarrow> (byte \<times> byte) option" where
  "strncmp_loop m s1 s2 s1_end =
     (let c1 = m s1; c2 = m s2; s1 = s1 + 1; s2 = s2 + 1 in
      if c1 = c2 \<and> c1 \<noteq> 0 \<and> s1 < s1_end then strncmp_loop m s1 s2 s1_end else Some (c1, c2))"

declare strncmp_loop.simps [code]

definition strncmp :: "mem \<Rightarrow> addr \<Rightarrow> addr \<Rightarrow> u64 \<Rightarrow> int option" where
  "strncmp m s1 s2 len =
     (if len = 0 then Some 0
      else if s1 = 0 then Some (if s2 \<noteq> 0 then - uint (m s2) else 0)
      else if s2 = 0 then Some (uint (m s1))
      else
        let len = MIN_size len (PLATFORM_MAX_ADDR - s1);
            s1_end = s1 + len
        in do {
             (c1, c2) \<leftarrow> strncmp_loop m s1 s2 s1_end;
             Some (uint c1 - uint c2)
           })"

section \<open>Strings in memory\<close>

text \<open>\<open>nul_at m s n\<close>: the string at \<open>s\<close> has \<open>n\<close> characters before its terminator.\<close>

definition nul_at :: "mem \<Rightarrow> addr \<Rightarrow> nat \<Rightarrow> bool" where
  "nul_at m s n \<longleftrightarrow> m (s + of_nat n) = 0 \<and> (\<forall>i < n. m (s + of_nat i) \<noteq> 0)"

lemma nul_at_0 [simp]: "nul_at m s 0 \<longleftrightarrow> m s = 0"
  by (simp add: nul_at_def)

lemma nul_at_Suc: "nul_at m s (Suc n) \<longleftrightarrow> m s \<noteq> 0 \<and> nul_at m (s + 1) n"
  by (auto simp: nul_at_def All_less_Suc2 add.assoc)

lemma bytes_at_Suc: "bytes_at m s (Suc n) = m s # bytes_at m (s + 1) n"
  by (simp add: bytes_at_def upt_conv_Cons map_Suc_upt [symmetric] comp_def add.assoc del: upt_Suc)

lemma bytes_at_0 [simp]: "bytes_at m s 0 = []"
  by (simp add: bytes_at_def)

section \<open>strlen\<close>

lemma scan_nul_finds: "nul_at m s n \<Longrightarrow> scan_nul m s = Some (s + of_nat n)"
proof (induction n arbitrary: s)
  case 0
  then show ?case by (simp add: scan_nul.simps)
next
  case (Suc n)
  then show ?case by (subst scan_nul.simps) (simp add: nul_at_Suc add.assoc)
qed

lemma strlen_x86_loop_finds:
  "nul_at m (s + of_nat i) n \<Longrightarrow> strlen_x86_loop m s (of_nat i - 1) = Some (of_nat (i + n))"
proof (induction n arbitrary: i)
  case 0
  then show ?case by (simp add: strlen_x86_loop.simps)
next
  case (Suc n)
  then have nz: "m (s + of_nat i) \<noteq> 0" and n: "nul_at m (s + of_nat (Suc i)) n"
    by (simp_all add: nul_at_Suc algebra_simps)
  have "strlen_x86_loop m s (of_nat i - 1) = strlen_x86_loop m s (of_nat (Suc i) - 1)"
    using nz by (subst strlen_x86_loop.simps) (simp add: Let_def)
  also have "\<dots> = Some (of_nat (Suc i + n))" using Suc.IH [OF n] .
  finally show ?case by simp
qed

lemma strlen_finds:
  assumes "nul_at m s n"
  shows "strlen t m s = Some (if s = 0 then 0 else of_nat n)"
  using scan_nul_finds [OF assms] strlen_x86_loop_finds [of m s 0 n] assms
  by (simp add: strlen_def strlen_c_def strlen_x86_def)

text \<open>
  C26. Both versions of \<open>strlen\<close> return the number of bytes before the first null byte, and 0 for
  a null pointer.
\<close>

theorem strlen_counts:
  assumes "nul_at m s n"
  shows "strlen t m s = Some (if s = 0 then 0 else of_nat n)"
  using assms by (rule strlen_finds)

lemma strlen_counts_witness:
  "strlen aarch64_target (\<lambda>x. if x = 0x1003 then 0 else 65) 0x1000 = Some 3"
  using strlen_counts [of "\<lambda>x. if x = 0x1003 then 0 else 65" "0x1000" "Suc (Suc (Suc 0))" aarch64_target]
  by (simp add: nul_at_Suc)

section \<open>strzcpy\<close>

lemma strzcpy_loop_copies:
  assumes "0 < len" and "nul_at m s n" and "up_safe d s (Suc n)"
  shows "strzcpy_loop m d s len =
    Some (blit m d s (min n (unat len - 1)), d + of_nat (min n (unat len - 1)))"
  using assms
proof (induction n arbitrary: m d s len)
  case 0
  then show ?case by (subst strzcpy_loop.simps) simp
next
  case (Suc n)
  show ?case
  proof (cases "1 < len")
    case False
    then have "unat len - 1 = 0" by (simp add: word_less_nat_alt)
    with False show ?thesis by (subst strzcpy_loop.simps) simp
  next
    case True
    then have len: "0 < len - 1" "unat (len - 1) = unat len - 1" "1 < unat len"
      by (simp_all add: word_less_nat_alt unat_sub_fits)
    let ?m = "m(d := m s)" and ?k = "min n (unat (len - 1) - 1)"
    have safe: "up_safe (d + 1) (s + 1) (Suc n)" using up_safe_drop [OF Suc.prems(3), of 1] by simp
    have "m s \<noteq> 0" and n: "nul_at m (s + 1) n" using Suc.prems(2) by (simp_all add: nul_at_Suc)
    have "d \<noteq> s + 1 + of_nat i" if "i \<le> n" for i
    proof
      assume d: "d = s + 1 + of_nat i"
      have "unat (s + of_nat (Suc i)) = unat s + Suc i"
        using Suc.prems(3) that by (intro unat_add_of_nat) (simp add: up_safe_def)
      then have "unat d = unat s + Suc i" using d by (simp add: add.assoc)
      then show False using Suc.prems(3) that by (simp add: up_safe_def)
    qed
    then have "?m (s + 1 + of_nat i) = m (s + 1 + of_nat i)" if "i \<le> n" for i
      using that by (metis fun_upd_other)
    then have n': "nul_at ?m (s + 1) n" using n by (simp add: nul_at_def)
    have "strzcpy_loop m d s len = strzcpy_loop ?m (d + 1) (s + 1) (len - 1)"
      using True \<open>m s \<noteq> 0\<close> by (subst strzcpy_loop.simps) simp
    also have "\<dots> = Some (blit ?m (d + 1) (s + 1) ?k, d + 1 + of_nat ?k)"
      by (rule Suc.IH [OF len(1) n' safe])
    also have "blit ?m (d + 1) (s + 1) ?k = blit m d s (Suc ?k)"
      using blit_up [OF up_safe_take [OF Suc.prems(3), of "Suc ?k"], of 1 m]
      by (simp add: blit_1)
    also have "d + 1 + of_nat ?k = d + of_nat (Suc ?k)" by (simp add: add.assoc)
    also have "Suc ?k = min (Suc n) (unat len - 1)" using len(2,3) by linarith
    finally show ?thesis .
  qed
qed

text \<open>
  C21. \<open>strzcpy\<close> with a capacity of \<open>len\<close> bytes copies the longest prefix of the string that
  leaves room for the terminator, stores the terminator right behind it and changes nothing else:
  the destination is always a terminated string and never more than \<open>len\<close> bytes are written.
\<close>

theorem strzcpy_copies:
  assumes "0 < len" and "nul_at m src n" and "up_safe dest src (Suc n)"
  defines "k \<equiv> min n (unat len - 1)"
  shows "strzcpy m dest src len =
      Some ((\<lambda>x. if unat (x - dest) < k then m (src + (x - dest)) else m x)(dest + of_nat k := 0), dest)
    \<and> k < unat len \<and> k \<le> n"
proof -
  have "0 < unat len" using assms(1) by (simp add: word_less_nat_alt)
  moreover have "len \<noteq> 0" using assms(1) by auto
  ultimately show ?thesis
    using strzcpy_loop_copies [OF assms(1-3)]
    by (auto simp: strzcpy_def Let_def k_def blit_def)
qed

lemma strzcpy_copies_witness:
  "strzcpy (\<lambda>x. if x = 0x1002 then 0 else 65) 0x2000 0x1000 2 =
      Some ((\<lambda>x. if unat (x - 0x2000) < 1
          then (if 0x1000 + (x - 0x2000) = 0x1002 then 0 else 65)
          else (if x = 0x1002 then 0 else 65))(0x2001 := 0), 0x2000)"
proof -
  have "nul_at (\<lambda>x. if x = 0x1002 then 0 else 65) 0x1000 (Suc (Suc 0))"
    by (simp add: nul_at_Suc)
  then show ?thesis
    using strzcpy_copies [of 2 "\<lambda>x. if x = 0x1002 then 0 else 65" "0x1000" "Suc (Suc 0)" "0x2000"]
    by (simp add: up_safe_def)
qed

section \<open>Searching\<close>

text \<open>The reference: the index of the first element of a list that satisfies a predicate.\<close>

fun first_index :: "('a \<Rightarrow> bool) \<Rightarrow> 'a list \<Rightarrow> nat option" where
  "first_index P [] = None"
| "first_index P (x # xs) = (if P x then Some 0 else map_option Suc (first_index P xs))"

lemma first_index_None: "first_index P xs = None \<longleftrightarrow> (\<forall>x \<in> set xs. \<not> P x)"
  by (induction xs) auto

lemma first_index_Some:
  "first_index P xs = Some i \<longleftrightarrow> i < length xs \<and> P (xs ! i) \<and> (\<forall>j < i. \<not> P (xs ! j))"
proof (induction xs arbitrary: i)
  case (Cons x xs)
  then show ?case by (cases i) (auto simp: All_less_Suc2)
qed simp

lemma first_index_takeWhile:
  "(case first_index P xs of None \<Rightarrow> length xs | Some i \<Rightarrow> i) = length (takeWhile (\<lambda>x. \<not> P x) xs)"
  by (induction xs) (auto split: option.splits)

lemma PLATFORM_MAX_ADDR_minus: "unat (PLATFORM_MAX_ADDR - a) = 2 ^ 64 - 1 - unat a"
proof -
  have "unat a \<le> unat PLATFORM_MAX_ADDR" using unat_less_exp [of a] by (simp add: PLATFORM_MAX_ADDR_def)
  then show ?thesis by (simp add: unat_sub_fits PLATFORM_MAX_ADDR_def)
qed

lemma unat_MIN_size: "unat (MIN_size a b) = min (unat a) (unat b)"
  by (simp add: MIN_size_def word_less_nat_alt min_def)

lemma clipped_of_nat:
  "MIN_size n (PLATFORM_MAX_ADDR - a) = of_nat (min (unat n) (2 ^ 64 - 1 - unat a))"
  by (metis unat_MIN_size PLATFORM_MAX_ADDR_minus word_of_unat)

lemma clipped_end: "unat a + min n (2 ^ 64 - 1 - unat a) < 2 ^ 64" for a :: addr
  using unat_less_exp [of a] by simp

lemma clipped_fits: "unat a + unat n < 2 ^ 64 \<Longrightarrow> MIN_size n (PLATFORM_MAX_ADDR - a) = n"
  by (auto simp: MIN_size_def word_less_nat_alt PLATFORM_MAX_ADDR_minus word_unat_eq_iff)

lemma memchr_loop_finds:
  "unat a + n < 2 ^ 64 \<Longrightarrow> memchr_loop t m a (a + of_nat n) c =
    Some (case first_index (\<lambda>b. char_val t b = c) (bytes_at m a n) of
      None \<Rightarrow> 0 | Some i \<Rightarrow> a + of_nat i)"
proof (induction n arbitrary: a)
  case 0
  then show ?case by (simp add: memchr_loop.simps)
next
  case (Suc n)
  have a: "unat (a + 1) + n < 2 ^ 64" and less: "a < a + of_nat (Suc n)"
    using Suc.prems unat_add_of_nat [of a 1] unat_add_of_nat [of a "Suc n"]
    by (simp_all add: word_less_nat_alt)
  have eq: "a + of_nat (Suc n) = (a + 1) + of_nat n" by simp
  show ?case
    using Suc.IH [OF a] less unfolding eq
    by (subst memchr_loop.simps) (simp add: bytes_at_Suc add.assoc split: option.splits)
qed

lemma memchr_first:
  "memchr t m buffer c n =
    Some (case first_index (\<lambda>b. char_val t b = c)
        (bytes_at m buffer (min (unat n) (2 ^ 64 - 1 - unat buffer))) of
      None \<Rightarrow> 0 | Some i \<Rightarrow> buffer + of_nat i)"
  unfolding memchr_def Let_def clipped_of_nat by (rule memchr_loop_finds [OF clipped_end])

text \<open>
  On the values a \<open>char\<close> can have, comparing as \<open>char\<close> is comparing as \<open>unsigned char\<close>.
\<close>

lemma char_val_converted:
  assumes "if char_is_signed t then - 128 \<le> c \<and> c < 128 else 0 \<le> c \<and> c < 256"
  shows "char_val t b = c \<longleftrightarrow> b = word_of_int c"
proof -
  have "char_val t (word_of_int c) = c"
    using assms by (auto simp: char_val_def sint_sbintrunc' uint_word_of_int_eq signed_take_bit_int_eq_self
        take_bit_int_eq_self split: if_splits)
  then show ?thesis using char_val_eq_iff [of t b "word_of_int c"] by auto
qed

text \<open>
  C29. \<open>memchr\<close> returns the address of the first byte, among the first \<open>n\<close> (clipped at the end of
  the address space), that equals the argument converted to an \<open>unsigned char\<close>, and a null pointer when
  there is none, for every argument that is the value of a \<open>char\<close>; for the others it departs from
  its documentation.
\<close>

theorem memchr_finds:
  assumes "if char_is_signed t then - 128 \<le> c \<and> c < 128 else 0 \<le> c \<and> c < 256"
  shows "memchr t m buffer c n =
    Some (case first_index (\<lambda>b. b = word_of_int c)
        (bytes_at m buffer (min (unat n) (2 ^ 64 - 1 - unat buffer))) of
      None \<Rightarrow> 0 | Some i \<Rightarrow> buffer + of_nat i)"
  unfolding memchr_first char_val_converted [OF assms] ..

lemma memchr_finds_witness:
  "memchr x86_64_target (\<lambda>x. ucast x) 0x1000 5 8 = Some 0x1005"
proof -
  have n: "min (unat (8 :: u64)) (2 ^ 64 - 1 - unat (0x1000 :: addr)) = 8" by simp
  have "first_index (\<lambda>b. b = word_of_int 5) (bytes_at (\<lambda>x. ucast x) 0x1000 8) = Some 5" by code_simp
  then show ?thesis
    using memchr_finds [of x86_64_target 5 "\<lambda>x. ucast x" "0x1000" 8]
    unfolding n by (simp add: x86_64_target_def)
qed

text \<open>The loop of \<open>memrchr\<close>, from the end: the last index is the first one of the reversed block.\<close>

lemma bytes_at_snoc: "bytes_at m s (Suc n) = bytes_at m s n @ [m (s + of_nat n)]"
  by (simp add: bytes_at_def)

lemma memrchr_loop_finds:
  "unat a + n < 2 ^ 64 \<Longrightarrow> memrchr_loop t m a (a + of_nat n) c =
    Some (case first_index (\<lambda>b. char_val t b = c) (rev (bytes_at m a n)) of
      None \<Rightarrow> 0 | Some i \<Rightarrow> a + of_nat (n - Suc i))"
proof (induction n)
  case 0
  then show ?case by (simp add: memrchr_loop.simps)
next
  case (Suc n)
  have less: "a < a + of_nat (Suc n)"
    using Suc.prems unat_add_of_nat [of a "Suc n"] by (simp add: word_less_nat_alt)
  have prev: "a + of_nat (Suc n) - 1 = a + of_nat n" by simp
  have IH: "memrchr_loop t m a (a + of_nat n) c =
    Some (case first_index (\<lambda>b. char_val t b = c) (rev (bytes_at m a n)) of
      None \<Rightarrow> 0 | Some i \<Rightarrow> a + of_nat (n - Suc i))"
    using Suc.prems by (intro Suc.IH) simp
  show ?case
    unfolding memrchr_loop.simps [of t m a "a + of_nat (Suc n)" c] Let_def prev IH
    using less by (simp add: bytes_at_snoc del: of_nat_Suc split: option.splits)
qed

text \<open>
  \<open>memrchr\<close> returns the address of the last such byte among the first \<open>n\<close>, and a null pointer
  when there is none.
\<close>

theorem memrchr_finds:
  "memrchr t m buffer c n =
    (let k = min (unat n) (2 ^ 64 - 1 - unat buffer) in
     Some (case first_index (\<lambda>b. char_val t b = c) (rev (bytes_at m buffer k)) of
       None \<Rightarrow> 0 | Some i \<Rightarrow> buffer + of_nat (k - Suc i)))"
  unfolding memrchr_def Let_def clipped_of_nat by (rule memrchr_loop_finds [OF clipped_end])

text \<open>
  C30. Where \<open>char\<close> is signed, \<open>memchr\<close> and \<open>memrchr\<close> never find a byte of value 128 or more
  that the caller passes as an \<open>unsigned char\<close>, whatever the memory holds.
\<close>

theorem memchr_misses_high_bytes:
  assumes "char_is_signed t" and "128 \<le> c"
  shows "memchr t m buffer c n = Some 0 \<and> memrchr t m buffer c n = Some 0"
proof -
  have "char_val t b \<noteq> c" for b
    using assms uint_bounded [of b] by (simp add: char_val_def sint_byte word_less_def)
  then have "first_index (\<lambda>b. char_val t b = c) xs = None" for xs
    by (simp add: first_index_None)
  then show ?thesis by (simp only: memchr_first memrchr_finds Let_def option.case simp_thms)
qed

lemma memchr_misses_high_bytes_witness:
  "memchr x86_64_target (\<lambda>x. 200) 0x1000 200 8 = Some 0"
  using memchr_misses_high_bytes [of x86_64_target 200 "\<lambda>x. 200" "0x1000" 8]
  by (simp add: x86_64_target_def)

text \<open>
  \<open>strnlen\<close> returns the number of bytes before the first null byte, at most \<open>maxlen\<close>.
\<close>

theorem strnlen_counts:
  assumes "str \<noteq> 0" and "unat str + unat maxlen < 2 ^ 64"
  shows "strnlen t m str maxlen =
    Some (of_nat (length (takeWhile (\<lambda>b. b \<noteq> 0) (bytes_at m str (unat maxlen)))))"
proof -
  let ?xs = "bytes_at m str (unat maxlen)"
  have "char_val t 0 = 0" by (simp add: char_val_def)
  then have z: "char_val t b = 0 \<longleftrightarrow> b = 0" for b
    using char_val_eq_iff [of t b 0] by simp
  have mc: "memchr t m str 0 maxlen =
      Some (case first_index (\<lambda>b. b = 0) ?xs of None \<Rightarrow> 0 | Some i \<Rightarrow> str + of_nat i)"
    using memchr_first [of t m str 0 maxlen] min_absorb1 [of "unat maxlen" "2 ^ 64 - 1 - unat str"]
      assms(2) by (simp add: z)
  show ?thesis
  proof (cases "first_index (\<lambda>b. b = 0) ?xs")
    case None
    then have "length (takeWhile (\<lambda>b. b \<noteq> 0) ?xs) = unat maxlen"
      using first_index_takeWhile [of ?xs "\<lambda>b. b = 0"] by simp
    then show ?thesis using mc None by (simp add: strnlen_def)
  next
    case (Some i)
    then have "length (takeWhile (\<lambda>b. b \<noteq> 0) ?xs) = i"
      using first_index_takeWhile [of ?xs "\<lambda>b. b = 0"] by simp
    moreover have "i < unat maxlen" using Some by (simp add: first_index_Some)
    then have "unat (str + of_nat i) = unat str + i"
      using assms(2) by (intro unat_add_of_nat) simp
    then have "str + of_nat i \<noteq> 0" using assms(1) by (auto simp: unat_eq_zero dest: arg_cong [of _ _ unat])
    ultimately show ?thesis using mc Some by (simp add: strnlen_def)
  qed
qed

lemma strnlen_counts_witness:
  "strnlen x86_64_target (\<lambda>x. if x = 0x1002 then 0 else 65) 0x1000 8 = Some 2"
proof -
  let ?m = "\<lambda>x. if x = 0x1002 then 0 else 65"
  have "bytes_at ?m 0x1000 (unat (8 :: u64)) = [65, 65, 0, 65, 65, 65, 65, 65]" by code_simp
  with strnlen_counts [of "0x1000" 8 x86_64_target ?m] show ?thesis by simp
qed

section \<open>Comparing\<close>

text \<open>
  The references: the difference of the first two different bytes, of two equally long blocks and
  of two strings, where the end of a string counts as a null byte.
\<close>

fun cmp_bytes :: "byte list \<Rightarrow> byte list \<Rightarrow> int" where
  "cmp_bytes (x # xs) (y # ys) = (if x = y then cmp_bytes xs ys else uint x - uint y)"
| "cmp_bytes _ _ = 0"

fun cmp_str :: "byte list \<Rightarrow> byte list \<Rightarrow> int" where
  "cmp_str [] [] = 0"
| "cmp_str [] (y # ys) = - uint y"
| "cmp_str (x # xs) [] = uint x"
| "cmp_str (x # xs) (y # ys) = (if x = y then cmp_str xs ys else uint x - uint y)"

lemma cmp_bytes_zero: "length xs = length ys \<Longrightarrow> cmp_bytes xs ys = 0 \<longleftrightarrow> xs = ys"
  by (induction xs ys rule: list_induct2) (auto simp: word_uint_eq_iff)

lemma cmp_bytes_neg: "length xs = length ys \<Longrightarrow> cmp_bytes xs ys < 0 \<longleftrightarrow> ord_class.lexordp xs ys"
  by (induction xs ys rule: list_induct2) (auto simp: word_less_def word_uint_eq_iff)

lemma cmp_bytes_swap: "cmp_bytes ys xs = - cmp_bytes xs ys"
  by (induction xs ys rule: cmp_bytes.induct) auto

lemma cmp_str_zero: "0 \<notin> set xs \<Longrightarrow> 0 \<notin> set ys \<Longrightarrow> cmp_str xs ys = 0 \<longleftrightarrow> xs = ys"
  by (induction xs ys rule: cmp_str.induct) (auto simp: word_uint_eq_iff)

lemma uint_pos: "b \<noteq> 0 \<Longrightarrow> 0 < uint b" for b :: byte
  by (simp add: word_neq_0_conv word_less_def)

lemma cmp_str_neg:
  "0 \<notin> set xs \<Longrightarrow> 0 \<notin> set ys \<Longrightarrow> cmp_str xs ys < 0 \<longleftrightarrow> ord_class.lexordp xs ys"
proof (induction xs ys rule: cmp_str.induct)
  case (2 y ys)
  then show ?case using uint_pos [of y] by auto
next
  case (3 x xs)
  then show ?case using uint_pos [of x] by auto
next
  case (4 x xs y ys)
  then show ?case using word_uint_eq_iff [of x y] by (auto simp: word_less_def)
qed simp

lemma memcmp_loop_compares:
  "unat sa + Suc n < 2 ^ 64 \<Longrightarrow> \<exists>c1 c2. memcmp_loop m sa sb (sa + of_nat (Suc n)) = Some (c1, c2) \<and>
    uint c1 - uint c2 = cmp_bytes (bytes_at m sa (Suc n)) (bytes_at m sb (Suc n))"
proof (induction n arbitrary: sa sb)
  case 0
  then show ?case by (subst memcmp_loop.simps) (simp add: bytes_at_Suc Let_def)
next
  case (Suc n)
  have a: "unat (sa + 1) + Suc n < 2 ^ 64" and less: "sa + 1 < sa + of_nat (Suc (Suc n))"
    using Suc.prems unat_add_fits [of sa 1] unat_add_of_nat [of sa "Suc (Suc n)"]
    by (simp_all add: word_less_nat_alt del: of_nat_Suc)
  have eq: "sa + of_nat (Suc (Suc n)) = (sa + 1) + of_nat (Suc n)" by simp
  show ?case
    using Suc.IH [OF a, of "sb + 1"] less
    unfolding memcmp_loop.simps [of m sa sb] eq Let_def bytes_at_Suc [of m sa] bytes_at_Suc [of m sb]
    by (simp del: of_nat_Suc)
qed

text \<open>
  C27. \<open>memcmp\<close> of two blocks is the difference of the first two different bytes as unsigned
  values: zero exactly when the blocks are equal, negative exactly when the first one comes first in
  the lexicographic order of unsigned bytes, and always an \<open>int\<close> between -255 and 255.
\<close>

theorem memcmp_compares:
  assumes "sa \<noteq> 0" and "sb \<noteq> 0" and "unat sa + unat len < 2 ^ 64"
  shows "\<exists>r. memcmp m sa sb len = Some r
    \<and> r = cmp_bytes (bytes_at m sa (unat len)) (bytes_at m sb (unat len))
    \<and> (r = 0 \<longleftrightarrow> bytes_at m sa (unat len) = bytes_at m sb (unat len))
    \<and> (r < 0 \<longleftrightarrow> ord_class.lexordp (bytes_at m sa (unat len)) (bytes_at m sb (unat len)))"
proof (cases "len = 0")
  case True
  then show ?thesis by (simp add: memcmp_def)
next
  case False
  then obtain n where n: "unat len = Suc n" by (cases "unat len") (auto simp: unat_eq_zero)
  then have end_p: "sa + len = sa + of_nat (Suc n)" by (metis word_of_unat)
  obtain c1 c2 where "memcmp_loop m sa sb (sa + len) = Some (c1, c2)"
    and c: "uint c1 - uint c2 = cmp_bytes (bytes_at m sa (Suc n)) (bytes_at m sb (Suc n))"
    using memcmp_loop_compares [of sa n m sb] assms(3) n end_p by auto
  then have "memcmp m sa sb len = Some (uint c1 - uint c2)"
    using False assms by (simp add: memcmp_def Let_def clipped_fits)
  then show ?thesis
    unfolding n c by (simp add: cmp_bytes_zero cmp_bytes_neg bytes_at_def del: upt_Suc)
qed

lemma memcmp_compares_witness:
  "memcmp (\<lambda>x. if x = 0x2001 then 200 else 7) 0x1000 0x2000 2 = Some (- 193)"
proof -
  let ?m = "\<lambda>x. if x = 0x2001 then 200 else 7"
  have "bytes_at ?m 0x1000 (unat (2 :: u64)) = [7, 7]" "bytes_at ?m 0x2000 (unat (2 :: u64)) = [7, 200]"
    by code_simp+
  with memcmp_compares [of "0x1000" "0x2000" 2 ?m] show ?thesis by simp
qed

lemma strcmp_loop_compares:
  "nul_at m s1 n1 \<Longrightarrow> nul_at m s2 n2 \<Longrightarrow> \<exists>c1 c2. strcmp_loop m s1 s2 = Some (c1, c2) \<and>
    uint c1 - uint c2 = cmp_str (bytes_at m s1 n1) (bytes_at m s2 n2)"
proof (induction n1 arbitrary: s1 s2 n2)
  case 0
  then show ?case
    by (subst strcmp_loop.simps) (cases n2, auto simp: bytes_at_Suc Let_def nul_at_Suc)
next
  case (Suc n1)
  then show ?case
    by (subst strcmp_loop.simps) (cases n2, auto simp: bytes_at_Suc Let_def nul_at_Suc)
qed

lemma zero_notin_string: "nul_at m s n \<Longrightarrow> 0 \<notin> set (bytes_at m s n)"
  by (auto simp: nul_at_def bytes_at_def)

text \<open>
  C28. \<open>strcmp\<close> of two terminated strings returns zero exactly when they are equal, and a negative
  number exactly when the first one comes first in the dictionary order of unsigned bytes.
\<close>

theorem strcmp_compares:
  assumes "s1 \<noteq> 0" and "s2 \<noteq> 0" and "nul_at m s1 n1" and "nul_at m s2 n2"
  shows "\<exists>r. strcmp m s1 s2 = Some r
    \<and> (r = 0 \<longleftrightarrow> bytes_at m s1 n1 = bytes_at m s2 n2)
    \<and> (r < 0 \<longleftrightarrow> ord_class.lexordp (bytes_at m s1 n1) (bytes_at m s2 n2))"
  using strcmp_loop_compares [OF assms(3,4)] zero_notin_string [OF assms(3)]
    zero_notin_string [OF assms(4)] assms(1,2)
  by (auto simp: strcmp_def cmp_str_zero cmp_str_neg)

lemma strcmp_compares_witness:
  "\<exists>r < 0. strcmp (\<lambda>x. if x = 0x1001 then 0 else if x = 0x2001 then 200 else if x = 0x2002 then 0 else 7)
      0x1000 0x2000 = Some r"
  using strcmp_compares [of "0x1000" "0x2000"
    "\<lambda>x. if x = 0x1001 then 0 else if x = 0x2001 then 200 else if x = 0x2002 then 0 else 7"
    "Suc 0" "Suc (Suc 0)"]
  by (auto simp: nul_at_Suc bytes_at_Suc)

lemma strncmp_loop_compares:
  "nul_at m s1 n1 \<Longrightarrow> nul_at m s2 n2 \<Longrightarrow> unat s1 + Suc k < 2 ^ 64 \<Longrightarrow>
    \<exists>c1 c2. strncmp_loop m s1 s2 (s1 + of_nat (Suc k)) = Some (c1, c2) \<and>
    uint c1 - uint c2 = cmp_str (take (Suc k) (bytes_at m s1 n1)) (take (Suc k) (bytes_at m s2 n2))"
proof (induction k arbitrary: s1 s2 n1 n2)
  case 0
  then show ?case
    by (subst strncmp_loop.simps)
      (cases n1; cases n2; auto simp: bytes_at_Suc Let_def nul_at_Suc)
next
  case (Suc k)
  have a: "unat (s1 + 1) + Suc k < 2 ^ 64" and less: "s1 + 1 < s1 + of_nat (Suc (Suc k))"
    using Suc.prems(3) unat_add_fits [of s1 1] unat_add_of_nat [of s1 "Suc (Suc k)"]
    by (simp_all add: word_less_nat_alt del: of_nat_Suc)
  have eq: "s1 + of_nat (Suc (Suc k)) = (s1 + 1) + of_nat (Suc k)" by simp
  show ?case
  proof (cases "m s1 = m s2 \<and> m s1 \<noteq> 0")
    case True
    with Suc.prems obtain i j where n: "n1 = Suc i" "n2 = Suc j" by (cases n1; cases n2) auto
    with Suc.prems have "nul_at m (s1 + 1) i" "nul_at m (s2 + 1) j" by (simp_all add: nul_at_Suc)
    from Suc.IH [OF this a] show ?thesis
      using True [THEN conjunct1] True [THEN conjunct2] less unfolding strncmp_loop.simps [of m s1 s2] eq Let_def
      by (simp add: n bytes_at_Suc del: of_nat_Suc)
  next
    case False
    then show ?thesis
      using Suc.prems(1,2)
      by (subst strncmp_loop.simps)
        (cases n1; cases n2; auto simp: bytes_at_Suc Let_def nul_at_Suc)
  qed
qed

text \<open>
  C37. \<open>strncmp\<close> compares at most \<open>len\<close> characters: it is the comparison of the two strings cut
  at \<open>len\<close>.
\<close>

theorem strncmp_compares:
  assumes "s1 \<noteq> 0" and "s2 \<noteq> 0" and "nul_at m s1 n1" and "nul_at m s2 n2"
    and "unat s1 + unat len < 2 ^ 64"
  shows "\<exists>r. strncmp m s1 s2 len = Some r
    \<and> (r = 0 \<longleftrightarrow> take (unat len) (bytes_at m s1 n1) = take (unat len) (bytes_at m s2 n2))
    \<and> (r < 0 \<longleftrightarrow>
        ord_class.lexordp (take (unat len) (bytes_at m s1 n1)) (take (unat len) (bytes_at m s2 n2)))"
proof (cases "len = 0")
  case True
  then show ?thesis by (simp add: strncmp_def)
next
  case False
  then obtain k where k: "unat len = Suc k" by (cases "unat len") (auto simp: unat_eq_zero)
  then have end_p: "s1 + len = s1 + of_nat (Suc k)" by (metis word_of_unat)
  let ?xs = "take (Suc k) (bytes_at m s1 n1)" and ?ys = "take (Suc k) (bytes_at m s2 n2)"
  have "0 \<notin> set ?xs" "0 \<notin> set ?ys"
    using zero_notin_string [OF assms(3)] zero_notin_string [OF assms(4)]
    by (meson in_set_takeD)+
  moreover have "strncmp m s1 s2 len = Some (cmp_str ?xs ?ys)"
    using strncmp_loop_compares [OF assms(3,4), of k] assms False k end_p
    by (auto simp: strncmp_def Let_def clipped_fits)
  ultimately show ?thesis by (simp add: k cmp_str_zero cmp_str_neg)
qed

lemma strncmp_compares_witness:
  "strncmp (\<lambda>x. if x = 0x1002 \<or> x = 0x2002 then 0 else ucast x) 0x1001 0x2001 1 = Some 0"
  using strncmp_compares [of "0x1001" "0x2001" "\<lambda>x. if x = 0x1002 \<or> x = 0x2002 then 0 else ucast x"
    "Suc 0" "Suc 0" 1]
  by (auto simp: nul_at_Suc bytes_at_Suc)

end
