(* ===== verification/Malloc.thy ===== *)
theory Malloc
  imports MemCopy
begin

text \<open>
  The allocator of \<open>src/malloc.c\<close>.  Chunks live in the memory: the size at the chunk's address, and
  in a free chunk the address of the next one 8 bytes further on; the data of an allocated chunk
  start there.  \<open>sbrk\<close> belongs to the platform and is a parameter that acts on a state of its own.
  The functions with an explicit \<open>struct malloc_state\<close> are modelled for the one state the library
  has; loops over the free list are partial functions, a list with a cycle makes them \<open>None\<close>.
\<close>

section \<open>State\<close>

record 'e heap =
  memory :: mem
  sbrk_start :: addr
  sbrk_end :: addr
  head :: addr
  errno :: int
  env :: 'e

definition heap_init :: "mem \<Rightarrow> 'e \<Rightarrow> 'e heap" where
  "heap_init m e = \<lparr>memory = m, sbrk_start = 0, sbrk_end = 0, head = 0, errno = 0, env = e\<rparr>"

text \<open>\<open>MALLOC_ALIGN\<close> is the size of a pointer, \<open>MALLOC_MIN_SIZE\<close> the size of \<open>struct free_chunk\<close>.\<close>

definition MALLOC_ALIGN :: u64 where
  "MALLOC_ALIGN = 8"

definition MALLOC_MIN_SIZE :: u64 where
  "MALLOC_MIN_SIZE = 16"

definition SBRK_FAILURE :: addr where
  "SBRK_FAILURE = - 1"

definition INTPTR_MAX :: u64 where
  "INTPTR_MAX = 0x7fffffffffffffff"

definition ENOMEM :: int where
  "ENOMEM = 0x0c"

text \<open>The fields of a chunk.\<close>

definition chunk_size :: "mem \<Rightarrow> addr \<Rightarrow> u64" where
  "chunk_size m c = load64 m c"

definition chunk_next :: "mem \<Rightarrow> addr \<Rightarrow> addr" where
  "chunk_next m c = load64 m (c + 8)"

definition set_size :: "addr \<Rightarrow> u64 \<Rightarrow> 'e heap \<Rightarrow> 'e heap" where
  "set_size c v h = h\<lparr>memory := store64 (memory h) c v\<rparr>"

definition set_next :: "addr \<Rightarrow> addr \<Rightarrow> 'e heap \<Rightarrow> 'e heap" where
  "set_next c v h = h\<lparr>memory := store64 (memory h) (c + 8) v\<rparr>"

text \<open>
  \<open>struct free_chunk **parent\<close> points to the head of the list or to the \<open>next\<close> field of a chunk.
\<close>

datatype link = Head | Next addr

definition deref :: "'e heap \<Rightarrow> link \<Rightarrow> addr" where
  "deref h parent = (case parent of Head \<Rightarrow> head h | Next c \<Rightarrow> chunk_next (memory h) c)"

definition assign :: "link \<Rightarrow> addr \<Rightarrow> 'e heap \<Rightarrow> 'e heap" where
  "assign parent v h = (case parent of Head \<Rightarrow> h\<lparr>head := v\<rparr> | Next c \<Rightarrow> set_next c v h)"

section \<open>Helpers\<close>

definition chunk_data_size :: "mem \<Rightarrow> addr \<Rightarrow> u64" where
  "chunk_data_size m c = chunk_size m c - 8"

definition chunk_from_data :: "addr \<Rightarrow> addr" where
  "chunk_from_data ptr = ptr - 8"

definition chunk_to_data :: "addr \<Rightarrow> addr" where
  "chunk_to_data chunk = chunk + 8"

definition chunk_end :: "mem \<Rightarrow> addr \<Rightarrow> addr" where
  "chunk_end m c = c + chunk_size m c"

definition chunk_size_for_data :: "u64 \<Rightarrow> u64" where
  "chunk_size_for_data sz =
     (let pad = sz mod MALLOC_ALIGN;
          sz = if pad \<noteq> 0 then sz + (MALLOC_ALIGN - pad) else sz
      in sz + 8)"

text \<open>\<open>%\<close> of C on \<open>intptr_t\<close> rounds towards zero.\<close>

definition intptr_rem :: "addr \<Rightarrow> int \<Rightarrow> int" where
  "intptr_rem p d = (if sint p < 0 then - ((- sint p) mod d) else sint p mod d)"

definition aligned_sbrk ::
  "(int \<Rightarrow> 'e \<Rightarrow> addr \<times> 'e) \<Rightarrow> u64 \<Rightarrow> 'e heap \<Rightarrow> addr \<times> 'e heap" where
  "aligned_sbrk sbrk sz h =
     (if sz > INTPTR_MAX then (SBRK_FAILURE, h)
      else
        let (p, e) = sbrk (uint sz) (env h);
            h = h\<lparr>env := e\<rparr>
        in if p = SBRK_FAILURE then (p, h\<lparr>errno := ENOMEM\<rparr>)
        else
          let h = h\<lparr>sbrk_end := p + sz\<rparr>;
              pad_size = intptr_rem p 8
          in if pad_size \<noteq> 0 then
               let pad_size = 8 - pad_size;
                   (pad, e) = sbrk pad_size (env h);
                   h = h\<lparr>env := e\<rparr>
               in if pad \<noteq> sbrk_end h then (SBRK_FAILURE, h)
                  else
                    let h = h\<lparr>sbrk_end := pad + word_of_int pad_size\<rparr>;
                        p = p + word_of_int pad_size
                    in (p, if sbrk_start h = 0 then h\<lparr>sbrk_start := p\<rparr> else h)
             else (p, if sbrk_start h = 0 then h\<lparr>sbrk_start := p\<rparr> else h))"

section \<open>free\<close>

text \<open>How the search of \<open>noc_free\<close> ends: at the chunk's left neighbour, at the chunk itself, or at
  the link where it belongs, with the chunk behind it.\<close>

datatype free_exit = Left_Merge addr | Double_Free | Insert link addr

partial_function (option) free_search :: "'e heap \<Rightarrow> link \<Rightarrow> addr \<Rightarrow> free_exit option" where
  "free_search h parent chunk =
     (let prev = deref h parent in
      if prev \<noteq> 0 \<and> prev < chunk then
        if chunk_end (memory h) prev = chunk then Some (Left_Merge prev)
        else if chunk = prev then Some Double_Free
        else free_search h (Next prev) chunk
      else Some (Insert parent prev))"

declare free_search.simps [code]

text \<open>\<open>Right\<close> merge of \<open>chunk\<close> with the free chunk \<open>prev\<close> behind it.\<close>

definition right_merge :: "addr \<Rightarrow> addr \<Rightarrow> 'e heap \<Rightarrow> 'e heap" where
  "right_merge chunk prev h =
     (if chunk_end (memory h) chunk = prev then
        let h = set_size chunk (chunk_size (memory h) chunk + chunk_size (memory h) prev) h
        in set_next chunk (chunk_next (memory h) prev) h
      else h)"

definition noc_free :: "addr \<Rightarrow> 'e heap \<Rightarrow> 'e heap option" where
  "noc_free ptr h =
     (if ptr < sbrk_start h \<or> ptr \<ge> sbrk_end h then Some h
      else
        let chunk = chunk_from_data ptr in
        if chunk_end (memory h) chunk > sbrk_end h then Some h
        else
          let h = set_next chunk 0 h in
          do {
            exit \<leftarrow> free_search h Head chunk;
            Some (case exit of
                Double_Free \<Rightarrow> h
              | Left_Merge prev \<Rightarrow>
                  let h = set_size prev (chunk_size (memory h) prev + chunk_size (memory h) chunk) h
                  in right_merge prev (chunk_next (memory h) prev) h
              | Insert parent prev \<Rightarrow>
                  let h = set_next chunk prev h;
                      h = assign parent chunk h
                  in right_merge chunk prev h)
          })"

definition insert_free_chunk :: "addr \<Rightarrow> u64 \<Rightarrow> 'e heap \<Rightarrow> 'e heap option" where
  "insert_free_chunk c sz h = noc_free (chunk_to_data c) (set_size c sz h)"

section \<open>malloc\<close>

definition chunk_grow ::
  "(int \<Rightarrow> 'e \<Rightarrow> addr \<times> 'e) \<Rightarrow> addr \<Rightarrow> u64 \<Rightarrow> 'e heap \<Rightarrow> (bool \<times> 'e heap) option" where
  "chunk_grow sbrk c new_size h =
     (if c = 0 then Some (False, h)
      else
        let chunk_e = chunk_end (memory h) c in
        if chunk_e \<noteq> sbrk_end h then Some (False, h)
        else
          let add_size = new_size - chunk_size (memory h) c;
              add_size = if add_size < MALLOC_MIN_SIZE then MALLOC_MIN_SIZE else add_size;
              (heap, h) = aligned_sbrk sbrk add_size h
          in if heap = chunk_e then Some (True, set_size c (chunk_size (memory h) c + add_size) h)
             else if heap \<noteq> SBRK_FAILURE
             then do { h \<leftarrow> insert_free_chunk heap add_size h; Some (False, h) }
             else Some (False, h))"

text \<open>
  The search for the smallest sufficient chunk: the least surplus found, the link to its chunk if
  any, and the link where the search ended.
\<close>

partial_function (option) best_fit ::
  "'e heap \<Rightarrow> u64 \<Rightarrow> link \<Rightarrow> u64 \<Rightarrow> link option \<Rightarrow> (u64 \<times> link option \<times> link) option" where
  "best_fit h sz parent min_extra min_parent =
     (let chunk = deref h parent in
      if chunk \<noteq> 0 then
        if chunk_size (memory h) chunk \<ge> sz then
          let extra = chunk_size (memory h) chunk - sz in
          if extra < min_extra then
            if extra < MALLOC_ALIGN then Some (extra, Some parent, parent)
            else best_fit h sz (Next chunk) extra (Some parent)
          else best_fit h sz (Next chunk) min_extra min_parent
        else best_fit h sz (Next chunk) min_extra min_parent
      else Some (min_extra, min_parent, parent))"

declare best_fit.simps [code]

definition noc_malloc ::
  "(int \<Rightarrow> 'e \<Rightarrow> addr \<times> 'e) \<Rightarrow> u64 \<Rightarrow> 'e heap \<Rightarrow> (addr \<times> 'e heap) option" where
  "noc_malloc sbrk sz h =
     (if sz = 0 then Some (0, h)
      else
        let sz = chunk_size_for_data sz in
        do {
          (min_extra, min_parent, parent) \<leftarrow> best_fit h sz Head 0xffffffff None;
          (case min_parent of
             Some min_parent \<Rightarrow>
               let chunk = deref h min_parent;
                   next = chunk_next (memory h) chunk;
                   (sz, h) =
                     if min_extra < MALLOC_MIN_SIZE
                     then (sz + min_extra, assign min_parent (chunk_next (memory h) chunk) h)
                     else
                       let other = chunk + sz in
                       (sz, assign min_parent other (set_next other next (set_size other min_extra h)))
               in Some (chunk_to_data chunk, set_size chunk sz h)
           | None \<Rightarrow> do {
               (grown, h) \<leftarrow> chunk_grow sbrk (deref h parent) sz h;
               if grown then Some (chunk_to_data (deref h parent), h)
               else
                 let (chunk, h) = aligned_sbrk sbrk sz h in
                 if chunk = SBRK_FAILURE then Some (0, h)
                 else Some (chunk_to_data chunk, set_size chunk sz h)
             })
        })"

section \<open>realloc and calloc\<close>

text \<open>
  The search of \<open>noc_realloc\<close> for free chunks next to the one to enlarge, merging those it finds;
  the result is the heap, the chunk, the data pointer and the size reached.
\<close>

partial_function (option) merge_adjacent ::
  "target \<Rightarrow> 'e heap \<Rightarrow> link \<Rightarrow> addr \<Rightarrow> addr \<Rightarrow> addr \<Rightarrow> u64 \<Rightarrow> ('e heap \<times> addr \<times> addr \<times> u64) option" where
  "merge_adjacent t h parent chunk ptr chunk_e old_size =
     (let adjacent = deref h parent in
      if adjacent \<noteq> 0 \<and> adjacent \<le> chunk_e then
        let adjacent_size = chunk_size (memory h) adjacent in
        if chunk_end (memory h) adjacent = chunk then
          let h = assign parent (chunk_next (memory h) adjacent) h in
          do {
            (m, _) \<leftarrow> memmove t (memory h) (chunk_to_data adjacent) (chunk_to_data chunk)
              (chunk_data_size (memory h) chunk);
            let h = h\<lparr>memory := m\<rparr>;
            let old_size = old_size + adjacent_size;
            let h = set_size adjacent old_size h;
            merge_adjacent t h parent adjacent (chunk_to_data adjacent) chunk_e old_size
          }
        else if adjacent = chunk_e then
          let h = assign parent (chunk_next (memory h) adjacent) h;
              old_size = old_size + adjacent_size;
              h = set_size chunk old_size h;
              h = set_size adjacent 0 h;
              h = set_next adjacent 0 h
          in Some (h, chunk, ptr, old_size)
        else merge_adjacent t h (Next adjacent) chunk ptr chunk_e old_size
      else Some (h, chunk, ptr, old_size))"

declare merge_adjacent.simps [code]

definition noc_realloc ::
  "target \<Rightarrow> (int \<Rightarrow> 'e \<Rightarrow> addr \<times> 'e) \<Rightarrow> addr \<Rightarrow> u64 \<Rightarrow> 'e heap \<Rightarrow> (addr \<times> 'e heap) option" where
  "noc_realloc t sbrk ptr sz h =
     (if ptr = 0 then noc_malloc sbrk sz h
      else if sz = 0 then do { h \<leftarrow> noc_free ptr h; Some (0, h) }
      else if ptr < sbrk_start h \<or> ptr > sbrk_end h then Some (0, h)
      else
        let chunk = chunk_from_data ptr;
            chunk_e = chunk_end (memory h) chunk
        in if chunk_e > sbrk_end h then Some (0, h)
        else
          let alloc_size = chunk_size_for_data sz;
              old_size = chunk_size (memory h) chunk
          in do {
            (h, chunk, ptr, old_size) \<leftarrow>
              (if old_size < alloc_size then do {
                 (grown, h) \<leftarrow> chunk_grow sbrk chunk alloc_size h;
                 if grown then Some (h, chunk, ptr, alloc_size)
                 else merge_adjacent t h Head chunk ptr chunk_e old_size
               } else Some (h, chunk, ptr, old_size));
            if old_size \<ge> alloc_size then
              let extra = old_size - alloc_size in
              if extra \<ge> MALLOC_MIN_SIZE then do {
                let h = set_size chunk alloc_size h;
                h \<leftarrow> insert_free_chunk (chunk_end (memory h) chunk) extra h;
                Some (ptr, h)
              }
              else Some (ptr, h)
            else do {
              (new, h) \<leftarrow> noc_malloc sbrk sz h;
              if new \<noteq> 0 then do {
                (m, _) \<leftarrow> memcpy t (memory h) new ptr (chunk_data_size (memory h) chunk);
                h \<leftarrow> noc_free ptr (h\<lparr>memory := m\<rparr>);
                Some (new, h)
              }
              else Some (new, h)
            }
          })"

definition noc_calloc ::
  "(int \<Rightarrow> 'e \<Rightarrow> addr \<times> 'e) \<Rightarrow> u64 \<Rightarrow> u64 \<Rightarrow> 'e heap \<Rightarrow> (addr \<times> 'e heap) option" where
  "noc_calloc sbrk nmemb sz h =
     (if unat nmemb * unat sz \<ge> 2 ^ 64 then Some (0, h)
      else
        let total_size = nmemb * sz in
        do {
          (ptr, h) \<leftarrow> noc_malloc sbrk sz h;
          if ptr \<noteq> 0 then do {
            (m, _) \<leftarrow> memset (memory h) ptr 0 total_size;
            Some (ptr, h\<lparr>memory := m\<rparr>)
          }
          else Some (ptr, h)
        })"

section \<open>The entry points\<close>

definition malloc :: "(int \<Rightarrow> 'e \<Rightarrow> addr \<times> 'e) \<Rightarrow> u64 \<Rightarrow> 'e heap \<Rightarrow> (addr \<times> 'e heap) option" where
  "malloc sbrk sz h = noc_malloc sbrk sz h"

definition realloc ::
  "target \<Rightarrow> (int \<Rightarrow> 'e \<Rightarrow> addr \<times> 'e) \<Rightarrow> addr \<Rightarrow> u64 \<Rightarrow> 'e heap \<Rightarrow> (addr \<times> 'e heap) option" where
  "realloc t sbrk ptr sz h = noc_realloc t sbrk ptr sz h"

definition free :: "addr \<Rightarrow> 'e heap \<Rightarrow> 'e heap option" where
  "free ptr h = noc_free ptr h"

definition calloc :: "(int \<Rightarrow> 'e \<Rightarrow> addr \<times> 'e) \<Rightarrow> u64 \<Rightarrow> u64 \<Rightarrow> 'e heap \<Rightarrow> (addr \<times> 'e heap) option" where
  "calloc sbrk nmemb sz h = noc_calloc sbrk nmemb sz h"

partial_function (option) mem_free_loop :: "mem \<Rightarrow> addr \<Rightarrow> u64 \<Rightarrow> u64 option" where
  "mem_free_loop m chunk count =
     (if chunk \<noteq> 0 then mem_free_loop m (chunk_next m chunk) (count + chunk_size m chunk)
      else Some count)"

declare mem_free_loop.simps [code]

definition mem_free :: "'e heap \<Rightarrow> u64 option" where
  "mem_free h = mem_free_loop (memory h) (head h) 0"

end
