(* ===== verification/Malloc_Heap.thy ===== *)
theory Malloc_Heap
  imports Malloc
begin

text \<open>
  The abstract heap behind the allocator's memory: blocks are pairs of an address and a size, the
  free list is a list of blocks, the allocated chunks are a set of blocks.  Lemmas on what a store
  into one block leaves unchanged in the others, and on paths through the free list.
\<close>

section \<open>Blocks\<close>

type_synonym block = "nat \<times> nat"

definition sep :: "block \<Rightarrow> block \<Rightarrow> bool" where
  "sep x y \<longleftrightarrow> fst x + snd x \<le> fst y \<or> fst y + snd y \<le> fst x"

text \<open>A free block is not adjacent to the next one.\<close>

definition gap :: "block \<Rightarrow> block \<Rightarrow> bool" where
  "gap x y \<longleftrightarrow> fst x + snd x < fst y"

definition good_block :: "nat \<Rightarrow> nat \<Rightarrow> block \<Rightarrow> bool" where
  "good_block lo hi x \<longleftrightarrow> 0 < lo \<and> lo \<le> fst x \<and> fst x + snd x \<le> hi
     \<and> 8 dvd fst x \<and> 8 dvd snd x \<and> 16 \<le> snd x"

text \<open>The bytes of the free list.\<close>

definition area :: "block list \<Rightarrow> nat set" where
  "area xs = (\<Union>x \<in> set xs. {fst x..<fst x + snd x})"

lemma area_simps [simp]:
  "area [] = {}"
  "area (x # xs) = {fst x..<fst x + snd x} \<union> area xs"
  "area (xs @ ys) = area xs \<union> area ys"
  by (auto simp: area_def)

text \<open>A list of blocks with gaps between them is determined by its bytes.\<close>

lemma area_above: "sorted_wrt gap (x # xs) \<Longrightarrow> i \<in> area xs \<Longrightarrow> fst x + snd x < i"
  by (force simp: area_def gap_def)

lemma area_first:
  assumes "sorted_wrt gap (x # xs)" and "sorted_wrt gap (y # ys)" and "0 < snd x"
    and "area (x # xs) \<subseteq> area (y # ys)"
  shows "fst y \<le> fst x"
proof -
  have "fst x \<in> area (x # xs)" using assms(3) by simp
  then have "fst x \<in> area (y # ys)" using assms(4) by blast
  then show ?thesis using area_above [OF assms(2), of "fst x"] by auto
qed

lemma area_size:
  assumes "sorted_wrt gap (x # xs)" and "fst x = fst y" and "area (y # ys) \<subseteq> area (x # xs)"
  shows "snd y \<le> snd x"
proof (rule ccontr)
  assume "\<not> snd y \<le> snd x"
  then have "fst x + snd x \<in> area (y # ys)" using assms(2) by simp
  then have "fst x + snd x \<in> area (x # xs)" using assms(3) by blast
  then show False using area_above [OF assms(1), of "fst x + snd x"] by auto
qed

lemma area_inj:
  "sorted_wrt gap xs \<Longrightarrow> sorted_wrt gap ys \<Longrightarrow> \<forall>x \<in> set xs \<union> set ys. 0 < snd x \<Longrightarrow>
    area xs = area ys \<Longrightarrow> xs = ys"
proof (induction xs arbitrary: ys)
  case Nil
  then show ?case by (cases ys) auto
next
  case (Cons x xs)
  then obtain y ys' where ys: "ys = y # ys'" by (cases ys) auto
  have eq: "area (x # xs) = area (y # ys')" using Cons.prems(4) by (simp add: ys)
  have srt: "sorted_wrt gap (x # xs)" "sorted_wrt gap (y # ys')" using Cons.prems(1,2) by (simp_all add: ys)
  have "0 < snd x" "0 < snd y" using Cons.prems(3) by (simp_all add: ys)
  then have fst: "fst x = fst y"
    using area_first [OF srt(2,1) _ equalityD2 [OF eq]] area_first [OF srt _ equalityD1 [OF eq]] by simp
  moreover have "snd x = snd y"
    using area_size [OF srt(2) fst [symmetric] equalityD1 [OF eq]]
      area_size [OF srt(1) fst equalityD2 [OF eq]] by simp
  ultimately have xy: "x = y" by (rule prod_eqI)
  have "i \<in> area xs \<longleftrightarrow> i \<in> area ys'" for i
  proof -
    have "i \<in> area xs \<longleftrightarrow> i \<in> area (x # xs) \<and> fst x + snd x < i"
      using area_above [OF srt(1), of i] by auto
    moreover have "i \<in> area ys' \<longleftrightarrow> i \<in> area (y # ys') \<and> fst y + snd y < i"
      using area_above [OF srt(2), of i] by auto
    ultimately show ?thesis by (simp del: area_simps add: xy eq [unfolded xy])
  qed
  then have "area xs = area ys'" by blast
  then have "xs = ys'" using Cons.prems(1-3) by (intro Cons.IH) (auto simp: ys)
  then show ?case by (simp add: ys xy)
qed

lemma sep_sym: "sep x y \<longleftrightarrow> sep y x"
  by (auto simp: sep_def)

lemma gap_sep: "gap x y \<Longrightarrow> sep x y \<and> sep y x"
  by (auto simp: sep_def gap_def)

section \<open>Stores and blocks\<close>

text \<open>The bytes of a set of blocks are the same in two memories.\<close>

definition untouched :: "block set \<Rightarrow> mem \<Rightarrow> mem \<Rightarrow> bool" where
  "untouched A m m' \<longleftrightarrow>
     (\<forall>y \<in> A. \<forall>x. fst y \<le> x \<and> x < fst y + snd y \<longrightarrow> m' (of_nat x) = m (of_nat x))"

lemma untouched_refl [simp]: "untouched A m m"
  by (simp add: untouched_def)

lemma untouched_trans: "untouched A m m' \<Longrightarrow> untouched A m' m'' \<Longrightarrow> untouched A m m''"
  by (simp add: untouched_def)

lemma untouched_mono: "untouched A m m' \<Longrightarrow> B \<subseteq> A \<Longrightarrow> untouched B m m'"
  by (auto simp: untouched_def)

lemma untouched_union: "untouched (A \<union> B) m m' \<longleftrightarrow> untouched A m m' \<and> untouched B m m'"
  by (auto simp: untouched_def)

lemma of_nat_apart:
  assumes "x < 2 ^ 64" and "a + 8 \<le> 2 ^ 64" and "x < a \<or> a + 8 \<le> x"
  shows "\<not> (of_nat x - of_nat a :: addr) < 8"
  using assms by (auto simp: word_less_nat_alt unat_sub_if' unat_of_nat_eq)

lemma store64_untouched:
  assumes "\<forall>y \<in> A. sep (a, n) y \<and> fst y + snd y \<le> 2 ^ 64" and "i + 8 \<le> n" and "a + n \<le> 2 ^ 64"
  shows "untouched A m (store64 m (of_nat (a + i)) v)"
  unfolding untouched_def
proof (intro ballI allI impI)
  fix y x assume y: "y \<in> A" "fst y \<le> x \<and> x < fst y + snd y"
  then have "x < 2 ^ 64" "x < a + i \<or> a + i + 8 \<le> x" "a + i + 8 \<le> 2 ^ 64"
    using assms by (force simp: sep_def)+
  from of_nat_apart [OF this(1,3,2)] show "store64 m (of_nat (a + i)) v (of_nat x) = m (of_nat x)"
    by (rule store64_other)
qed

lemma untouched_load:
  assumes "untouched A m m'" and "y \<in> A" and "i + 8 \<le> snd y"
  shows "load64 m' (of_nat (fst y + i)) = load64 m (of_nat (fst y + i))"
proof (rule load64_cong)
  fix j :: nat assume "j < 8"
  then have "fst y \<le> fst y + i + j \<and> fst y + i + j < fst y + snd y" using assms(3) by linarith
  then have "m' (of_nat (fst y + i + j)) = m (of_nat (fst y + i + j))"
    using assms(1,2) unfolding untouched_def by blast
  then show "m' (of_nat (fst y + i) + of_nat j) = m (of_nat (fst y + i) + of_nat j)"
    by (simp add: add.assoc)
qed

text \<open>The two words of a block's header do not overlap.\<close>

lemma load_store_next:
  assumes "a + 16 \<le> 2 ^ 64"
  shows "load64 (store64 m (of_nat a) v) (of_nat (a + 8)) = load64 m (of_nat (a + 8))"
    and "load64 (store64 m (of_nat (a + 8)) v) (of_nat a) = load64 m (of_nat a)"
  using assms
  by (auto intro!: load64_store64_apart simp: apart64_def unat_of_nat_eq simp del: of_nat_add)

section \<open>Paths through the free list\<close>

fun path :: "mem \<Rightarrow> addr \<Rightarrow> block list \<Rightarrow> addr \<Rightarrow> bool" where
  "path m p [] q \<longleftrightarrow> p = q"
| "path m p ((a, n) # xs) q \<longleftrightarrow>
     p = of_nat a \<and> load64 m (of_nat a) = of_nat n \<and> path m (load64 m (of_nat (a + 8))) xs q"

lemma path_append: "path m p (xs @ ys) q \<longleftrightarrow> (\<exists>r. path m p xs r \<and> path m r ys q)"
  by (induction xs arbitrary: p) auto

lemma path_untouched:
  "untouched (set xs) m m' \<Longrightarrow> \<forall>x \<in> set xs. 16 \<le> snd x \<Longrightarrow> path m p xs q \<Longrightarrow> path m' p xs q"
proof (induction xs arbitrary: p)
  case (Cons x xs)
  obtain a n where x: "x = (a, n)" by (cases x)
  have "load64 m' (of_nat (a + i)) = load64 m (of_nat (a + i))" if "i + 8 \<le> n" for i
    using untouched_load [OF Cons.prems(1), of x i] that by (simp add: x)
  from this [of 0] this [of 8]
  have "load64 m' (of_nat a) = load64 m (of_nat a)" "load64 m' (of_nat (a + 8)) = load64 m (of_nat (a + 8))"
    using Cons.prems(2) by (simp_all add: x)
  moreover have "untouched (set xs) m m'" using Cons.prems(1) by (auto intro: untouched_mono)
  ultimately show ?case using Cons by (simp add: x del: of_nat_add)
qed simp

definition ptr_of :: "block list \<Rightarrow> addr" where
  "ptr_of xs = (case xs of [] \<Rightarrow> 0 | x # _ \<Rightarrow> of_nat (fst x))"

lemma ptr_of_simps [simp]: "ptr_of [] = 0" "ptr_of (x # xs) = of_nat (fst x)"
  by (simp_all add: ptr_of_def)

lemma path_ptr: "path m p xs 0 \<Longrightarrow> p = ptr_of xs"
  by (cases xs) auto

text \<open>The link behind a part of the list.\<close>

definition link_of :: "block list \<Rightarrow> link" where
  "link_of xs = (if xs = [] then Head else Next (of_nat (fst (last xs))))"

lemma link_of_simps [simp]:
  "link_of [] = Head"
  "link_of (xs @ [x]) = Next (of_nat (fst x))"
  by (simp_all add: link_of_def)

lemma deref_link: "path (memory h) (head h) xs r \<Longrightarrow> deref h (link_of xs) = r"
  by (cases xs rule: rev_cases)
    (auto simp: deref_def chunk_next_def path_append split: prod.splits)

lemma set_fields [simp]:
  "memory (set_size c v h) = store64 (memory h) c v"
  "head (set_size c v h) = head h"
  "sbrk_start (set_size c v h) = sbrk_start h"
  "sbrk_end (set_size c v h) = sbrk_end h"
  "env (set_size c v h) = env h"
  "errno (set_size c v h) = errno h"
  "memory (set_next c v h) = store64 (memory h) (c + 8) v"
  "head (set_next c v h) = head h"
  "sbrk_start (set_next c v h) = sbrk_start h"
  "sbrk_end (set_next c v h) = sbrk_end h"
  "env (set_next c v h) = env h"
  "errno (set_next c v h) = errno h"
  by (simp_all add: set_size_def set_next_def)

lemma assign_fields [simp]:
  "sbrk_start (assign l v h) = sbrk_start h"
  "sbrk_end (assign l v h) = sbrk_end h"
  "env (assign l v h) = env h"
  "errno (assign l v h) = errno h"
  by (simp_all add: assign_def split: link.split)

text \<open>
  Assigning to the link behind a part of the list redirects the path and changes nothing outside
  that part.
\<close>

lemma assign_link:
  assumes "path (memory h) (head h) xs r" and "sorted_wrt gap xs"
    and "\<forall>x \<in> set xs. 16 \<le> snd x \<and> fst x + snd x \<le> 2 ^ 64"
    and "\<forall>y \<in> A. fst y + snd y \<le> 2 ^ 64 \<and> (\<forall>x \<in> set xs. sep x y)"
  shows "path (memory (assign (link_of xs) v h)) (head (assign (link_of xs) v h)) xs v
    \<and> untouched A (memory h) (memory (assign (link_of xs) v h))"
proof (cases xs rule: rev_cases)
  case Nil
  then show ?thesis by (simp add: assign_def)
next
  case (snoc ys x)
  obtain a n where x: "x = (a, n)" by (cases x)
  have n: "16 \<le> n" "a + n \<le> 2 ^ 64" using assms(3) by (auto simp: snoc x)
  let ?m = "store64 (memory h) (of_nat (a + 8)) v"
  have "\<forall>y \<in> set ys. sep (a, n) y \<and> fst y + snd y \<le> 2 ^ 64"
    using assms(2,3) gap_sep by (auto simp: snoc x sorted_wrt_append)
  then have "untouched (set ys) (memory h) ?m" using n by (intro store64_untouched [of _ _ n]) auto
  moreover have "untouched A (memory h) ?m"
    using n assms(4) by (intro store64_untouched [of _ _ n]) (auto simp: snoc x)
  moreover have "load64 ?m (of_nat a) = load64 (memory h) (of_nat a)"
    using n by (intro load_store_next) simp
  ultimately show ?thesis
    using assms(1,3) path_untouched [of ys "memory h" ?m]
    by (auto simp: snoc x assign_def path_append)
qed

end
