(* ===== verification/Malloc_Inv.thy ===== *)
theory Malloc_Inv
  imports Malloc_Heap
begin

text \<open>
  The invariant of the allocator and the searches against it: allocated blocks are disjoint
  from each other and from the free list, free blocks are sorted by address and never adjacent.
\<close>

section \<open>The platform\<close>

text \<open>
  What \<open>unistd.h\<close> says of \<open>sbrk\<close> for an increment that is not negative, \<open>brk\<close> being the break as a
  function of the platform's state: it returns the previous break and moves the break up, within
  the lower half of the address space, or returns -1 and leaves the break alone.
\<close>

definition documented_sbrk :: "(int \<Rightarrow> 'e \<Rightarrow> addr \<times> 'e) \<Rightarrow> ('e \<Rightarrow> addr) \<Rightarrow> bool" where
  "documented_sbrk sbrk brk \<longleftrightarrow>
     (\<forall>incr e. 0 \<le> incr \<longrightarrow>
        (fst (sbrk incr e) = SBRK_FAILURE \<and> brk (snd (sbrk incr e)) = brk e)
        \<or> (fst (sbrk incr e) = brk e
           \<and> unat (brk (snd (sbrk incr e))) = unat (brk e) + nat incr
           \<and> unat (brk (snd (sbrk incr e))) < 2 ^ 63))"

section \<open>The invariant\<close>

definition blocks_ok :: "nat \<Rightarrow> nat \<Rightarrow> block list \<Rightarrow> block set \<Rightarrow> bool" where
  "blocks_ok lo hi fl A \<longleftrightarrow>
     sorted_wrt gap fl \<and> (\<forall>x \<in> set fl \<union> A. good_block lo hi x)
     \<and> (\<forall>x \<in> A. \<forall>y \<in> A. x \<noteq> y \<longrightarrow> sep x y) \<and> (\<forall>x \<in> A. \<forall>y \<in> set fl. sep x y)"

definition limits_ok :: "('e \<Rightarrow> addr) \<Rightarrow> 'e heap \<Rightarrow> bool" where
  "limits_ok brk h \<longleftrightarrow>
     unat (sbrk_start h) \<le> unat (sbrk_end h) \<and> unat (sbrk_end h) \<le> unat (brk (env h))
     \<and> unat (brk (env h)) < 2 ^ 63 \<and> 0 < unat (brk (env h))"

definition heap_ok :: "('e \<Rightarrow> addr) \<Rightarrow> 'e heap \<Rightarrow> block list \<Rightarrow> block set \<Rightarrow> bool" where
  "heap_ok brk h fl A \<longleftrightarrow>
     path (memory h) (head h) fl 0
     \<and> blocks_ok (unat (sbrk_start h)) (unat (sbrk_end h)) fl A
     \<and> (\<forall>x \<in> A. load64 (memory h) (of_nat (fst x)) = of_nat (snd x))
     \<and> limits_ok brk h"

lemma good_bounds:
  "good_block lo hi x \<Longrightarrow> hi < 2 ^ 63 \<Longrightarrow>
    0 < fst x \<and> fst x + snd x < 2 ^ 63 \<and> 16 \<le> snd x \<and> fst x + snd x \<le> 2 ^ 64"
  by (auto simp: good_block_def)

lemma limits_end: "limits_ok brk h \<Longrightarrow> unat (sbrk_end h) < 2 ^ 63"
  by (auto simp: limits_ok_def)

section \<open>Growing the heap\<close>

lemma intptr_rem_low: "unat p < 2 ^ 63 \<Longrightarrow> intptr_rem p 8 = int (unat p mod 8)"
proof -
  assume "unat p < 2 ^ 63"
  then have "sint p = int (unat p)" by (intro sint_small) simp
  then show ?thesis by (simp add: intptr_rem_def zmod_int)
qed

lemma word_of_int_of_nat: "(word_of_int (int n) :: addr) = of_nat n"
  by simp

lemma aligned_sbrk_spec:
  assumes "documented_sbrk sbrk brk" and "limits_ok brk h"
  shows "\<exists>p h'. aligned_sbrk sbrk n h = (p, h') \<and> memory h' = memory h \<and> head h' = head h
    \<and> unat (sbrk_end h) \<le> unat (sbrk_end h') \<and> limits_ok brk h'
    \<and> (p = SBRK_FAILURE \<and> sbrk_start h' = sbrk_start h
       \<or> p \<noteq> SBRK_FAILURE \<and> 8 dvd unat p \<and> unat (sbrk_end h) \<le> unat p \<and> 0 < unat p
         \<and> unat p + unat n \<le> unat (sbrk_end h')
         \<and> sbrk_start h' = (if sbrk_start h = 0 then p else sbrk_start h))"
proof (cases "n > INTPTR_MAX")
  case True
  then show ?thesis using assms(2) by (simp add: aligned_sbrk_def)
next
  case False
  let ?b = "unat (brk (env h))"
  have lim: "unat (sbrk_start h) \<le> unat (sbrk_end h)" "unat (sbrk_end h) \<le> ?b" "?b < 2 ^ 63" "0 < ?b"
    using assms(2) by (simp_all add: limits_ok_def)
  obtain p e1 where s1: "sbrk (uint n) (env h) = (p, e1)" by (cases "sbrk (uint n) (env h)")
  have fail: "unat SBRK_FAILURE = 2 ^ 64 - 1" by (simp add: SBRK_FAILURE_def unsigned_minus_1_eq_mask mask_eq_exp_minus_1)
  have d1: "p = SBRK_FAILURE \<and> brk e1 = brk (env h)
      \<or> p = brk (env h) \<and> unat (brk e1) = ?b + unat n \<and> unat (brk e1) < 2 ^ 63"
    using assms(1) [unfolded documented_sbrk_def, rule_format, of "uint n" "env h"] s1
    by auto
  show ?thesis
  proof (cases "p = SBRK_FAILURE")
    case True
    with d1 fail lim(3) have "brk e1 = brk (env h)" by auto
    then show ?thesis using False True s1 lim by (auto simp: aligned_sbrk_def limits_ok_def)
  next
    case ok: False
    then have p: "brk (env h) = p" "unat (brk e1) = unat p + unat n" "unat (brk e1) < 2 ^ 63"
      using d1 by auto
    have top: "unat (p + n) = unat p + unat n" using p by (intro unat_add_fits) simp
    then have e1: "p + n = brk e1" using p(2) by (simp add: word_unat_eq_iff)
    have rem: "intptr_rem p 8 = int (unat p mod 8)" using lim(3) p(1) by (intro intptr_rem_low) simp
    show ?thesis
    proof (cases "unat p mod 8 = 0")
      case True
      then have "8 dvd unat p" by (simp add: mod_eq_0_iff_dvd)
      then show ?thesis
        using False ok s1 rem True lim p top
        by (auto simp: aligned_sbrk_def limits_ok_def Let_def e1)
    next
      case unaligned: False
      define k where "k = 8 - unat p mod 8"
      have k: "0 < k" "k < 8" "8 dvd unat p + k" using unaligned by (simp_all add: k_def) presburger+
      have pad: "8 - intptr_rem p 8 = int k" by (simp add: rem k_def)
      obtain q e2 where s2: "sbrk (int k) e1 = (q, e2)" by (cases "sbrk (int k) e1")
      have d2: "q = SBRK_FAILURE \<and> brk e2 = brk e1
          \<or> q = brk e1 \<and> unat (brk e2) = unat (brk e1) + k \<and> unat (brk e2) < 2 ^ 63"
        using assms(1) [unfolded documented_sbrk_def, rule_format, of "int k" e1] s2 by auto
      show ?thesis
      proof (cases "q = brk e1")
        case True
        then have e2: "unat (brk e2) = unat p + unat n + k" "unat (brk e2) < 2 ^ 63"
          using d2 fail p by auto
        then have up: "unat (p + of_nat k) = unat p + k" "unat (brk e1 + of_nat k) = unat (brk e1) + k"
          using p by (simp_all add: unat_add_of_nat)
        have "p + of_nat k \<noteq> SBRK_FAILURE" using up(1) e2 fail by auto
        then show ?thesis
          using False ok s1 s2 rem unaligned pad True lim p up e2 k
          by (auto simp: aligned_sbrk_def limits_ok_def Let_def e1)
      next
        case q: False
        then show ?thesis
          using False ok s1 s2 rem unaligned pad d2 lim p
          by (auto simp: aligned_sbrk_def limits_ok_def Let_def e1)
      qed
    qed
  qed
qed

section \<open>malloc\<close>

lemma blocks_ok_bounds:
  "blocks_ok lo hi fl A \<Longrightarrow> hi < 2 ^ 63 \<Longrightarrow>
    \<forall>x \<in> set fl \<union> A. 0 < fst x \<and> fst x + snd x < 2 ^ 63 \<and> 16 \<le> snd x"
  unfolding blocks_ok_def using good_bounds by blast

lemma block_words:
  "fst x + snd x < 2 ^ 63 \<Longrightarrow> 0 < fst x \<Longrightarrow>
    unat (of_nat (fst x) :: addr) = fst x \<and> unat (of_nat (snd x) :: u64) = snd x \<and> (of_nat (fst x) :: addr) \<noteq> 0"
  by (auto simp: unat_of_nat_eq word_unat_eq_iff)

text \<open>
  The search ends, with the link of a sufficient block and its surplus or, when no sufficient block
  has less surplus than the start value, with the link at the end of the list.
\<close>

definition found :: "block list \<Rightarrow> u64 \<Rightarrow> u64 \<Rightarrow> link option \<Rightarrow> bool" where
  "found fl s e mp \<longleftrightarrow>
     (\<exists>zs b ws. fl = zs @ b # ws \<and> mp = Some (link_of zs) \<and> unat s + unat e = snd b)"

definition least_surplus :: "block set \<Rightarrow> u64 \<Rightarrow> u64 \<Rightarrow> bool" where
  "least_surplus B s e \<longleftrightarrow> (\<forall>b \<in> B. unat s \<le> snd b \<longrightarrow> unat s + unat e \<le> snd b)"

lemma foundI: "unat s + unat e = snd b \<Longrightarrow> found (zs @ b # ws) s e (Some (link_of zs))"
  unfolding found_def by blast

lemma best_fit_spec:
  assumes "\<forall>x \<in> set (xs @ ys). 0 < fst x \<and> fst x + snd x < 2 ^ 63"
    and "path (memory h) (head h) xs (ptr_of ys)" and "path (memory h) (ptr_of ys) ys 0"
  shows "\<exists>e mp l. best_fit h s (link_of xs) me mp0 = Some (e, mp, l)
    \<and> (mp = mp0 \<and> e = me \<and> l = link_of (xs @ ys) \<or> found (xs @ ys) s e mp \<and> e < me)
    \<and> (least_surplus (set ys) s e \<or> e < MALLOC_ALIGN)"
  using assms
proof (induction ys arbitrary: xs me mp0)
  case Nil
  have "deref h (link_of xs) = 0" using Nil.prems(2) deref_link by fastforce
  then show ?case by (subst best_fit.simps) (simp add: Let_def least_surplus_def)
next
  case (Cons b ys)
  obtain a n where b: "b = (a, n)" by (cases b)
  have w: "unat (of_nat a :: addr) = a" "unat (of_nat n :: u64) = n" "(of_nat a :: addr) \<noteq> 0"
    using Cons.prems(1) block_words [of b] by (simp_all add: b)
  have at: "deref h (link_of xs) = of_nat a" using deref_link [OF Cons.prems(2)] by (simp add: b)
  have sz: "chunk_size (memory h) (of_nat a) = of_nat n"
    using Cons.prems(3) by (simp add: b chunk_size_def)
  have rest: "path (memory h) (head h) (xs @ [b]) (ptr_of ys)" "path (memory h) (ptr_of ys) ys 0"
    using Cons.prems(2,3) path_ptr by (auto simp: b path_append)
  have link: "Next (of_nat a) = link_of (xs @ [b])" by (simp add: b)
  note IH = Cons.IH [of "xs @ [b]", OF _ rest, simplified append_assoc append.simps, OF Cons.prems(1)]
  define go where "go = (\<lambda>me mp. best_fit h s (link_of (xs @ [b])) me mp)"
  define extra where "extra = (of_nat n :: u64) - s"
  have step: "best_fit h s (link_of xs) me mp0 =
      (if of_nat n \<ge> s then
         if extra < me then
           if extra < MALLOC_ALIGN then Some (extra, Some (link_of xs), link_of xs)
           else go extra (Some (link_of xs))
         else go me mp0
       else go me mp0)"
    unfolding go_def extra_def by (subst best_fit.simps) (simp only: at sz w Let_def link simp_thms if_True)
  have least: "least_surplus (set ys) s e \<Longrightarrow> (unat s \<le> n \<Longrightarrow> unat s + unat e \<le> n) \<Longrightarrow>
      least_surplus (set (b # ys)) s e" for e
    by (auto simp: least_surplus_def b)
  obtain e mp l where go: "go me mp0 = Some (e, mp, l)"
      "mp = mp0 \<and> e = me \<and> l = link_of (xs @ b # ys) \<or> found (xs @ b # ys) s e mp \<and> e < me"
      "least_surplus (set ys) s e \<or> e < MALLOC_ALIGN"
    using IH [of me mp0] unfolding go_def by blast
  have le: "unat e \<le> unat me" using go(2) by (auto simp: word_less_nat_alt)
  show ?case
  proof (cases "s \<le> of_nat n")
    case False
    then have "\<not> unat s \<le> n" using w by (simp add: word_le_nat_alt)
    then show ?thesis using go least False unfolding step by auto
  next
    case True
    then have ns: "unat s + unat extra = n" using w by (simp add: extra_def word_le_nat_alt unat_sub_fits)
    show ?thesis
    proof (cases "extra < me")
      case False
      then have "unat s + unat e \<le> n" using le ns by (simp add: word_less_nat_alt)
      then show ?thesis using go least [of e] False True unfolding step by auto
    next
      case less: True
      have here: "found (xs @ b # ys) s extra (Some (link_of xs))" using ns by (simp add: foundI b)
      show ?thesis
      proof (cases "extra < MALLOC_ALIGN")
        case True
        then show ?thesis using less here \<open>s \<le> of_nat n\<close> unfolding step by auto
      next
        case False
        obtain e mp l where go: "go extra (Some (link_of xs)) = Some (e, mp, l)"
            "mp = Some (link_of xs) \<and> e = extra \<and> l = link_of (xs @ b # ys)
              \<or> found (xs @ b # ys) s e mp \<and> e < extra"
            "least_surplus (set ys) s e \<or> e < MALLOC_ALIGN"
          using IH [of extra "Some (link_of xs)"] unfolding go_def by blast
        have "unat e \<le> unat extra" "e < me" using go(2) less by (auto simp: word_less_nat_alt)
        then show ?thesis using go least [of e] here False True less ns unfolding step by auto
      qed
    qed
  qed
qed

subsection \<open>Blocks taken, split and added\<close>

lemma sep_insert:
  assumes "\<forall>x \<in> A. \<forall>y \<in> A. x \<noteq> y \<longrightarrow> sep x y" and "\<forall>x \<in> A. sep b x"
  shows "\<forall>x \<in> insert b A. \<forall>y \<in> insert b A. x \<noteq> y \<longrightarrow> sep x y"
  using assms sep_sym by blast

lemma blocks_ok_at:
  assumes "blocks_ok lo hi (zs @ b # ws) A"
  shows "good_block lo hi b" and "\<forall>x \<in> A. sep b x" and "\<forall>x \<in> set zs. gap x b" and "\<forall>x \<in> set ws. gap b x"
    and "\<forall>x \<in> set zs \<union> set ws \<union> A. sep b x"
proof -
  show gb: "good_block lo hi b" using assms by (simp add: blocks_ok_def)
  have s: "\<forall>x \<in> A. sep x b" using assms by (simp add: blocks_ok_def)
  then show sA: "\<forall>x \<in> A. sep b x" using sep_sym by blast
  show gz: "\<forall>x \<in> set zs. gap x b" and gw: "\<forall>x \<in> set ws. gap b x"
    using assms by (simp_all add: blocks_ok_def sorted_wrt_append)
  show "\<forall>x \<in> set zs \<union> set ws \<union> A. sep b x" using sA gz gw gap_sep by blast
qed

lemma blocks_ok_good: "blocks_ok lo hi fl A \<Longrightarrow> x \<in> set fl \<union> A \<Longrightarrow> good_block lo hi x"
  by (simp add: blocks_ok_def)

lemma blocks_ok_sep:
  assumes "blocks_ok lo hi fl A" and "x \<in> A" and "y \<in> set fl"
  shows "sep x y" and "sep y x"
proof -
  show "sep x y" using assms by (simp add: blocks_ok_def)
  then show "sep y x" using sep_sym by blast
qed

lemma blocks_ok_take:
  assumes "blocks_ok lo hi (zs @ b # ws) A"
  shows "blocks_ok lo hi (zs @ ws) (insert b A)"
  using assms sep_insert [of A b] blocks_ok_at [OF assms]
  by (auto simp: blocks_ok_def sorted_wrt_append)

lemma blocks_ok_split:
  assumes "blocks_ok lo hi (zs @ (a, n) # ws) A" and "8 dvd s" and "16 \<le> s" and "s + 16 \<le> n"
  shows "blocks_ok lo hi (zs @ (a + s, n - s) # ws) (insert (a, s) A)"
proof -
  note at = blocks_ok_at [OF assms(1)]
  have old: "sorted_wrt gap (zs @ (a, n) # ws)" "\<forall>x \<in> set zs \<union> set ws \<union> A. good_block lo hi x"
      "\<forall>x \<in> A. \<forall>y \<in> A. x \<noteq> y \<longrightarrow> sep x y" "\<forall>x \<in> A. \<forall>y \<in> set zs \<union> set ws. sep x y"
    using assms(1) by (auto simp: blocks_ok_def)
  have left: "sep (a, s) x \<and> sep (a + s, n - s) x" if "sep (a, n) x" for x
    using that assms(3,4) by (auto simp: sep_def)
  have set: "set (zs @ (a + s, n - s) # ws) = insert (a + s, n - s) (set zs \<union> set ws)" by auto
  have good: "good_block lo hi (a, s)" "good_block lo hi (a + s, n - s)"
    using at(1) assms(2-4) by (auto simp: good_block_def)
  have self: "sep (a, s) (a + s, n - s)" by (simp add: sep_def)
  have others: "\<forall>x \<in> A. sep x (a + s, n - s)" using at(2) left sep_sym by blast
  have "\<forall>x \<in> set zs \<union> set ws. sep (a, s) x" using at(5) left by blast
  then have "\<forall>x \<in> insert (a, s) A. \<forall>y \<in> set (zs @ (a + s, n - s) # ws). sep x y"
    unfolding set using self others old(4) by blast
  moreover have "\<forall>x \<in> set (zs @ (a + s, n - s) # ws) \<union> insert (a, s) A. good_block lo hi x"
    unfolding set using good old(2) by blast
  moreover have "\<forall>x \<in> insert (a, s) A. \<forall>y \<in> insert (a, s) A. x \<noteq> y \<longrightarrow> sep x y"
    using old(3) at(2) left by (intro sep_insert) blast+
  moreover have "sorted_wrt gap (zs @ (a + s, n - s) # ws)"
    using old(1) assms(4) by (auto simp: sorted_wrt_append gap_def)
  ultimately show ?thesis unfolding blocks_ok_def by blast
qed

lemma good_block_grow: "good_block lo hi x \<Longrightarrow> hi \<le> hi' \<Longrightarrow> good_block lo hi' x"
  by (simp add: good_block_def)

lemma blocks_ok_grow: "blocks_ok lo hi fl A \<Longrightarrow> hi \<le> hi' \<Longrightarrow> blocks_ok lo hi' fl A"
proof -
  assume ok: "blocks_ok lo hi fl A" and le: "hi \<le> hi'"
  have "\<forall>x \<in> set fl \<union> A. good_block lo hi' x"
    using ok good_block_grow [OF _ le] unfolding blocks_ok_def by blast
  then show ?thesis using ok unfolding blocks_ok_def by simp
qed

lemma blocks_ok_empty: "blocks_ok 0 hi fl A \<Longrightarrow> fl = [] \<and> A = {}"
  by (cases fl) (auto simp: blocks_ok_def good_block_def)

lemma blocks_ok_add:
  assumes "blocks_ok lo hi fl A" and "hi \<le> p" and "p + n \<le> hi'" and "8 dvd p" and "8 dvd n"
    and "16 \<le> n" and "0 < p" and "lo' = (if lo = 0 then p else lo)" and "lo \<le> hi"
  shows "blocks_ok lo' hi' fl (insert (p, n) A)"
proof (cases "lo = 0")
  case True
  then show ?thesis using blocks_ok_empty [of hi fl A] assms by (auto simp: blocks_ok_def good_block_def)
next
  case False
  have lo: "lo' = lo" "0 < lo" using False assms(8) by simp_all
  have s: "sep (p, n) x" if "good_block lo hi x" for x
    using that assms(2) by (auto simp: sep_def good_block_def)
  have "good_block lo hi' (p, n)" using assms lo by (auto simp: good_block_def)
  moreover have "blocks_ok lo hi' fl A" using assms(2,3) by (intro blocks_ok_grow [OF assms(1)]) simp
  ultimately show ?thesis
    using assms(1) s sep_insert [of A "(p, n)"] lo(1) by (auto simp: blocks_ok_def)
qed

subsection \<open>The size of a chunk\<close>

lemma chunk_size_for_data_spec:
  assumes "0 < unat n" and "unat n \<le> 2 ^ 64 - 16"
  shows "8 dvd unat (chunk_size_for_data n)" and "16 \<le> unat (chunk_size_for_data n)"
    and "unat n + 8 \<le> unat (chunk_size_for_data n)" and "unat (chunk_size_for_data n) < unat n + 16"
proof -
  define r where "r = unat n mod 8"
  have r: "r < 8" "8 dvd unat n - r" "r \<le> unat n" by (simp_all add: r_def minus_mod_eq_mult_div)
  have pad: "unat (n mod MALLOC_ALIGN) = r" by (simp add: unat_mod MALLOC_ALIGN_def r_def)
  have "unat (chunk_size_for_data n) = unat n + (if r = 0 then 0 else 8 - r) + 8"
  proof (cases "r = 0")
    case True
    then have "n mod MALLOC_ALIGN = 0" using pad by (simp add: unat_eq_zero)
    then show ?thesis using True assms(2) by (simp add: chunk_size_for_data_def unat_add_fits)
  next
    case False
    then have "n mod MALLOC_ALIGN \<noteq> 0" using pad by (auto simp: unat_eq_zero [symmetric])
    moreover have "unat (MALLOC_ALIGN - n mod MALLOC_ALIGN) = 8 - r"
      using pad r(1) by (simp add: unat_sub_fits MALLOC_ALIGN_def)
    moreover have "unat n + (8 - r) + 8 < 2 ^ 64" using assms(2) False by simp
    ultimately show ?thesis using False by (simp add: chunk_size_for_data_def unat_add_fits)
  qed
  moreover have "8 dvd unat n + (if r = 0 then 0 else 8 - r) + 8" "8 \<le> unat n + (if r = 0 then 0 else 8 - r)"
    using r assms(1) by (simp_all add: r_def) presburger+
  ultimately show "8 dvd unat (chunk_size_for_data n)" "16 \<le> unat (chunk_size_for_data n)"
      "unat n + 8 \<le> unat (chunk_size_for_data n)" "unat (chunk_size_for_data n) < unat n + 16"
    using r(1) by auto
qed

end
