(* ===== verification/Malloc_Alloc.thy ===== *)
theory Malloc_Alloc
  imports Malloc_Inv
begin

text \<open>
  \<open>malloc\<close> keeps the invariant of the heap: the block it returns is new, aligned, large enough and
  disjoint from every other one, and no byte of an allocated block changes.
\<close>

section \<open>Taking a block from the free list\<close>

lemma block_store:
  assumes "blocks_ok lo hi (zs @ (a, n) # ws) A" and "hi < 2 ^ 63" and "i + 8 \<le> n"
  shows "untouched (set zs \<union> set ws \<union> A) m (store64 m (of_nat (a + i)) v)"
proof -
  have "fst y + snd y \<le> 2 ^ 64" if "y \<in> set (zs @ (a, n) # ws) \<union> A" for y
    using good_bounds [OF blocks_ok_good [OF assms(1) that] assms(2)] by simp
  from this [of "(a, n)"] this
  have "\<forall>y \<in> set zs \<union> set ws \<union> A. fst y + snd y \<le> 2 ^ 64" "a + n \<le> 2 ^ 64" by auto
  then show ?thesis using blocks_ok_at(5) [OF assms(1)] assms(3) by (intro store64_untouched) auto
qed

lemma block_assign:
  assumes "blocks_ok lo hi (zs @ b # ws) A" and "hi < 2 ^ 63" and "path (memory h) (head h) zs r"
  shows "path (memory (assign (link_of zs) v h)) (head (assign (link_of zs) v h)) zs v
    \<and> untouched (insert b (set ws \<union> A)) (memory h) (memory (assign (link_of zs) v h))"
proof (rule assign_link [OF assms(3)])
  note at = blocks_ok_at [OF assms(1)]
  have bnd: "fst x + snd x \<le> 2 ^ 64 \<and> 16 \<le> snd x" if "x \<in> insert b (set zs \<union> set ws \<union> A)" for x
  proof -
    have "good_block lo hi x" using that assms(1) by (auto simp: blocks_ok_def)
    from good_bounds [OF this assms(2)] show ?thesis by simp
  qed
  show "sorted_wrt gap zs" using assms(1) by (simp add: blocks_ok_def sorted_wrt_append)
  show "\<forall>x \<in> set zs. 16 \<le> snd x \<and> fst x + snd x \<le> 2 ^ 64" using bnd by blast
  have "sep x y" if "y \<in> set ws" "x \<in> set zs" for x y
    using that assms(1) gap_sep by (auto simp: blocks_ok_def sorted_wrt_append)
  moreover have "sep x y" if "y \<in> A" "x \<in> set zs" for x y
    using blocks_ok_sep(2) [OF assms(1) that(1)] that(2) by simp
  moreover have "sep x b" if "x \<in> set zs" for x using that at(3) gap_sep by blast
  ultimately show "\<forall>y \<in> insert b (set ws \<union> A). fst y + snd y \<le> 2 ^ 64 \<and> (\<forall>x \<in> set zs. sep x y)"
    using bnd by blast
qed

lemma blocks_16: "blocks_ok lo hi fl A \<Longrightarrow> \<forall>x \<in> set fl \<union> A. 16 \<le> snd x"
  by (auto simp: blocks_ok_def good_block_def)

text \<open>The whole block.\<close>

lemma take_whole:
  assumes ok: "heap_ok brk h (zs @ (a, n) # ws) A"
  defines "h' \<equiv> set_size (of_nat a) (of_nat n) (assign (link_of zs) (ptr_of ws) h)"
  shows "heap_ok brk h' (zs @ ws) (insert (a, n) A) \<and> untouched A (memory h) (memory h')"
proof -
  let ?lo = "unat (sbrk_start h)" and ?hi = "unat (sbrk_end h)"
  have b: "blocks_ok ?lo ?hi (zs @ (a, n) # ws) A" and lim: "limits_ok brk h"
    and p: "path (memory h) (head h) (zs @ (a, n) # ws) 0"
    and sizes: "\<forall>x \<in> A. load64 (memory h) (of_nat (fst x)) = of_nat (snd x)"
    using ok by (simp_all add: heap_ok_def)
  have hi: "?hi < 2 ^ 63" by (rule limits_end [OF lim])
  obtain r where zs: "path (memory h) (head h) zs r" and ws: "path (memory h) (ptr_of ws) ws 0"
    using p path_ptr by (auto simp: path_append)
  define h1 where "h1 = assign (link_of zs) (ptr_of ws) h"
  have 1: "path (memory h1) (head h1) zs (ptr_of ws)" "untouched (insert (a, n) (set ws \<union> A)) (memory h) (memory h1)"
    using block_assign [OF b hi zs, of "ptr_of ws"] by (simp_all add: h1_def)
  have n: "16 \<le> n" using blocks_16 [OF b] by simp
  then have 2: "untouched (set zs \<union> set ws \<union> A) (memory h1) (memory h')"
    using block_store [OF b hi, of 0 "memory h1" "of_nat n"] by (simp add: h'_def h1_def)
  have u: "untouched (set ws \<union> A) (memory h) (memory h')"
    using untouched_trans [OF untouched_mono [OF 1(2)] untouched_mono [OF 2]] by blast
  have m16: "\<forall>x \<in> set zs. 16 \<le> snd x" "\<forall>x \<in> set ws. 16 \<le> snd x" "\<forall>x \<in> A. 16 \<le> snd x"
    using blocks_16 [OF b] by auto
  have "path (memory h') (head h1) zs (ptr_of ws)"
    using path_untouched [OF untouched_mono [OF 2] m16(1) 1(1)] by blast
  moreover have "path (memory h') (ptr_of ws) ws 0"
    using path_untouched [OF untouched_mono [OF u] m16(2) ws] by blast
  ultimately have "path (memory h') (head h') (zs @ ws) 0"
    by (auto simp: path_append h'_def h1_def)
  moreover have "load64 (memory h') (of_nat (fst x)) = of_nat (snd x)" if "x \<in> A" for x
    using untouched_load [OF untouched_mono [OF u] that, of 0] that sizes m16(3) by auto
  moreover have "load64 (memory h') (of_nat a) = of_nat n" by (simp add: h'_def)
  ultimately show ?thesis
    using blocks_ok_take [OF b] lim untouched_mono [OF u]
    by (auto simp: heap_ok_def h'_def limits_ok_def)
qed

text \<open>The front of a block, the rest staying free.\<close>

lemma take_front:
  assumes ok: "heap_ok brk h (zs @ (a, n) # ws) A" and s: "8 dvd s" "16 \<le> s" "s + 16 \<le> n"
  defines "h' \<equiv> set_size (of_nat a) (of_nat s) (assign (link_of zs) (of_nat (a + s))
    (set_next (of_nat (a + s)) (ptr_of ws) (set_size (of_nat (a + s)) (of_nat (n - s)) h)))"
  shows "heap_ok brk h' (zs @ (a + s, n - s) # ws) (insert (a, s) A) \<and> untouched A (memory h) (memory h')"
proof -
  let ?lo = "unat (sbrk_start h)" and ?hi = "unat (sbrk_end h)"
  have b: "blocks_ok ?lo ?hi (zs @ (a, n) # ws) A" and lim: "limits_ok brk h"
    and p: "path (memory h) (head h) (zs @ (a, n) # ws) 0"
    and sizes: "\<forall>x \<in> A. load64 (memory h) (of_nat (fst x)) = of_nat (snd x)"
    using ok by (simp_all add: heap_ok_def)
  have hi: "?hi < 2 ^ 63" by (rule limits_end [OF lim])
  obtain r where zs: "path (memory h) (head h) zs r" and ws: "path (memory h) (ptr_of ws) ws 0"
    using p path_ptr by (auto simp: path_append)
  have an: "a + n < 2 ^ 63" using blocks_ok_at(1) [OF b] good_bounds [OF _ hi] by force
  let ?m1 = "store64 (memory h) (of_nat (a + s)) (of_nat (n - s))"
  let ?m2 = "store64 ?m1 (of_nat (a + (s + 8))) (ptr_of ws)"
  define h2 where "h2 = set_next (of_nat (a + s)) (ptr_of ws) (set_size (of_nat (a + s)) (of_nat (n - s)) h)"
  have mem2: "memory h2 = ?m2" "head h2 = head h" by (simp_all add: h2_def add.assoc)
  define h3 where "h3 = assign (link_of zs) (of_nat (a + s)) h2"
  have h': "memory h' = store64 (memory h3) (of_nat (a + 0)) (of_nat s)" "head h' = head h3"
    by (simp_all add: h'_def h3_def h2_def)
  have m16: "\<forall>x \<in> set zs. 16 \<le> snd x" "\<forall>x \<in> set ws. 16 \<le> snd x" "\<forall>x \<in> A. 16 \<le> snd x"
    using blocks_16 [OF b] by auto
  have 2: "untouched (set zs \<union> set ws \<union> A) (memory h) (memory h2)" unfolding mem2
    using s by (intro untouched_trans [OF block_store [OF b hi] block_store [OF b hi]]) simp_all
  have "path (memory h2) (head h2) zs r"
    unfolding mem2(2) by (rule path_untouched [OF untouched_mono [OF 2] m16(1) zs]) blast
  from block_assign [OF b hi this, of "of_nat (a + s)"]
  have 3: "path (memory h3) (head h3) zs (of_nat (a + s))"
      "untouched (insert (a, n) (set ws \<union> A)) (memory h2) (memory h3)"
    by (simp_all add: h3_def)
  have 4: "untouched (set zs \<union> set ws \<union> A) (memory h3) (memory h')"
    unfolding h' using s by (intro block_store [OF b hi]) simp
  have u: "untouched (set ws \<union> A) (memory h) (memory h')"
    by (rule untouched_trans [OF untouched_mono [OF 2] untouched_trans [OF untouched_mono [OF 3(2)] untouched_mono [OF 4]]])
      auto
  have keep: "load64 (memory h') (of_nat (a + i)) = load64 (memory h2) (of_nat (a + i))"
    if "8 \<le> i" "i + 8 \<le> n" for i
  proof -
    have "load64 (memory h') (of_nat (a + i)) = load64 (memory h3) (of_nat (a + i))"
      unfolding h' using that an
      by (intro load64_store64_apart) (auto simp: apart64_def unat_of_nat_eq simp del: of_nat_add)
    also have "\<dots> = load64 (memory h2) (of_nat (a + i))"
      using untouched_load [OF 3(2), of "(a, n)" i] that by simp
    finally show ?thesis .
  qed
  have rest: "load64 (memory h') (of_nat (a + s)) = of_nat (n - s)"
      "load64 (memory h') (of_nat (a + s + 8)) = ptr_of ws"
    using keep [of s] keep [of "s + 8"] s an load_store_next(2) [of "a + s" ?m1 "ptr_of ws"]
    by (simp_all add: mem2 add.assoc del: of_nat_add)
  have "path (memory h') (head h') zs (of_nat (a + s))"
    unfolding h'(2) by (rule path_untouched [OF untouched_mono [OF 4] m16(1) 3(1)]) blast
  moreover have "path (memory h') (ptr_of ws) ws 0"
    by (rule path_untouched [OF untouched_mono [OF u] m16(2) ws]) blast
  ultimately have "path (memory h') (head h') (zs @ (a + s, n - s) # ws) 0"
    using rest by (auto simp: path_append simp del: of_nat_add)
  moreover have "load64 (memory h') (of_nat (fst x)) = of_nat (snd x)" if "x \<in> A" for x
    using untouched_load [OF untouched_mono [OF u] that, of 0] that sizes m16(3) by auto
  moreover have "load64 (memory h') (of_nat a) = of_nat s" by (simp add: h')
  ultimately show ?thesis
    using blocks_ok_split [OF b s] lim untouched_mono [OF u]
    by (auto simp: heap_ok_def h'_def limits_ok_def)
qed

section \<open>A block from the platform\<close>

lemma heap_ok_grow:
  assumes "heap_ok brk h fl A" and "memory h' = memory h" and "head h' = head h"
    and "sbrk_start h' = sbrk_start h" and "unat (sbrk_end h) \<le> unat (sbrk_end h')" and "limits_ok brk h'"
  shows "heap_ok brk h' fl A"
  using assms blocks_ok_grow by (auto simp: heap_ok_def)

lemma add_block:
  assumes ok: "heap_ok brk h fl A" and mem: "memory h' = memory h" "head h' = head h"
    and new: "8 dvd unat p" "unat (sbrk_end h) \<le> unat p" "0 < unat p"
      "unat p + unat s \<le> unat (sbrk_end h')" "sbrk_start h' = (if sbrk_start h = 0 then p else sbrk_start h)"
    and lim: "limits_ok brk h'" and s: "8 dvd unat s" "16 \<le> unat s"
  shows "heap_ok brk (set_size p s h') fl (insert (unat p, unat s) A)
    \<and> untouched A (memory h) (memory (set_size p s h'))"
proof -
  let ?lo = "unat (sbrk_start h)" and ?hi = "unat (sbrk_end h)"
  have b: "blocks_ok ?lo ?hi fl A" and path: "path (memory h) (head h) fl 0"
    and sizes: "\<forall>x \<in> A. load64 (memory h) (of_nat (fst x)) = of_nat (snd x)" and lo: "?lo \<le> ?hi"
    using ok by (simp_all add: heap_ok_def limits_ok_def)
  have p: "of_nat (unat p) = p" by simp
  have top: "unat p + unat s < 2 ^ 63" using new(4) limits_end [OF lim] by simp
  have "sep (unat p, unat s) x \<and> fst x + snd x \<le> 2 ^ 64" if "x \<in> set fl \<union> A" for x
    using blocks_ok_good [OF b that] new(2) top by (auto simp: good_block_def sep_def)
  then have u: "untouched (set fl \<union> A) (memory h) (memory (set_size p s h'))"
    using store64_untouched [of "set fl \<union> A" "unat p" "unat s" 0 "memory h" s] s(2) top mem p by simp
  have m16: "\<forall>x \<in> set fl. 16 \<le> snd x" "\<forall>x \<in> A. 16 \<le> snd x" using blocks_16 [OF b] by auto
  have "path (memory (set_size p s h')) (head h) fl 0"
    by (rule path_untouched [OF untouched_mono [OF u] m16(1) path]) blast
  moreover have "load64 (memory (set_size p s h')) (of_nat (fst x)) = of_nat (snd x)" if "x \<in> A" for x
    using untouched_load [OF u, of x 0] that sizes m16(2) by auto
  moreover have "blocks_ok (unat (sbrk_start h')) (unat (sbrk_end h')) fl (insert (unat p, unat s) A)"
    using new s lo by (intro blocks_ok_add [OF b new(2,4,1) s new(3)]) (auto simp: unat_eq_zero)
  ultimately show ?thesis
    using mem lim untouched_mono [OF u] by (auto simp: heap_ok_def limits_ok_def)
qed

section \<open>malloc\<close>

lemma chunk_grow_null: "chunk_grow sbrk 0 s h = Some (False, h)"
  by (simp add: chunk_grow_def)

text \<open>
  What a call of \<open>malloc\<close> achieves: no memory, or a new block, which is a part of the free bytes or
  lies behind the old end of the heap.
\<close>

definition allocated ::
  "('e \<Rightarrow> addr) \<Rightarrow> u64 \<Rightarrow> 'e heap \<Rightarrow> block list \<Rightarrow> block set \<Rightarrow> addr \<times> 'e heap \<Rightarrow> bool" where
  "allocated brk n h fl A = (\<lambda>(p, h').
     untouched A (memory h) (memory h')
     \<and> (p = 0 \<and> memory h' = memory h \<and> heap_ok brk h' fl A
        \<or> (\<exists>a k fl'. p = of_nat (a + 8) \<and> unat n + 8 \<le> k \<and> k < unat n + 32
             \<and> (\<forall>x \<in> A. sep (a, k) x) \<and> heap_ok brk h' fl' (insert (a, k) A)
             \<and> (area fl' \<union> {a..<a + k} = area fl \<or> fl' = fl \<and> unat (sbrk_end h) \<le> a))))"

lemma allocatedI:
  assumes "heap_ok brk h' fl' (insert (a, k) A) \<and> untouched A (memory h) (memory h')"
    and "unat n + 8 \<le> k" and "k < unat n + 32" and "\<forall>x \<in> A. sep (a, k) x"
    and "area fl' \<union> {a..<a + k} = area fl \<or> fl' = fl \<and> unat (sbrk_end h) \<le> a"
  shows "allocated brk n h fl A (of_nat (a + 8), h')"
  using assms unfolding allocated_def by blast

lemma noc_malloc_found:
  assumes ok: "heap_ok brk h (zs @ (a, n) # ws) A" and s: "8 dvd unat s" "16 \<le> unat s"
    and e: "unat s + unat e = n" and size: "unat r + 8 \<le> unat s" "unat s < unat r + 16"
  shows "allocated brk r h (zs @ (a, n) # ws) A
     (let chunk = deref h (link_of zs);
          next = chunk_next (memory h) chunk;
          (size, h') =
            if e < MALLOC_MIN_SIZE
            then (s + e, assign (link_of zs) (chunk_next (memory h) chunk) h)
            else
              let other = chunk + s in
              (s, assign (link_of zs) other (set_next other next (set_size other e h)))
      in (chunk_to_data chunk, set_size chunk size h'))"
proof -
  have b: "blocks_ok (unat (sbrk_start h)) (unat (sbrk_end h)) (zs @ (a, n) # ws) A"
    and lim: "limits_ok brk h" and p: "path (memory h) (head h) (zs @ (a, n) # ws) 0"
    using ok by (simp_all add: heap_ok_def)
  have g: "good_block (unat (sbrk_start h)) (unat (sbrk_end h)) (a, n)" by (rule blocks_ok_at(1) [OF b])
  have an: "a + n < 2 ^ 63" "0 < a" using good_bounds [OF g limits_end [OF lim]] by simp_all
  obtain r0 where "path (memory h) (head h) zs r0" "path (memory h) r0 ((a, n) # ws) 0"
    using p by (auto simp: path_append)
  then have chunk: "deref h (link_of zs) = of_nat a" and nxt: "chunk_next (memory h) (of_nat a) = ptr_of ws"
    using deref_link path_ptr by (fastforce simp: chunk_next_def)+
  have disj: "\<forall>x \<in> A. sep (a, n) x" by (rule blocks_ok_at(2) [OF b])
  have data: "chunk_to_data (of_nat a) = of_nat (a + 8)" by (simp add: chunk_to_data_def)
  show ?thesis
  proof (cases "e < MALLOC_MIN_SIZE")
    case True
    have "unat (s + e) = n" using e an by (subst unat_add_fits) simp_all
    then have "s + e = of_nat n" by (metis word_of_unat)
    moreover have "unat r + 8 \<le> n" "n < unat r + 32"
      using True e size by (simp_all add: word_less_nat_alt MALLOC_MIN_SIZE_def)
    moreover have "area (zs @ ws) \<union> {a..<a + n} = area (zs @ (a, n) # ws)" by auto
    ultimately show ?thesis
      using allocatedI [OF take_whole [OF ok], of r "zs @ (a, n) # ws"] disj
      unfolding chunk nxt data Let_def if_P [OF True] prod.case by simp
  next
    case False
    then have e16: "unat s + 16 \<le> n" using e by (simp add: word_less_nat_alt MALLOC_MIN_SIZE_def)
    have w: "(of_nat a :: addr) + s = of_nat (a + unat s)" "e = of_nat (n - unat s)" "s = of_nat (unat s)"
      using e by (simp_all flip: e)
    have "sep (a, unat s) x" if "x \<in> A" for x using disj that e by (fastforce simp: sep_def)
    moreover have "{a + unat s..<a + n} \<union> {a..<a + unat s} = {a..<a + n}" using e16 by auto
    then have "area (zs @ (a + unat s, n - unat s) # ws) \<union> {a..<a + unat s} = area (zs @ (a, n) # ws)"
      using e16 by (auto simp del: ivl_disj_un)
    ultimately have "allocated brk r h (zs @ (a, n) # ws) A (of_nat (a + 8),
        set_size (of_nat a) (of_nat (unat s)) (assign (link_of zs) (of_nat (a + unat s))
          (set_next (of_nat (a + unat s)) (ptr_of ws) (set_size (of_nat (a + unat s)) (of_nat (n - unat s)) h))))"
      using size by (intro allocatedI [OF take_front [OF ok s e16]]) auto
    then show ?thesis
      unfolding chunk nxt data Let_def if_not_P [OF False] prod.case w(1) w(2) [symmetric] w(3) [symmetric] .
  qed
qed

lemma best_fit_head:
  assumes "heap_ok brk h fl A"
  shows "\<exists>e mp l. best_fit h s Head me None = Some (e, mp, l)
    \<and> (mp = None \<and> deref h l = 0 \<or> found fl s e mp)
    \<and> (least_surplus (set fl) s e \<or> e < MALLOC_ALIGN)"
proof -
  have b: "blocks_ok (unat (sbrk_start h)) (unat (sbrk_end h)) fl A"
    and lim: "limits_ok brk h" and p: "path (memory h) (head h) fl 0"
    using assms by (simp_all add: heap_ok_def)
  have "\<forall>x \<in> set ([] @ fl). 0 < fst x \<and> fst x + snd x < 2 ^ 63"
    using blocks_ok_bounds [OF b limits_end [OF lim]] by simp
  moreover have "path (memory h) (head h) [] (ptr_of fl)" "path (memory h) (ptr_of fl) fl 0"
    using p path_ptr [OF p] by simp_all
  ultimately show ?thesis
    using best_fit_spec [of "[]" fl h s me None] deref_link [OF p] by fastforce
qed

lemma noc_malloc_spec:
  assumes ok: "heap_ok brk h fl A" and doc: "documented_sbrk sbrk brk"
    and n: "0 < unat n" "unat n \<le> 2 ^ 64 - 16"
  shows "\<exists>r. noc_malloc sbrk n h = Some r \<and> allocated brk n h fl A r"
proof -
  define s where "s = chunk_size_for_data n"
  have s: "8 dvd unat s" "16 \<le> unat s" "unat n + 8 \<le> unat s" "unat s < unat n + 16"
    using chunk_size_for_data_spec [OF n] by (simp_all add: s_def)
  have lim: "limits_ok brk h" using ok by (simp add: heap_ok_def)
  have nz: "n \<noteq> 0" using n(1) by auto
  obtain e mp l where fit: "best_fit h s Head 0xffffffff None = Some (e, mp, l)"
      and res: "mp = None \<and> deref h l = 0 \<or> found fl s e mp"
    using best_fit_head [OF ok, of s "0xffffffff"] by blast
  show ?thesis
  proof (cases mp)
    case None
    then have l: "deref h l = 0" using res by (auto simp: found_def)
    obtain p h' where p: "aligned_sbrk sbrk s h = (p, h')" "memory h' = memory h" "head h' = head h"
        "unat (sbrk_end h) \<le> unat (sbrk_end h')" "limits_ok brk h'"
        "p = SBRK_FAILURE \<and> sbrk_start h' = sbrk_start h
         \<or> p \<noteq> SBRK_FAILURE \<and> 8 dvd unat p \<and> unat (sbrk_end h) \<le> unat p \<and> 0 < unat p
           \<and> unat p + unat s \<le> unat (sbrk_end h')
           \<and> sbrk_start h' = (if sbrk_start h = 0 then p else sbrk_start h)"
      using aligned_sbrk_spec [OF doc lim, of s] by blast
    have run: "noc_malloc sbrk n h =
        (if p = SBRK_FAILURE then Some (0, h') else Some (chunk_to_data p, set_size p s h'))"
      using nz fit None l p(1) by (simp add: noc_malloc_def s_def [symmetric] chunk_grow_null)
    show ?thesis
    proof (cases "p = SBRK_FAILURE")
      case True
      then have "heap_ok brk h' fl A" using p by (intro heap_ok_grow [OF ok]) auto
      then show ?thesis using True p(2) by (simp add: run allocated_def)
    next
      case False
      with p(6) have new: "8 dvd unat p" "unat (sbrk_end h) \<le> unat p" "0 < unat p"
          "unat p + unat s \<le> unat (sbrk_end h')" "sbrk_start h' = (if sbrk_start h = 0 then p else sbrk_start h)"
        by blast+
      have "sep (unat p, unat s) x" if "x \<in> A" for x
      proof -
        have "good_block (unat (sbrk_start h)) (unat (sbrk_end h)) x"
          using ok that by (auto simp: heap_ok_def blocks_ok_def)
        then show ?thesis using new(2) by (auto simp: good_block_def sep_def)
      qed
      then have "allocated brk n h fl A (of_nat (unat p + 8), set_size p s h')"
        using s new(2) by (intro allocatedI [OF add_block [OF ok p(2,3) new p(5) s(1,2)]]) auto
      then show ?thesis using False by (simp add: run chunk_to_data_def)
    qed
  next
    case (Some parent)
    then obtain zs a k ws where f: "fl = zs @ (a, k) # ws" "parent = link_of zs" "unat s + unat e = k"
      using res by (auto simp: found_def)
    have "noc_malloc sbrk n h = Some (let chunk = deref h (link_of zs);
          next = chunk_next (memory h) chunk;
          (size, h') =
            if e < MALLOC_MIN_SIZE
            then (s + e, assign (link_of zs) (chunk_next (memory h) chunk) h)
            else
              let other = chunk + s in
              (s, assign (link_of zs) other (set_next other next (set_size other e h)))
      in (chunk_to_data chunk, set_size chunk size h'))"
      using nz fit Some f(2) by (simp add: noc_malloc_def s_def [symmetric] Let_def split_beta)
    with noc_malloc_found [OF ok [unfolded f(1)] s(1,2) f(3) s(3,4)] show ?thesis
      unfolding f(1) by blast
  qed
qed

section \<open>The choice of the block\<close>

text \<open>Blocks and requests are multiples of 8, so a surplus below 8 is none.\<close>

lemma best_fit_least:
  assumes ok: "heap_ok brk h fl A" and s: "8 dvd unat s"
    and b0: "b0 \<in> set fl" "unat s \<le> snd b0" "snd b0 < unat s + 0xffffffff"
  shows "\<exists>e zs b ws l. best_fit h s Head 0xffffffff None = Some (e, Some (link_of zs), l)
    \<and> fl = zs @ b # ws \<and> unat s + unat e = snd b \<and> (\<forall>b' \<in> set fl. unat s \<le> snd b' \<longrightarrow> snd b \<le> snd b')"
proof -
  have b: "blocks_ok (unat (sbrk_start h)) (unat (sbrk_end h)) fl A"
    and lim: "limits_ok brk h" and p: "path (memory h) (head h) fl 0"
    using ok by (simp_all add: heap_ok_def)
  have bnd: "\<forall>x \<in> set ([] @ fl). 0 < fst x \<and> fst x + snd x < 2 ^ 63"
    using blocks_ok_bounds [OF b limits_end [OF lim]] by simp
  have "path (memory h) (head h) [] (ptr_of fl)" "path (memory h) (ptr_of fl) fl 0"
    using p path_ptr [OF p] by simp_all
  from best_fit_spec [OF bnd this, of s "0xffffffff" None]
  obtain e mp l where run: "best_fit h s Head 0xffffffff None = Some (e, mp, l)"
      and res: "mp = None \<and> e = 0xffffffff \<or> found fl s e mp"
      and least: "least_surplus (set fl) s e \<or> e < MALLOC_ALIGN"
    by auto
  have "\<not> (mp = None \<and> e = 0xffffffff)"
  proof
    assume e: "mp = None \<and> e = 0xffffffff"
    then have "least_surplus (set fl) s e" using least by (auto simp: MALLOC_ALIGN_def)
    then show False using b0 e by (auto simp: least_surplus_def)
  qed
  then obtain zs b ws where f: "fl = zs @ b # ws" "mp = Some (link_of zs)" "unat s + unat e = snd b"
    using res by (auto simp: found_def)
  have "snd b \<le> snd b'" if b': "b' \<in> set fl" "unat s \<le> snd b'" for b'
    using least
  proof
    assume "least_surplus (set fl) s e"
    then show ?thesis using b' f(3) by (auto simp: least_surplus_def)
  next
    assume small: "e < MALLOC_ALIGN"
    have "8 dvd snd b" using blocks_ok_good [OF b, of b] by (simp add: f(1) good_block_def)
    then have "8 dvd unat e" using s f(3) by (metis dvd_add_right_iff)
    moreover have "unat e < 8" using small by (simp add: word_less_nat_alt MALLOC_ALIGN_def)
    ultimately have "unat e = 0" by presburger
    then show ?thesis using b' f(3) by simp
  qed
  then show ?thesis using run f by blast
qed

lemma noc_malloc_best:
  assumes ok: "heap_ok brk h fl A" and n: "0 < unat n" "unat n \<le> 2 ^ 64 - 16"
    and b0: "b0 \<in> set fl" "unat (chunk_size_for_data n) \<le> snd b0"
      "snd b0 < unat (chunk_size_for_data n) + 0xffffffff"
  shows "\<exists>p h' b. noc_malloc sbrk n h = Some (p, h') \<and> b \<in> set fl \<and> p = of_nat (fst b + 8)
    \<and> unat (chunk_size_for_data n) \<le> snd b
    \<and> (\<forall>b' \<in> set fl. unat (chunk_size_for_data n) \<le> snd b' \<longrightarrow> snd b \<le> snd b')
    \<and> env h' = env h \<and> sbrk_end h' = sbrk_end h"
proof -
  let ?s = "chunk_size_for_data n"
  have p: "path (memory h) (head h) fl 0" using ok by (simp add: heap_ok_def)
  obtain e zs b ws l where fit: "best_fit h ?s Head 0xffffffff None = Some (e, Some (link_of zs), l)"
      and f: "fl = zs @ b # ws" "unat ?s + unat e = snd b"
      and least: "\<forall>b' \<in> set fl. unat ?s \<le> snd b' \<longrightarrow> snd b \<le> snd b'"
    using best_fit_least [OF ok chunk_size_for_data_spec(1) [OF n] b0] by blast
  obtain r where "path (memory h) (head h) zs r" "path (memory h) r (b # ws) 0"
    using p unfolding f(1) path_append by blast
  then have at: "deref h (link_of zs) = of_nat (fst b)" using deref_link by (cases b) fastforce
  have nz: "n \<noteq> 0" using n(1) by auto
  have "\<exists>h'. noc_malloc sbrk n h = Some (of_nat (fst b + 8), h') \<and> env h' = env h \<and> sbrk_end h' = sbrk_end h"
    using nz fit by (simp add: noc_malloc_def at Let_def chunk_to_data_def)
  moreover have "b \<in> set fl" "unat ?s \<le> snd b" using f by simp_all
  ultimately show ?thesis using least by blast
qed

section \<open>Stores into the data of a live block\<close>

text \<open>A memory that differs only in the data of one live block.\<close>

definition same_but :: "nat \<Rightarrow> nat \<Rightarrow> mem \<Rightarrow> mem \<Rightarrow> bool" where
  "same_but lo hi m m' \<longleftrightarrow> (\<forall>x < 2 ^ 63. \<not> (lo \<le> x \<and> x < hi) \<longrightarrow> m' (of_nat x) = m (of_nat x))"

lemma same_but_untouched:
  assumes "same_but lo hi m m'" and "\<forall>y \<in> B. fst y + snd y < 2 ^ 63 \<and> (fst y + snd y \<le> lo \<or> hi \<le> fst y)"
  shows "untouched B m m'"
  unfolding untouched_def
proof (intro ballI allI impI)
  fix y x assume "y \<in> B" "fst y \<le> x \<and> x < fst y + snd y"
  then have "x < 2 ^ 63" "\<not> (lo \<le> x \<and> x < hi)" using assms(2) by force+
  then show "m' (of_nat x) = m (of_nat x)" using assms(1) by (simp add: same_but_def)
qed

lemma store_data:
  assumes ok: "heap_ok brk h fl A" and blk: "(c, k) \<in> A" and m: "same_but (c + 8) (c + k) (memory h) m"
  shows "heap_ok brk (h\<lparr>memory := m\<rparr>) fl A \<and> untouched (A - {(c, k)}) (memory h) m"
proof -
  have b: "blocks_ok (unat (sbrk_start h)) (unat (sbrk_end h)) fl A" and lim: "limits_ok brk h"
    and p: "path (memory h) (head h) fl 0"
    and sizes: "\<forall>x \<in> A. load64 (memory h) (of_nat (fst x)) = of_nat (snd x)"
    using ok by (simp_all add: heap_ok_def)
  have bnd: "fst x + snd x < 2 ^ 63 \<and> 16 \<le> snd x" if "x \<in> set fl \<union> A" for x
    using good_bounds [OF blocks_ok_good [OF b that] limits_end [OF lim]] by simp
  have ck: "c + k < 2 ^ 63" "16 \<le> k" using bnd [of "(c, k)"] blk by simp_all
  have u: "untouched (set fl \<union> (A - {(c, k)})) (memory h) m"
  proof (rule same_but_untouched [OF m], rule ballI)
    fix y assume y: "y \<in> set fl \<union> (A - {(c, k)})"
    then consider "y \<in> set fl" | "y \<in> A" "(c, k) \<noteq> y" by blast
    then have "sep (c, k) y"
    proof cases
      case 1
      then show ?thesis by (rule blocks_ok_sep(1) [OF b blk])
    next
      case 2
      have "\<forall>x \<in> A. \<forall>y \<in> A. x \<noteq> y \<longrightarrow> sep x y" using b by (simp add: blocks_ok_def)
      then show ?thesis using blk 2 by blast
    qed
    moreover have "fst y + snd y < 2 ^ 63" using bnd [of y] y by blast
    ultimately show "fst y + snd y < 2 ^ 63 \<and> (fst y + snd y \<le> c + 8 \<or> c + k \<le> fst y)"
      by (auto simp: sep_def)
  qed
  have head: "load64 m (of_nat c) = load64 (memory h) (of_nat c)"
  proof (rule load64_cong)
    fix j :: nat assume "j < 8"
    then have "m (of_nat (c + j)) = memory h (of_nat (c + j))"
      using m [unfolded same_but_def, rule_format, of "c + j"] ck by simp
    then show "m (of_nat c + of_nat j) = memory h (of_nat c + of_nat j)" by simp
  qed
  have "path m (head h) fl 0"
    by (rule path_untouched [OF untouched_mono [OF u] _ p]) (use bnd in blast)+
  moreover have "load64 m (of_nat (fst x)) = of_nat (snd x)" if x: "x \<in> A" for x
  proof (cases "x = (c, k)")
    case True
    have "load64 (memory h) (of_nat c) = of_nat k" using bspec [OF sizes blk] by simp
    then show ?thesis using head by (simp add: True)
  next
    case False
    then have "x \<in> set fl \<union> (A - {(c, k)})" using x by blast
    from untouched_load [OF u this, of 0] show ?thesis using sizes x bnd [of x] by simp
  qed
  ultimately show ?thesis
    using b lim untouched_mono [OF u] by (auto simp: heap_ok_def limits_ok_def)
qed

text \<open>Copies and fills at addresses given as numbers.\<close>

lemma unat_offset:
  assumes "x < 2 ^ 64" and "d + n < 2 ^ 64"
  shows "unat (of_nat x - of_nat d :: addr) < n \<longleftrightarrow> d \<le> x \<and> x < d + n"
proof -
  have "unat (of_nat x :: addr) = x" "unat (of_nat d :: addr) = d" using assms by (simp_all add: unat_of_nat_eq)
  then have "unat (of_nat x - of_nat d :: addr) = (if d \<le> x then x - d else x + 2 ^ 64 - d)"
    by (simp add: unat_sub_if')
  then show ?thesis using assms by auto
qed

lemma offset_of_nat: "d \<le> x \<Longrightarrow> (of_nat x - of_nat d :: addr) = of_nat (x - d)"
  by (simp add: of_nat_diff)

lemma fill_at:
  "x < 2 ^ 64 \<Longrightarrow> d + n < 2 ^ 64 \<Longrightarrow>
    fill m (of_nat d) c n (of_nat x) = (if d \<le> x \<and> x < d + n then c else m (of_nat x))"
  by (simp add: fill_def unat_offset)

lemma blit_at:
  assumes "x < 2 ^ 64" and "d + n < 2 ^ 64"
  shows "blit m (of_nat d) (of_nat s) n (of_nat x) =
    (if d \<le> x \<and> x < d + n then m (of_nat (s + (x - d))) else m (of_nat x))"
proof (cases "d \<le> x \<and> x < d + n")
  case True
  then have "of_nat s + (of_nat x - of_nat d) = (of_nat (s + (x - d)) :: addr)"
    by (simp only: offset_of_nat of_nat_add)
  then show ?thesis using unat_offset [OF assms] True by (simp only: blit_def if_True)
next
  case False
  then show ?thesis using unat_offset [OF assms] by (simp only: blit_def if_False)
qed

end
