(* ===== verification/Malloc_Free.thy ===== *)
theory Malloc_Free
  imports Malloc_Alloc
begin

text \<open>
  \<open>free\<close> keeps the invariant: the block goes to its place in the sorted list and is merged with a
  free neighbour on either side, so that free blocks are never adjacent, and no byte of another
  allocated block changes.
\<close>

section \<open>Finding the place\<close>

lemma free_search_spec:
  assumes "\<forall>x \<in> set (xs @ ys). 0 < fst x \<and> fst x + snd x < 2 ^ 63 \<and> 0 < snd x"
    and "path (memory h) (head h) xs (ptr_of ys)" and "path (memory h) (ptr_of ys) ys 0"
    and "\<forall>x \<in> set xs. gap x (c, n)" and "\<forall>y \<in> set ys. sep y (c, n)" and "c < 2 ^ 63" and "0 < n"
  shows "(\<exists>zs ws. xs @ ys = zs @ ws \<and> (\<forall>x \<in> set zs. gap x (c, n)) \<and> (ws = [] \<or> c + n \<le> fst (hd ws))
        \<and> free_search h (link_of xs) (of_nat c) = Some (Insert (link_of zs) (ptr_of ws)))
    \<or> (\<exists>zs a k ws. xs @ ys = zs @ (a, k) # ws \<and> a + k = c
        \<and> free_search h (link_of xs) (of_nat c) = Some (Left_Merge (of_nat a)))"
  using assms
proof (induction ys arbitrary: xs)
  case Nil
  have "deref h (link_of xs) = 0" using Nil.prems(2) deref_link by fastforce
  then have "free_search h (link_of xs) (of_nat c) = Some (Insert (link_of xs) (ptr_of []))"
    by (subst free_search.simps) (simp add: Let_def)
  then show ?case using Nil.prems(4) by (intro disjI1 exI [of _ xs] exI [of _ "[]"]) simp
next
  case (Cons b ys)
  obtain a k where b: "b = (a, k)" by (cases b)
  have w: "unat (of_nat a :: addr) = a" "unat (of_nat c :: addr) = c" "(of_nat a :: addr) \<noteq> 0" "0 < k"
      "unat (of_nat (a + k) :: addr) = a + k"
    using Cons.prems(1,6) block_words [of b] by (auto simp: b unat_of_nat_eq simp del: of_nat_add)
  have at: "deref h (link_of xs) = of_nat a" using deref_link [OF Cons.prems(2)] by (simp add: b)
  have ce: "chunk_end (memory h) (of_nat a) = of_nat (a + k)"
    using Cons.prems(3) by (simp add: b chunk_end_def chunk_size_def)
  have less: "(of_nat a :: addr) < of_nat c \<longleftrightarrow> a < c" by (simp add: word_less_nat_alt w)
  have eq: "(of_nat (a + k) :: addr) = of_nat c \<longleftrightarrow> a + k = c" "(of_nat c :: addr) = of_nat a \<longleftrightarrow> c = a"
    using w unfolding word_unat_eq_iff by simp_all
  have step: "free_search h (link_of xs) (of_nat c) =
      (if a < c then if a + k = c then Some (Left_Merge (of_nat a))
         else if c = a then Some Double_Free else free_search h (link_of (xs @ [b])) (of_nat c)
       else Some (Insert (link_of xs) (of_nat a)))"
    by (subst free_search.simps) (simp only: at ce less eq w(3) Let_def link_of_simps b fst_conv simp_thms)
  have s: "sep (a, k) (c, n)" using Cons.prems(5) by (simp add: b)
  show ?case
  proof (cases "a < c")
    case False
    then have "c + n \<le> a" using s w(4) Cons.prems(7) by (auto simp: sep_def)
    then show ?thesis using Cons.prems(4) False unfolding step
      by (intro disjI1 exI [of _ xs] exI [of _ "b # ys"]) (simp add: b)
  next
    case True
    then have le: "a + k \<le> c" using s Cons.prems(7) by (auto simp: sep_def)
    show ?thesis
    proof (cases "a + k = c")
      case eq: True
      then show ?thesis using True unfolding step
        by (intro disjI2 exI [of _ xs] exI [of _ a] exI [of _ k] exI [of _ ys]) (simp add: b)
    next
      case False
      then have g: "gap b (c, n)" using le by (simp add: b gap_def)
      have rest: "path (memory h) (head h) (xs @ [b]) (ptr_of ys)" "path (memory h) (ptr_of ys) ys 0"
        using Cons.prems(2,3) path_ptr by (auto simp: b path_append)
      have "free_search h (link_of xs) (of_nat c) = free_search h (link_of (xs @ [b])) (of_nat c)"
        using True False unfolding step by simp
      then show ?thesis
        using Cons.IH [of "xs @ [b]", OF _ rest] Cons.prems(1,4,5,6,7) g by simp
    qed
  qed
qed

section \<open>Merging\<close>

text \<open>The list with the new block \<open>b\<close> in place, before it is merged with the block behind it.\<close>

definition inserted :: "('e \<Rightarrow> addr) \<Rightarrow> 'e heap \<Rightarrow> block list \<Rightarrow> block \<Rightarrow> block list \<Rightarrow> block set \<Rightarrow> bool" where
  "inserted brk h zs b ws A \<longleftrightarrow>
     path (memory h) (head h) (zs @ b # ws) 0
     \<and> sorted_wrt gap (zs @ [b]) \<and> sorted_wrt gap (zs @ ws) \<and> (\<forall>y \<in> set ws. fst b + snd b \<le> fst y)
     \<and> (\<forall>x \<in> A. sep x b)
     \<and> blocks_ok (unat (sbrk_start h)) (unat (sbrk_end h)) (zs @ ws) A
     \<and> good_block (unat (sbrk_start h)) (unat (sbrk_end h)) b
     \<and> (\<forall>x \<in> A. load64 (memory h) (of_nat (fst x)) = of_nat (snd x))
     \<and> limits_ok brk h"

lemma store_in_good:
  assumes "\<forall>y \<in> B. sep (a, n) y \<and> good_block lo hi y" and "good_block lo hi (a, n)" and "hi < 2 ^ 63"
    and "i + 8 \<le> n"
  shows "untouched B m (store64 m (of_nat (a + i)) v)"
  using assms good_bounds [OF _ assms(3)] by (intro store64_untouched [of B a n]) fastforce+

lemma sep_join: "sep x (a, n) \<Longrightarrow> sep x (a + n, k) \<Longrightarrow> 0 < snd x \<Longrightarrow> sep x (a, n + k)"
  by (auto simp: sep_def)

lemma right_merge_spec:
  assumes "inserted brk h zs (c, n) ws A"
  shows "\<exists>fl'. heap_ok brk (right_merge (of_nat c) (ptr_of ws) h) fl' A
    \<and> untouched A (memory h) (memory (right_merge (of_nat c) (ptr_of ws) h))
    \<and> sum_list (map snd fl') = sum_list (map snd (zs @ ws)) + n
    \<and> area fl' = area (zs @ ws) \<union> {c..<c + n}"
proof -
  let ?lo = "unat (sbrk_start h)" and ?hi = "unat (sbrk_end h)"
  have p: "path (memory h) (head h) (zs @ (c, n) # ws) 0"
    and srt: "sorted_wrt gap (zs @ [(c, n)])" "sorted_wrt gap (zs @ ws)" "\<forall>y \<in> set ws. c + n \<le> fst y"
    and sA: "\<forall>x \<in> A. sep x (c, n)" and b: "blocks_ok ?lo ?hi (zs @ ws) A" and g: "good_block ?lo ?hi (c, n)"
    and sizes: "\<forall>x \<in> A. load64 (memory h) (of_nat (fst x)) = of_nat (snd x)" and lim: "limits_ok brk h"
    using assms by (simp_all add: inserted_def)
  have hi: "?hi < 2 ^ 63" by (rule limits_end [OF lim])
  have cn: "c + n < 2 ^ 63" "0 < c" "16 \<le> n" using good_bounds [OF g hi] by simp_all
  have ce: "chunk_end (memory h) (of_nat c) = of_nat (c + n)" and sz: "load64 (memory h) (of_nat c) = of_nat n"
    using p by (auto simp: path_append chunk_end_def chunk_size_def)
  have uc: "unat (of_nat (c + n) :: addr) = c + n" using cn by (intro unat_of_nat_eq) simp
  show ?thesis
  proof (cases "\<exists>k ws'. ws = (c + n, k) # ws'")
    case False
    have "of_nat (c + n) \<noteq> ptr_of ws"
    proof (cases ws)
      case Nil
      then show ?thesis using uc cn by (auto simp: word_unat_eq_iff)
    next
      case (Cons y ws')
      have "good_block ?lo ?hi y" using b by (auto simp: Cons blocks_ok_def)
      then have "unat (of_nat (fst y) :: addr) = fst y"
        using good_bounds [OF _ hi, of ?lo y] by (intro unat_of_nat_eq) simp
      moreover have "fst y \<noteq> c + n" using False Cons by (cases y) auto
      ultimately show ?thesis using uc unfolding Cons ptr_of_simps word_unat_eq_iff by simp
    qed
    then have same: "right_merge (of_nat c) (ptr_of ws) h = h" unfolding right_merge_def ce by simp
    have "gap (c, n) y" if "y \<in> set ws" for y
    proof (cases ws)
      case (Cons z ws')
      have "c + n < fst z" using srt(3) False Cons by (cases z) force
      moreover have "y = z \<or> gap z y" using srt(2) that Cons by (auto simp: sorted_wrt_append)
      ultimately show ?thesis by (auto simp: gap_def)
    qed (use that in simp)
    then have "sorted_wrt gap (zs @ (c, n) # ws)" using srt by (auto simp: sorted_wrt_append)
    then have "blocks_ok ?lo ?hi (zs @ (c, n) # ws) A"
      using b g sA by (simp add: blocks_ok_def)
    then have "heap_ok brk h (zs @ (c, n) # ws) A" using p sizes lim by (simp add: heap_ok_def)
    then show ?thesis unfolding same by (intro exI [of _ "zs @ (c, n) # ws"]) auto
  next
    case True
    then obtain k ws' where ws: "ws = (c + n, k) # ws'" by blast
    have gk: "good_block ?lo ?hi (c + n, k)" using b by (simp add: ws blocks_ok_def)
    have k: "c + n + k < 2 ^ 63" "16 \<le> k" using good_bounds [OF gk hi] by simp_all
    define m1 where "m1 = store64 (memory h) (of_nat c) (of_nat (n + k))"
    define m2 where "m2 = store64 m1 (of_nat (c + 8)) (ptr_of ws')"
    define B where "B = set zs \<union> set ws \<union> A"
    have B: "\<forall>y \<in> B. sep (c, n) y \<and> good_block ?lo ?hi y"
      using srt sA b gap_sep sep_sym by (auto simp: B_def blocks_ok_def sorted_wrt_append sep_def gap_def)
    have u1: "untouched B (memory h) m1" and u2: "untouched B m1 m2"
      using store_in_good [OF B g hi, of 0] store_in_good [OF B g hi, of 8] cn by (simp_all add: m1_def m2_def)
    then have u: "untouched B (memory h) m2" by (rule untouched_trans)
    have wsp: "load64 (memory h) (of_nat (c + n)) = of_nat k" "load64 (memory h) (of_nat (c + n + 8)) = ptr_of ws'"
        "path (memory h) (ptr_of ws') ws' 0" and zsp: "path (memory h) (head h) zs (of_nat c)"
      using p path_ptr by (auto simp: path_append ws simp del: of_nat_add)
    have "load64 m1 (of_nat (c + n + 8)) = ptr_of ws'"
      using untouched_load [OF u1, of "(c + n, k)" 8] wsp(2) k by (simp add: B_def ws add.assoc del: of_nat_add)
    moreover have "chunk_end (memory h) (of_nat c) = ptr_of ws" by (simp add: ce ws)
    ultimately have mem: "memory (right_merge (of_nat c) (ptr_of ws) h) = m2"
        "head (right_merge (of_nat c) (ptr_of ws) h) = head h"
        "sbrk_start (right_merge (of_nat c) (ptr_of ws) h) = sbrk_start h"
        "sbrk_end (right_merge (of_nat c) (ptr_of ws) h) = sbrk_end h"
        "env (right_merge (of_nat c) (ptr_of ws) h) = env h"
      using sz wsp(1) by (simp_all add: right_merge_def Let_def chunk_size_def chunk_next_def ws m1_def m2_def add.assoc)
    have m16: "\<forall>x \<in> set zs. 16 \<le> snd x" "\<forall>x \<in> set ws'. 16 \<le> snd x" "\<forall>x \<in> A. 16 \<le> snd x"
      using B by (auto simp: B_def ws good_block_def)
    have "path m2 (head h) zs (of_nat c)"
      by (rule path_untouched [OF untouched_mono [OF u] m16(1) zsp]) (auto simp: B_def)
    moreover have "path m2 (ptr_of ws') ws' 0"
      by (rule path_untouched [OF untouched_mono [OF u] m16(2) wsp(3)]) (auto simp: B_def ws)
    moreover have "load64 m2 (of_nat c) = of_nat (n + k)"
      using load_store_next(2) [of c m1 "ptr_of ws'"] cn by (simp add: m1_def m2_def)
    ultimately have path: "path m2 (head h) (zs @ (c, n + k) # ws') 0"
      by (auto simp: path_append m2_def simp del: of_nat_add)
    have "sorted_wrt gap (zs @ (c, n + k) # ws')"
      using srt by (auto simp: ws sorted_wrt_append gap_def)
    moreover have "good_block ?lo ?hi (c, n + k)" using g gk by (auto simp: good_block_def)
    moreover have "sep x (c, n + k)" if "x \<in> A" for x
      using sA b that m16(3) by (intro sep_join) (force simp: ws blocks_ok_def)+
    ultimately have "blocks_ok ?lo ?hi (zs @ (c, n + k) # ws') A"
      using b by (simp add: blocks_ok_def ws)
    moreover have "load64 m2 (of_nat (fst x)) = of_nat (snd x)" if "x \<in> A" for x
      using untouched_load [OF u, of x 0] that sizes m16(3) by (auto simp: B_def)
    ultimately have "heap_ok brk (right_merge (of_nat c) (ptr_of ws) h) (zs @ (c, n + k) # ws') A"
      using path lim by (simp add: heap_ok_def mem limits_ok_def)
    moreover have "untouched A (memory h) m2" by (rule untouched_mono [OF u]) (auto simp: B_def)
    moreover have "area (zs @ (c, n + k) # ws') = area (zs @ ws) \<union> {c..<c + n}" by (auto simp: ws)
    moreover have "sum_list (map snd (zs @ (c, n + k) # ws')) = sum_list (map snd (zs @ ws)) + n" by (simp add: ws)
    ultimately show ?thesis unfolding mem by blast
  qed
qed

section \<open>free\<close>

lemma allocated_block:
  assumes ok: "heap_ok brk h fl (insert (c, n) A)" and new: "(c, n) \<notin> A"
  shows "good_block (unat (sbrk_start h)) (unat (sbrk_end h)) (c, n)"
    and "blocks_ok (unat (sbrk_start h)) (unat (sbrk_end h)) fl A"
    and "\<forall>x \<in> A. sep x (c, n)" and "\<forall>x \<in> set fl. sep x (c, n)"
    and "load64 (memory h) (of_nat c) = of_nat n"
proof -
  have b: "blocks_ok (unat (sbrk_start h)) (unat (sbrk_end h)) fl (insert (c, n) A)"
    using ok by (simp add: heap_ok_def)
  then show "good_block (unat (sbrk_start h)) (unat (sbrk_end h)) (c, n)"
    and "blocks_ok (unat (sbrk_start h)) (unat (sbrk_end h)) fl A"
    by (simp_all add: blocks_ok_def)
  show "\<forall>x \<in> set fl. sep x (c, n)" using blocks_ok_sep(2) [OF b] by simp
  have "x \<noteq> (c, n)" if "x \<in> A" for x using that new by auto
  then show "\<forall>x \<in> A. sep x (c, n)" using b unfolding blocks_ok_def by blast
  show "load64 (memory h) (of_nat c) = of_nat n" using ok by (simp add: heap_ok_def)
qed

text \<open>The block is linked in where the search ended.\<close>

lemma insert_links:
  assumes ok: "heap_ok brk h (zs @ ws) (insert (c, n) A)" and new: "(c, n) \<notin> A"
    and zs: "\<forall>x \<in> set zs. gap x (c, n)" and ws: "ws = [] \<or> c + n \<le> fst (hd ws)"
  defines "h' \<equiv> assign (link_of zs) (of_nat c)
    (set_next (of_nat c) (ptr_of ws) (set_next (of_nat c) 0 h))"
  shows "inserted brk h' zs (c, n) ws A \<and> untouched A (memory h) (memory h')"
proof -
  let ?lo = "unat (sbrk_start h)" and ?hi = "unat (sbrk_end h)"
  note blk = allocated_block [OF ok new]
  have p: "path (memory h) (head h) (zs @ ws) 0" and lim: "limits_ok brk h"
    and sizes: "\<forall>x \<in> A. load64 (memory h) (of_nat (fst x)) = of_nat (snd x)"
    using ok by (simp_all add: heap_ok_def)
  have hi: "?hi < 2 ^ 63" by (rule limits_end [OF lim])
  have cn: "c + n < 2 ^ 63" "0 < c" "16 \<le> n" using good_bounds [OF blk(1) hi] by simp_all
  define B where "B = set zs \<union> set ws \<union> A"
  have good: "good_block ?lo ?hi y" if "y \<in> B" for y
    using blocks_ok_good [OF blk(2)] that by (auto simp: B_def)
  have B: "\<forall>y \<in> B. sep (c, n) y \<and> good_block ?lo ?hi y"
    using good blk(3,4) sep_sym by (auto simp: B_def)
  define m1 where "m1 = store64 (memory h) (of_nat (c + 8)) 0"
  define m2 where "m2 = store64 m1 (of_nat (c + 8)) (ptr_of ws)"
  define h2 where "h2 = set_next (of_nat c) (ptr_of ws) (set_next (of_nat c) 0 h)"
  have h2: "memory h2 = m2" "head h2 = head h" by (simp_all add: h2_def m1_def m2_def)
  have u2: "untouched B (memory h) m2"
    unfolding m1_def m2_def using cn
    by (intro untouched_trans [OF store_in_good [OF B blk(1) hi] store_in_good [OF B blk(1) hi]]) simp_all
  have m16: "\<forall>x \<in> set zs. 16 \<le> snd x" "\<forall>x \<in> set ws. 16 \<le> snd x" "\<forall>x \<in> A. 16 \<le> snd x"
    using good by (auto simp: B_def good_block_def)
  obtain r where zsp: "path (memory h) (head h) zs r" and wsp: "path (memory h) (ptr_of ws) ws 0"
    using p path_ptr by (auto simp: path_append)
  have "path (memory h2) (head h2) zs r"
    unfolding h2 by (rule path_untouched [OF untouched_mono [OF u2] m16(1) zsp]) (auto simp: B_def)
  moreover have srt: "sorted_wrt gap (zs @ ws)" using blk(2) by (simp add: blocks_ok_def)
  moreover have "\<forall>x \<in> set zs. 16 \<le> snd x \<and> fst x + snd x \<le> 2 ^ 64"
  proof
    fix x assume "x \<in> set zs"
    then show "16 \<le> snd x \<and> fst x + snd x \<le> 2 ^ 64"
      using good_bounds [OF good [of x] hi] by (simp add: B_def)
  qed
  moreover have "fst y + snd y \<le> 2 ^ 64 \<and> (\<forall>x \<in> set zs. sep x y)"
    if y: "y \<in> insert (c, n) (set ws \<union> A)" for y
  proof -
    have g: "good_block ?lo ?hi y" using y good [of y] blk(1) unfolding B_def by blast
    have "sep x y" if x: "x \<in> set zs" for x
    proof -
      consider "y = (c, n)" | "y \<in> set ws" | "y \<in> A" using y by blast
      then show ?thesis
      proof cases
        case 1 then show ?thesis using zs x gap_sep by blast
      next
        case 2 then show ?thesis using srt x gap_sep unfolding sorted_wrt_append by blast
      next
        case 3 then show ?thesis using blocks_ok_sep(2) [OF blk(2)] x by simp
      qed
    qed
    then show ?thesis using good_bounds [OF g hi] by blast
  qed
  ultimately have a: "path (memory h') (head h') zs (of_nat c)"
      "untouched (insert (c, n) (set ws \<union> A)) m2 (memory h')"
    using assign_link [of h2 zs r "insert (c, n) (set ws \<union> A)" "of_nat c"]
    by (auto simp: h'_def h2_def [symmetric] h2(1) sorted_wrt_append)
  have u: "untouched (set ws \<union> A) (memory h) (memory h')"
    by (rule untouched_trans [OF untouched_mono [OF u2] untouched_mono [OF a(2)]]) (auto simp: B_def)
  have "load64 m2 (of_nat c) = of_nat n"
    using load_store_next(2) [of c m1] load_store_next(2) [of c "memory h"] cn blk(5)
    by (simp add: m1_def m2_def)
  moreover have "load64 m2 (of_nat (c + 8)) = ptr_of ws" by (simp add: m2_def)
  ultimately have hdr: "load64 (memory h') (of_nat c) = of_nat n" "load64 (memory h') (of_nat (c + 8)) = ptr_of ws"
    using untouched_load [OF a(2), of "(c, n)" 0] untouched_load [OF a(2), of "(c, n)" 8] cn by simp_all
  have "path (memory h') (ptr_of ws) ws 0"
    by (rule path_untouched [OF untouched_mono [OF u] m16(2) wsp]) simp
  then have "path (memory h') (head h') (zs @ (c, n) # ws) 0"
    using a(1) hdr by (auto simp: path_append simp del: of_nat_add)
  moreover have "\<forall>y \<in> set ws. c + n \<le> fst y"
    using ws srt by (cases ws) (auto simp: sorted_wrt_append gap_def)
  moreover have "load64 (memory h') (of_nat (fst x)) = of_nat (snd x)" if "x \<in> A" for x
    using untouched_load [OF u, of x 0] that sizes m16(3) by auto
  ultimately show ?thesis
    using zs srt blk lim untouched_mono [OF u, of A]
    by (auto simp: inserted_def sorted_wrt_append h'_def limits_ok_def)
qed

text \<open>The block is added to its left neighbour.\<close>

lemma left_merge:
  assumes ok: "heap_ok brk h (zs @ (a, k) # ws) (insert (c, n) A)" and new: "(c, n) \<notin> A" and ac: "a + k = c"
  defines "h1 \<equiv> set_next (of_nat c) 0 h"
  defines "h' \<equiv> set_size (of_nat a) (chunk_size (memory h1) (of_nat a) + chunk_size (memory h1) (of_nat c)) h1"
  shows "inserted brk h' zs (a, k + n) ws A \<and> untouched A (memory h) (memory h')
    \<and> chunk_next (memory h') (of_nat a) = ptr_of ws"
proof -
  let ?lo = "unat (sbrk_start h)" and ?hi = "unat (sbrk_end h)"
  note blk = allocated_block [OF ok new]
  have p: "path (memory h) (head h) (zs @ (a, k) # ws) 0" and lim: "limits_ok brk h"
    and sizes: "\<forall>x \<in> A. load64 (memory h) (of_nat (fst x)) = of_nat (snd x)"
    using ok by (simp_all add: heap_ok_def)
  have hi: "?hi < 2 ^ 63" by (rule limits_end [OF lim])
  note at = blocks_ok_at [OF blk(2)]
  have cn: "c + n < 2 ^ 63" "0 < c" "16 \<le> n" using good_bounds [OF blk(1) hi] by simp_all
  have ak: "a + k < 2 ^ 63" "16 \<le> k" using good_bounds [OF at(1) hi] by simp_all
  define B where "B = set zs \<union> set ws \<union> A"
  have good: "good_block ?lo ?hi y" if "y \<in> B" for y
    using blocks_ok_good [OF blk(2)] that by (auto simp: B_def)
  have B: "\<forall>y \<in> insert (a, k) B. sep (c, n) y \<and> good_block ?lo ?hi y" "\<forall>y \<in> B. sep (a, k) y \<and> good_block ?lo ?hi y"
    using good blk(3,4) at(1,5) sep_sym by (auto simp: B_def)
  define m1 where "m1 = store64 (memory h) (of_nat (c + 8)) 0"
  define m2 where "m2 = store64 m1 (of_nat (a + 0)) (of_nat (k + n))"
  have u1: "untouched (insert (a, k) B) (memory h) m1"
    unfolding m1_def using cn by (intro store_in_good [OF B(1) blk(1) hi]) simp
  have u2: "untouched B m1 m2"
    unfolding m2_def using ak by (intro store_in_good [OF B(2) at(1) hi]) simp
  have u: "untouched B (memory h) m2" using untouched_trans [OF untouched_mono [OF u1] u2] by blast
  obtain r where zsp: "path (memory h) (head h) zs r" and bp: "path (memory h) r ((a, k) # ws) 0"
    using p unfolding path_append by blast
  have r: "r = of_nat a" and hdr0: "load64 (memory h) (of_nat a) = of_nat k"
      and wsp0: "path (memory h) (load64 (memory h) (of_nat (a + 8))) ws 0"
    using bp by (simp_all del: of_nat_add)
  have hdr: "load64 (memory h) (of_nat a) = of_nat k" "load64 (memory h) (of_nat (a + 8)) = ptr_of ws"
    by (rule hdr0, rule path_ptr [OF wsp0])
  have wsp: "path (memory h) (ptr_of ws) ws 0" using wsp0 unfolding hdr(2) .
  have hdr1: "load64 m1 (of_nat a) = of_nat k" "load64 m1 (of_nat (a + 8)) = ptr_of ws"
    using untouched_load [OF u1, of "(a, k)" 0] untouched_load [OF u1, of "(a, k)" 8] hdr ak by simp_all
  have "load64 m1 (of_nat c) = of_nat n"
    using load_store_next(2) [of c "memory h"] cn blk(5) by (simp add: m1_def)
  then have mem: "memory h' = m2" "head h' = head h"
    using hdr1 by (simp_all add: h'_def h1_def chunk_size_def m1_def [simplified] m2_def)
  have hdr2: "load64 m2 (of_nat a) = of_nat (k + n)" "load64 m2 (of_nat (a + 8)) = ptr_of ws"
    using load_store_next(1) [of a m1] hdr1(2) ak by (simp_all add: m2_def)
  have m16: "\<forall>x \<in> set zs. 16 \<le> snd x" "\<forall>x \<in> set ws. 16 \<le> snd x" "\<forall>x \<in> A. 16 \<le> snd x"
    using good by (auto simp: B_def good_block_def)
  have "path m2 (head h) zs (of_nat a)"
    by (rule path_untouched [OF untouched_mono [OF u] m16(1) zsp [unfolded r]]) (auto simp: B_def)
  moreover have "path m2 (ptr_of ws) ws 0"
    by (rule path_untouched [OF untouched_mono [OF u] m16(2) wsp]) (auto simp: B_def)
  ultimately have "path (memory h') (head h') (zs @ (a, k + n) # ws) 0"
    using hdr2 unfolding mem by (auto simp: path_append simp del: of_nat_add)
  moreover have "sorted_wrt gap (zs @ [(a, k + n)])" "sorted_wrt gap (zs @ ws)"
    using blk(2) by (auto simp: blocks_ok_def sorted_wrt_append gap_def)
  moreover have "a + (k + n) \<le> fst y" if y: "y \<in> set ws" for y
  proof -
    have "a + k < fst y" using at(4) y by (auto simp: gap_def)
    moreover have "sep y (c, n)" using blk(4) y by simp
    ultimately show ?thesis using ac m16(2) y by (force simp: sep_def)
  qed
  moreover have "sep x (a, k + n)" if x: "x \<in> A" for x
  proof (rule sep_join)
    show "sep x (a, k)" using at(2) x sep_sym by blast
    show "sep x (a + k, n)" using blk(3) x ac by simp
    have "16 \<le> snd x" using m16(3) x by blast
    then show "0 < snd x" by simp
  qed
  moreover have "blocks_ok ?lo ?hi (zs @ ws) A"
    using blk(2) by (auto simp: blocks_ok_def sorted_wrt_append)
  moreover have "good_block ?lo ?hi (a, k + n)" using blk(1) at(1) ac by (auto simp: good_block_def)
  moreover have "load64 (memory h') (of_nat (fst x)) = of_nat (snd x)" if "x \<in> A" for x
    using untouched_load [OF u, of x 0] that sizes m16(3) by (auto simp: mem B_def)
  moreover have "untouched A (memory h) (memory h')"
    unfolding mem by (rule untouched_mono [OF u]) (auto simp: B_def)
  moreover have "chunk_next (memory h') (of_nat a) = ptr_of ws" using hdr2(2) by (simp add: mem chunk_next_def)
  ultimately show ?thesis using lim by (auto simp: inserted_def h'_def h1_def limits_ok_def)
qed

text \<open>The search runs on the list of the heap: clearing the block's own link does not change it.\<close>

lemma free_search_at:
  assumes ok: "heap_ok brk h fl (insert (c, n) A)" and new: "(c, n) \<notin> A"
  defines "h1 \<equiv> set_next (of_nat c) 0 h"
  shows "(\<exists>zs ws. fl = zs @ ws \<and> (\<forall>x \<in> set zs. gap x (c, n)) \<and> (ws = [] \<or> c + n \<le> fst (hd ws))
        \<and> free_search h1 Head (of_nat c) = Some (Insert (link_of zs) (ptr_of ws)))
    \<or> (\<exists>zs a k ws. fl = zs @ (a, k) # ws \<and> a + k = c
        \<and> free_search h1 Head (of_nat c) = Some (Left_Merge (of_nat a)))"
proof -
  note blk = allocated_block [OF ok new]
  have p: "path (memory h) (head h) fl 0" and lim: "limits_ok brk h" using ok by (simp_all add: heap_ok_def)
  have hi: "unat (sbrk_end h) < 2 ^ 63" by (rule limits_end [OF lim])
  have cn: "c + n < 2 ^ 63" "16 \<le> n" using good_bounds [OF blk(1) hi] by simp_all
  have "\<forall>y \<in> set fl. sep (c, n) y \<and> good_block (unat (sbrk_start h)) (unat (sbrk_end h)) y"
    using blk(4) sep_sym blocks_ok_good [OF blk(2)] by blast
  from store_in_good [OF this blk(1) hi, of 8 "memory h" 0]
  have "untouched (set fl) (memory h) (memory h1)" using cn by (simp add: h1_def)
  moreover have "\<forall>x \<in> set fl. 16 \<le> snd x" using blocks_16 [OF blk(2)] by blast
  ultimately have p1: "path (memory h1) (head h1) fl 0"
    using path_untouched [OF _ _ p] by (simp add: h1_def)
  have "\<forall>x \<in> set ([] @ fl). 0 < fst x \<and> fst x + snd x < 2 ^ 63 \<and> 0 < snd x"
    using blocks_ok_bounds [OF blk(2) hi] by force
  moreover have "path (memory h1) (head h1) [] (ptr_of fl)" "path (memory h1) (ptr_of fl) fl 0"
    using p1 path_ptr [OF p1] by simp_all
  ultimately show ?thesis
    using free_search_spec [of "[]" fl h1 c n] blk(4) cn by simp
qed

lemma noc_free_spec:
  assumes ok: "heap_ok brk h fl (insert (c, n) A)" and new: "(c, n) \<notin> A"
  shows "\<exists>h' fl'. noc_free (of_nat (c + 8)) h = Some h' \<and> heap_ok brk h' fl' A
    \<and> untouched A (memory h) (memory h')
    \<and> sum_list (map snd fl') = sum_list (map snd fl) + n
    \<and> area fl' = area fl \<union> {c..<c + n}"
proof -
  note blk = allocated_block [OF ok new]
  have lim: "limits_ok brk h" using ok by (simp add: heap_ok_def)
  have hi: "unat (sbrk_end h) < 2 ^ 63" by (rule limits_end [OF lim])
  have cn: "c + n < 2 ^ 63" "16 \<le> n" "unat (sbrk_start h) \<le> c" "c + n \<le> unat (sbrk_end h)"
    using good_bounds [OF blk(1) hi] blk(1) by (simp_all add: good_block_def)
  have ce: "chunk_end (memory h) (of_nat c) = of_nat (c + n)"
    using blk(5) by (simp add: chunk_end_def chunk_size_def)
  have w: "unat (of_nat (c + 8) :: addr) = c + 8" "unat (of_nat (c + n) :: addr) = c + n"
    using cn by (simp_all add: unat_of_nat_eq del: of_nat_add)
  have tests: "\<not> ((of_nat (c + 8) :: addr) < sbrk_start h \<or> of_nat (c + 8) \<ge> sbrk_end h)"
      "\<not> of_nat (c + n) > sbrk_end h"
    unfolding word_less_nat_alt word_le_nat_alt w using cn by simp_all
  have chunk: "chunk_from_data (of_nat (c + 8)) = of_nat c" by (simp add: chunk_from_data_def)
  define h1 where "h1 = set_next (of_nat c) 0 h"
  have run: "noc_free (of_nat (c + 8)) h = do {
      exit \<leftarrow> free_search h1 Head (of_nat c);
      Some (case exit of
          Double_Free \<Rightarrow> h1
        | Left_Merge prev \<Rightarrow>
            let h = set_size prev (chunk_size (memory h1) prev + chunk_size (memory h1) (of_nat c)) h1
            in right_merge prev (chunk_next (memory h) prev) h
        | Insert parent prev \<Rightarrow>
            let h = set_next (of_nat c) prev h1;
                h = assign parent (of_nat c) h
            in right_merge (of_nat c) prev h)
    }"
    unfolding noc_free_def chunk Let_def ce if_not_P [OF tests(1)] if_not_P [OF tests(2)] h1_def
    by (rule refl)
  from free_search_at [OF ok new] show ?thesis
  proof (elim disjE [of "\<exists>zs. _ zs"] exE conjE)
    fix zs ws
    assume fl: "fl = zs @ ws" and g: "\<forall>x \<in> set zs. gap x (c, n)" "ws = [] \<or> c + n \<le> fst (hd ws)"
      and s: "free_search (set_next (of_nat c) 0 h) Head (of_nat c) = Some (Insert (link_of zs) (ptr_of ws))"
    define h2 where "h2 = assign (link_of zs) (of_nat c) (set_next (of_nat c) (ptr_of ws) h1)"
    have i: "inserted brk h2 zs (c, n) ws A" "untouched A (memory h) (memory h2)"
      using insert_links [OF ok [unfolded fl] new g] by (simp_all add: h2_def h1_def)
    have "noc_free (of_nat (c + 8)) h = Some (right_merge (of_nat c) (ptr_of ws) h2)"
      by (simp add: run s [folded h1_def] h2_def del: of_nat_add)
    then show ?thesis using right_merge_spec [OF i(1)] untouched_trans [OF i(2)]
      by (auto simp: fl simp del: of_nat_add)
  next
    fix zs a k ws
    assume fl: "fl = zs @ (a, k) # ws" and a: "a + k = c"
      and s: "free_search (set_next (of_nat c) 0 h) Head (of_nat c) = Some (Left_Merge (of_nat a))"
    define h2 where "h2 = set_size (of_nat a)
      (chunk_size (memory h1) (of_nat a) + chunk_size (memory h1) (of_nat c)) h1"
    have i: "inserted brk h2 zs (a, k + n) ws A" "untouched A (memory h) (memory h2)"
        "chunk_next (memory h2) (of_nat a) = ptr_of ws"
      using left_merge [OF ok [unfolded fl] new a] by (simp_all add: h2_def h1_def)
    have "noc_free (of_nat (c + 8)) h = Some (right_merge (of_nat a) (ptr_of ws) h2)"
      by (simp add: run s [folded h1_def] h2_def [symmetric] i(3) del: of_nat_add)
    moreover have "sum_list (map snd (zs @ ws)) + (k + n) = sum_list (map snd fl) + n" by (simp add: fl)
    moreover have "area (zs @ ws) \<union> {a..<a + (k + n)} = area fl \<union> {c..<c + n}" using a by (auto simp: fl)
    ultimately show ?thesis
      using right_merge_spec [OF i(1)] untouched_trans [OF i(2)] by (auto simp del: of_nat_add area_simps)
  qed
qed

section \<open>mem\_free\<close>

lemma mem_free_loop_path:
  "path m p xs 0 \<Longrightarrow> \<forall>x \<in> set xs. 0 < fst x \<and> fst x + snd x < 2 ^ 63 \<Longrightarrow>
    mem_free_loop m p acc = Some (acc + of_nat (sum_list (map snd xs)))"
proof (induction xs arbitrary: p acc)
  case Nil
  then show ?case by (subst mem_free_loop.simps) simp
next
  case (Cons x xs)
  have "(of_nat (fst x) :: addr) \<noteq> 0" using Cons.prems(2) block_words [of x] by simp
  then show ?case
    using Cons by (cases x) (subst mem_free_loop.simps, simp add: chunk_next_def chunk_size_def)
qed

lemma mem_free_sum:
  assumes "heap_ok brk h fl A"
  shows "mem_free h = Some (of_nat (sum_list (map snd fl)))"
proof -
  have b: "blocks_ok (unat (sbrk_start h)) (unat (sbrk_end h)) fl A"
    and lim: "limits_ok brk h" and p: "path (memory h) (head h) fl 0"
    using assms by (simp_all add: heap_ok_def)
  have "\<forall>x \<in> set fl. 0 < fst x \<and> fst x + snd x < 2 ^ 63"
    using blocks_ok_bounds [OF b limits_end [OF lim]] by simp
  from mem_free_loop_path [OF p this, of 0] show ?thesis by (simp add: mem_free_def)
qed

end
