(* ===== verification/Malloc_Realloc.thy ===== *)
theory Malloc_Realloc
  imports Malloc_Free
begin

text \<open>
  \<open>realloc\<close> keeps the invariant of the heap and the contents of the object, on each of its ways: the
  last block grown by the platform, merged with free neighbours (the left one moves the data),
  split, or copied to a new block.
\<close>

section \<open>Changing live blocks\<close>

text \<open>
  A region that overlaps no free block and no block of \<open>A\<close> may be rewritten and cut into new blocks.
\<close>

lemma rebuild:
  assumes ok: "heap_ok brk h fl (D \<union> A)" and m: "same_but lo hi (memory h) (memory h')"
    and out: "\<forall>y \<in> set fl \<union> A. fst y + snd y \<le> lo \<or> hi \<le> fst y"
    and new: "\<forall>x \<in> N. lo \<le> fst x \<and> fst x + snd x \<le> hi"
      "\<forall>x \<in> N. good_block (unat (sbrk_start h)) (unat (sbrk_end h')) x"
      "\<forall>x \<in> N. load64 (memory h') (of_nat (fst x)) = of_nat (snd x)"
    and pairs: "\<forall>x \<in> N. \<forall>y \<in> N. x \<noteq> y \<longrightarrow> sep x y"
    and h': "head h' = head h" "sbrk_start h' = sbrk_start h"
      "unat (sbrk_end h) \<le> unat (sbrk_end h')" "limits_ok brk h'"
  shows "heap_ok brk h' fl (N \<union> A) \<and> untouched A (memory h) (memory h')"
proof -
  let ?lo = "unat (sbrk_start h)"
  have b: "blocks_ok ?lo (unat (sbrk_end h)) fl (D \<union> A)" and lim: "limits_ok brk h"
    and p: "path (memory h) (head h) fl 0"
    and sizes: "\<forall>x \<in> D \<union> A. load64 (memory h) (of_nat (fst x)) = of_nat (snd x)"
    using ok by (simp_all add: heap_ok_def)
  have bnd: "fst x + snd x < 2 ^ 63 \<and> 16 \<le> snd x" if "x \<in> set fl \<union> A" for x
    using good_bounds [OF blocks_ok_good [OF b, of x] limits_end [OF lim]] that by blast
  have u: "untouched (set fl \<union> A) (memory h) (memory h')"
    by (rule same_but_untouched [OF m]) (use out bnd in blast)
  have "path (memory h') (head h) fl 0"
    by (rule path_untouched [OF untouched_mono [OF u] _ p]) (use bnd in blast)+
  moreover have "load64 (memory h') (of_nat (fst x)) = of_nat (snd x)" if x: "x \<in> A" for x
    using untouched_load [OF u, of x 0] sizes x bnd [of x] by simp
  moreover have "blocks_ok ?lo (unat (sbrk_end h')) fl (N \<union> A)"
  proof -
    have s: "sep x y \<and> sep y x" if "x \<in> N" "y \<in> set fl \<union> A" for x y
    proof -
      have "fst y + snd y \<le> lo \<or> hi \<le> fst y" using out that(2) by blast
      moreover have "lo \<le> fst x \<and> fst x + snd x \<le> hi" using new(1) that(1) by blast
      ultimately show ?thesis by (auto simp: sep_def)
    qed
    have old: "sorted_wrt gap fl" "\<forall>x \<in> set fl \<union> A. good_block ?lo (unat (sbrk_end h)) x"
        "\<forall>x \<in> A. \<forall>y \<in> A. x \<noteq> y \<longrightarrow> sep x y" "\<forall>x \<in> A. \<forall>y \<in> set fl. sep x y"
      using b unfolding blocks_ok_def by blast+
    have "\<forall>x \<in> N \<union> A. \<forall>y \<in> N \<union> A. x \<noteq> y \<longrightarrow> sep x y" using old(3) pairs s by blast
    moreover have "\<forall>x \<in> N \<union> A. \<forall>y \<in> set fl. sep x y" using old(4) s by blast
    moreover have "\<forall>x \<in> set fl \<union> (N \<union> A). good_block ?lo (unat (sbrk_end h')) x"
      using old(2) good_block_grow [OF _ h'(3)] new(2) by blast
    ultimately show ?thesis using old(1) unfolding blocks_ok_def by blast
  qed
  moreover have "untouched A (memory h) (memory h')" by (rule untouched_mono [OF u]) blast
  ultimately show ?thesis unfolding heap_ok_def h'(1,2) using h'(4) new(3) by blast
qed

text \<open>The numbers of a live block.\<close>

lemma live_block:
  assumes "heap_ok brk h fl (insert (c, k) A)"
  shows "good_block (unat (sbrk_start h)) (unat (sbrk_end h)) (c, k)"
    and "c + k < 2 ^ 63" and "16 \<le> k" and "0 < c" and "8 dvd k" and "8 dvd c"
    and "load64 (memory h) (of_nat c) = of_nat k" and "chunk_end (memory h) (of_nat c) = of_nat (c + k)"
    and "unat (sbrk_start h) \<le> c" and "c + k \<le> unat (sbrk_end h)" and "limits_ok brk h"
    and "\<forall>y \<in> set fl. c + k \<le> fst y \<or> fst y + snd y \<le> c"
proof -
  show g: "good_block (unat (sbrk_start h)) (unat (sbrk_end h)) (c, k)" and lim: "limits_ok brk h"
    and l: "load64 (memory h) (of_nat c) = of_nat k"
    and "\<forall>y \<in> set fl. c + k \<le> fst y \<or> fst y + snd y \<le> c"
    using assms by (auto simp: heap_ok_def blocks_ok_def sep_def)
  show "c + k < 2 ^ 63" "16 \<le> k" "0 < c" using good_bounds [OF g limits_end [OF lim]] by simp_all
  show "8 dvd k" "8 dvd c" "unat (sbrk_start h) \<le> c" "c + k \<le> unat (sbrk_end h)"
    using g by (simp_all add: good_block_def)
  show "chunk_end (memory h) (of_nat c) = of_nat (c + k)"
    using l by (simp add: chunk_end_def chunk_size_def)
qed

lemma same_but_trans: "same_but lo hi m m' \<Longrightarrow> same_but lo hi m' m'' \<Longrightarrow> same_but lo hi m m''"
  by (auto simp: same_but_def)

lemma same_but_store: "lo \<le> a \<Longrightarrow> a + 8 \<le> hi \<Longrightarrow> hi \<le> 2 ^ 63 \<Longrightarrow> same_but lo hi m (store64 m (of_nat a) v)"
  unfolding same_but_def
proof (intro allI impI)
  fix x assume "lo \<le> a" "a + 8 \<le> hi" "hi \<le> 2 ^ 63" "x < 2 ^ 63" "\<not> (lo \<le> x \<and> x < hi)"
  then have "x < 2 ^ 64" "a + 8 \<le> 2 ^ 64" "x < a \<or> a + 8 \<le> x" by auto
  from of_nat_apart [OF this] show "store64 m (of_nat a) v (of_nat x) = m (of_nat x)" by (rule store64_other)
qed

lemma store_apart:
  "x < a \<or> a + 8 \<le> x \<Longrightarrow> x < 2 ^ 63 \<Longrightarrow> a + 8 \<le> 2 ^ 63 \<Longrightarrow> store64 m (of_nat a) v (of_nat x) = m (of_nat x)"
  using of_nat_apart [of x a] by (intro store64_other) auto

lemma load_store_apart:
  assumes "b + 8 \<le> a \<or> a + 8 \<le> b" and "a + 8 \<le> 2 ^ 63" and "b + 8 \<le> 2 ^ 63"
  shows "load64 (store64 m (of_nat a) v) (of_nat b) = load64 m (of_nat b)"
proof (rule load64_cong)
  fix j :: nat assume "j < 8"
  then have "store64 m (of_nat a) v (of_nat (b + j)) = m (of_nat (b + j))"
    using assms by (intro store_apart) auto
  then show "store64 m (of_nat a) v (of_nat b + of_nat j) = m (of_nat b + of_nat j)" by simp
qed

text \<open>The first \<open>n\<close> data bytes of a block at \<open>c\<close> are those of a block at \<open>c'\<close> in another memory.\<close>

definition data_kept :: "nat \<Rightarrow> mem \<Rightarrow> nat \<Rightarrow> mem \<Rightarrow> nat \<Rightarrow> bool" where
  "data_kept n m c m' c' \<longleftrightarrow> (\<forall>i < n. m' (of_nat (c' + 8 + i)) = m (of_nat (c + 8 + i)))"

lemma data_kept_refl [simp]: "data_kept n m c m c"
  by (simp add: data_kept_def)

lemma data_kept_trans: "data_kept n m c m' c' \<Longrightarrow> data_kept n m' c' m'' c'' \<Longrightarrow> data_kept n m c m'' c''"
  by (simp add: data_kept_def)

lemma data_kept_le: "data_kept n m c m' c' \<Longrightarrow> k \<le> n \<Longrightarrow> data_kept k m c m' c'"
  by (simp add: data_kept_def)

lemma data_kept_untouched: "untouched A m m' \<Longrightarrow> (c, k) \<in> A \<Longrightarrow> data_kept (k - 8) m c m' c"
proof -
  assume "untouched A m m'" "(c, k) \<in> A"
  then have "\<forall>x. c \<le> x \<and> x < c + k \<longrightarrow> m' (of_nat x) = m (of_nat x)"
    unfolding untouched_def by (metis fst_conv snd_conv)
  then show ?thesis by (simp add: data_kept_def del: of_nat_add)
qed

lemma data_kept_store:
  assumes "c + 8 + n \<le> a \<or> a \<le> c" and "c + 8 + n \<le> 2 ^ 63" and "a + 8 \<le> 2 ^ 63"
  shows "data_kept n m c (store64 m (of_nat a) v) c"
  unfolding data_kept_def using assms by (auto intro!: store_apart simp del: of_nat_add)

section \<open>Shrinking\<close>

lemma split_block:
  assumes ok: "heap_ok brk h fl (insert (c, k) A)" and new: "(c, k) \<notin> A"
    and s: "8 dvd s" "16 \<le> s" "s + 16 \<le> k"
  defines "h' \<equiv> set_size (of_nat (c + s)) (of_nat (k - s)) (set_size (of_nat c) (of_nat s) h)"
  shows "heap_ok brk h' fl (insert (c + s, k - s) (insert (c, s) A))"
    and "untouched A (memory h) (memory h')" and "data_kept (s - 8) (memory h) c (memory h') c"
proof -
  note blk = live_block [OF ok]
  let ?m = "store64 (memory h) (of_nat c) (of_nat s)"
  have mem: "memory h' = store64 ?m (of_nat (c + s)) (of_nat (k - s))" by (simp add: h'_def)
  have sb: "same_but c (c + k) (memory h) (memory h')"
    unfolding mem using blk(2) s by (intro same_but_trans [OF same_but_store same_but_store]) auto
  have out: "\<forall>y \<in> set fl \<union> A. fst y + snd y \<le> c \<or> c + k \<le> fst y"
    using allocated_block(3,4) [OF ok new] by (auto simp: sep_def)
  have "load64 (memory h') (of_nat c) = of_nat s"
    unfolding mem using blk(2) s by (subst load_store_apart) auto
  then have loads: "\<forall>x \<in> {(c + s, k - s), (c, s)}. load64 (memory h') (of_nat (fst x)) = of_nat (snd x)"
    by (simp add: mem)
  have good: "\<forall>x \<in> {(c + s, k - s), (c, s)}. good_block (unat (sbrk_start h)) (unat (sbrk_end h')) x"
    using blk(1) s by (auto simp: good_block_def h'_def)
  have "heap_ok brk h' fl ({(c + s, k - s), (c, s)} \<union> A) \<and> untouched A (memory h) (memory h')"
  proof (rule rebuild [OF _ sb out _ good loads])
    show "heap_ok brk h fl ({(c, k)} \<union> A)" using ok by simp
    show "limits_ok brk h'" using blk(11) by (simp add: h'_def limits_ok_def)
  qed (use s in \<open>auto simp: sep_def h'_def\<close>)
  then show "heap_ok brk h' fl (insert (c + s, k - s) (insert (c, s) A))"
    and "untouched A (memory h) (memory h')"
    by simp_all
  show "data_kept (s - 8) (memory h) c (memory h') c"
    unfolding mem using blk(2) s
    by (intro data_kept_trans [OF data_kept_store data_kept_store]) simp_all
qed

text \<open>The tail of a block that is too large is freed.\<close>

lemma shrink_spec:
  assumes ok: "heap_ok brk h fl (insert (c, k) A)" and new: "(c, k) \<notin> A"
    and s: "8 dvd unat s" "16 \<le> unat s" "unat s + 16 \<le> k"
  shows "\<exists>h' fl'. insert_free_chunk (chunk_end (memory (set_size (of_nat c) s h)) (of_nat c)) (of_nat k - s)
        (set_size (of_nat c) s h) = Some h'
    \<and> heap_ok brk h' fl' (insert (c, unat s) A) \<and> untouched A (memory h) (memory h')
    \<and> data_kept (unat s - 8) (memory h) c (memory h') c"
proof -
  let ?h = "set_size (of_nat (c + unat s)) (of_nat (k - unat s)) (set_size (of_nat c) (of_nat (unat s)) h)"
  note split = split_block [OF ok new s]
  have fresh: "(c + unat s, k - unat s) \<notin> insert (c, unat s) A"
    using allocated_block(3) [OF ok new] s by (auto simp: sep_def)
  obtain h' fl' where r: "noc_free (of_nat (c + unat s + 8)) ?h = Some h'" "heap_ok brk h' fl' (insert (c, unat s) A)"
      "untouched (insert (c, unat s) A) (memory ?h) (memory h')"
    using noc_free_spec [OF split(1) fresh] by blast
  have "chunk_end (memory (set_size (of_nat c) s h)) (of_nat c) = of_nat (c + unat s)"
    by (simp add: chunk_end_def chunk_size_def)
  moreover have "of_nat k - s = of_nat (k - unat s)" using s(3) by (simp add: of_nat_diff)
  moreover have "chunk_to_data (of_nat (c + unat s)) = of_nat (c + unat s + 8)" by (simp add: chunk_to_data_def)
  ultimately have "insert_free_chunk (chunk_end (memory (set_size (of_nat c) s h)) (of_nat c)) (of_nat k - s)
      (set_size (of_nat c) s h) = Some h'"
    using r(1) by (simp add: insert_free_chunk_def del: of_nat_add)
  moreover have "untouched A (memory h) (memory h')"
    using untouched_trans [OF split(2) untouched_mono [OF r(3)]] by blast
  moreover have "data_kept (unat s - 8) (memory h) c (memory h') c"
    by (rule data_kept_trans [OF split(3) data_kept_untouched [OF r(3)]]) simp
  ultimately show ?thesis using r(2) by blast
qed

text \<open>No other live block starts at the same address.\<close>

lemma live_start:
  assumes ok: "heap_ok brk h fl (insert (c, k) A)" and new: "(c, k) \<notin> A"
  shows "(c, k') \<notin> A"
proof
  assume k': "(c, k') \<in> A"
  have "blocks_ok (unat (sbrk_start h)) (unat (sbrk_end h)) fl (insert (c, k) A)"
    using ok by (simp add: heap_ok_def)
  from blocks_ok_good [OF this, of "(c, k')"] have "16 \<le> k'" using k' by (simp add: good_block_def)
  moreover have "sep (c, k') (c, k)" using allocated_block(3) [OF ok new] k' by blast
  ultimately show False using live_block(3) [OF ok] by (auto simp: sep_def)
qed

section \<open>Growing at the end of the heap\<close>

lemma extend_block:
  assumes ok: "heap_ok brk h fl (insert (c, k) A)" and new: "(c, k) \<notin> A" and last: "c + k = unat (sbrk_end h)"
    and mem: "memory h1 = memory h" "head h1 = head h" "sbrk_start h1 = sbrk_start h"
    and up: "c + k + d \<le> unat (sbrk_end h1)" "limits_ok brk h1" and d: "8 dvd d"
  defines "h' \<equiv> set_size (of_nat c) (of_nat (k + d)) h1"
  shows "heap_ok brk h' fl (insert (c, k + d) A)"
    and "untouched A (memory h) (memory h')" and "data_kept (k - 8) (memory h) c (memory h') c"
proof -
  note blk = live_block [OF ok]
  have b: "blocks_ok (unat (sbrk_start h)) (unat (sbrk_end h)) fl (insert (c, k) A)"
    using ok by (simp add: heap_ok_def)
  have top: "c + k + d < 2 ^ 63" using up limits_end [OF up(2)] by simp
  have sb: "same_but c (c + k + d) (memory h) (memory h')"
    using top blk(3) by (simp add: h'_def mem same_but_store)
  have "fst y + snd y \<le> c" if y: "y \<in> set fl \<union> A" for y
  proof -
    have "sep y (c, k)" using allocated_block(3,4) [OF ok new] y by blast
    moreover have "fst y + snd y \<le> c + k" "16 \<le> snd y"
      using blocks_ok_good [OF b, of y] y last by (auto simp: good_block_def)
    ultimately show ?thesis by (auto simp: sep_def)
  qed
  then have out: "\<forall>y \<in> set fl \<union> A. fst y + snd y \<le> c \<or> c + k + d \<le> fst y" by blast
  have "heap_ok brk h' fl ({(c, k + d)} \<union> A) \<and> untouched A (memory h) (memory h')"
  proof (rule rebuild [OF _ sb out])
    show "heap_ok brk h fl ({(c, k)} \<union> A)" using ok by simp
    show "limits_ok brk h'" using up(2) by (simp add: h'_def limits_ok_def)
    show "\<forall>x \<in> {(c, k + d)}. good_block (unat (sbrk_start h)) (unat (sbrk_end h')) x"
      using blk(1) up(1) d by (simp add: good_block_def h'_def)
    show "unat (sbrk_end h) \<le> unat (sbrk_end h')" using up(1) last by (simp add: h'_def)
  qed (simp_all add: h'_def mem)
  then show "heap_ok brk h' fl (insert (c, k + d) A)" "untouched A (memory h) (memory h')" by simp_all
  show "data_kept (k - 8) (memory h) c (memory h') c"
    using blk(2,3) by (simp add: h'_def mem data_kept_store)
qed

lemma chunk_grow_spec:
  assumes ok: "heap_ok brk h fl (insert (c, k) A)" and new: "(c, k) \<notin> A"
    and doc: "documented_sbrk sbrk brk" and s: "8 dvd unat s" "k < unat s"
  shows "\<exists>g h' fl' k'. chunk_grow sbrk (of_nat c) s h = Some (g, h')
    \<and> heap_ok brk h' fl' (insert (c, k') A) \<and> untouched A (memory h) (memory h')
    \<and> data_kept (k - 8) (memory h) c (memory h') c \<and> (c, k') \<notin> A
    \<and> (if g then unat s \<le> k' else k' = k)"
proof -
  note blk = live_block [OF ok]
  have c0: "(of_nat c :: addr) \<noteq> 0" using block_words [of "(c, k)"] blk(2,4) by simp
  define d where "d = max (unat s - k) 16"
  define add where "add = (if s - of_nat k < MALLOC_MIN_SIZE then MALLOC_MIN_SIZE else s - of_nat k)"
  have "unat (of_nat k :: u64) = k" using blk(2) by (simp add: unat_of_nat_eq)
  then have "unat (s - of_nat k) = unat s - k" using s(2) by (simp add: unat_sub_if')
  then have add: "unat add = d" by (auto simp: add_def d_def word_less_nat_alt MALLOC_MIN_SIZE_def)
  have d: "8 dvd d" "16 \<le> d" "unat s \<le> k + d" using s blk(5) by (auto simp: d_def max_def)
  note fresh = live_start [OF ok new]
  show ?thesis
  proof (cases "of_nat (c + k) = sbrk_end h")
    case False
    then have "chunk_grow sbrk (of_nat c) s h = Some (False, h)"
      using c0 blk(8) by (simp add: chunk_grow_def Let_def del: of_nat_add)
    then show ?thesis using ok new by (intro exI conjI) auto
  next
    case True
    then have last: "c + k = unat (sbrk_end h)" using blk(2) unat_of_nat_eq [of "c + k", where 'a = 64] by simp
    obtain p h1 where p: "aligned_sbrk sbrk add h = (p, h1)" "memory h1 = memory h" "head h1 = head h"
        "unat (sbrk_end h) \<le> unat (sbrk_end h1)" "limits_ok brk h1"
        "p = SBRK_FAILURE \<and> sbrk_start h1 = sbrk_start h
         \<or> p \<noteq> SBRK_FAILURE \<and> 8 dvd unat p \<and> unat (sbrk_end h) \<le> unat p \<and> 0 < unat p
           \<and> unat p + unat add \<le> unat (sbrk_end h1)
           \<and> sbrk_start h1 = (if sbrk_start h = 0 then p else sbrk_start h)"
      using aligned_sbrk_spec [OF doc blk(11), of add] by blast
    have run: "chunk_grow sbrk (of_nat c) s h =
       (if p = of_nat (c + k) then Some (True, set_size (of_nat c) (of_nat k + add) h1)
        else if p \<noteq> SBRK_FAILURE then do { h \<leftarrow> insert_free_chunk p add h1; Some (False, h) }
        else Some (False, h1))"
      using c0 blk(7,8) True p(1,2)
      by (simp add: chunk_grow_def Let_def chunk_size_def add_def [symmetric] del: of_nat_add)
    consider (fail) "p = SBRK_FAILURE" "sbrk_start h1 = sbrk_start h"
      | (got) "p \<noteq> SBRK_FAILURE" "8 dvd unat p" "unat (sbrk_end h) \<le> unat p" "0 < unat p"
        "unat p + unat add \<le> unat (sbrk_end h1)" "sbrk_start h1 = (if sbrk_start h = 0 then p else sbrk_start h)"
      using p(6) by argo
    then show ?thesis
    proof cases
      case fail
      have "unat SBRK_FAILURE = 2 ^ 64 - 1"
        by (simp add: SBRK_FAILURE_def unsigned_minus_1_eq_mask mask_eq_exp_minus_1)
      then have "p \<noteq> of_nat (c + k)" using fail(1) last blk(2) True by auto
      then have "chunk_grow sbrk (of_nat c) s h = Some (False, h1)" using run fail(1) by simp
      moreover have "heap_ok brk h1 fl (insert (c, k) A)" using p fail(2) by (intro heap_ok_grow [OF ok]) auto
      ultimately show ?thesis using new p(2) by (intro exI conjI) auto
    next
      case got
      have "sbrk_start h \<noteq> 0" using blk(1) by (auto simp: good_block_def)
      then have start: "sbrk_start h1 = sbrk_start h" using got(6) by simp
      show ?thesis
      proof (cases "p = of_nat (c + k)")
        case True
        then have "unat p = c + k" using blk(2) by (simp add: unat_of_nat_eq del: of_nat_add)
        then have up: "c + k + d \<le> unat (sbrk_end h1)" using got(5) add by simp
        have "of_nat k + add = of_nat (k + d)" using add by (metis of_nat_add word_of_unat)
        then have "chunk_grow sbrk (of_nat c) s h = Some (True, set_size (of_nat c) (of_nat (k + d)) h1)"
          using run True by simp
        then show ?thesis
          using extend_block [OF ok new last p(2,3) start up p(5) d(1)] fresh d(3) by (intro exI conjI) auto
      next
        case False
        have a: "8 dvd unat add" "16 \<le> unat add" using add d by simp_all
        let ?h = "set_size p add h1"
        have blk': "heap_ok brk ?h fl (insert (unat p, unat add) (insert (c, k) A))"
            "untouched (insert (c, k) A) (memory h) (memory ?h)"
          using add_block [OF ok p(2,3) got(2,3,4,5,6) p(5) a] by simp_all
        have "blocks_ok (unat (sbrk_start h)) (unat (sbrk_end h)) fl (insert (c, k) A)"
          using ok by (simp add: heap_ok_def)
        note old = blocks_ok_good [OF this, of "(unat p, unat add)"]
        have "(unat p, unat add) \<notin> insert (c, k) A"
        proof
          assume "(unat p, unat add) \<in> insert (c, k) A"
          from old [OF UnI2 [OF this]] show False using got(3) a(2) by (simp add: good_block_def)
        qed
        from noc_free_spec [OF blk'(1) this]
        obtain h' fl' where r: "noc_free (of_nat (unat p + 8)) ?h = Some h'" "heap_ok brk h' fl' (insert (c, k) A)"
            "untouched (insert (c, k) A) (memory ?h) (memory h')"
          by blast
        have "chunk_grow sbrk (of_nat c) s h = Some (False, h')"
          using run False got(1) r(1) by (simp add: insert_free_chunk_def chunk_to_data_def)
        moreover have u: "untouched (insert (c, k) A) (memory h) (memory h')"
          by (rule untouched_trans [OF blk'(2) r(3)])
        moreover have "data_kept (k - 8) (memory h) c (memory h') c" by (rule data_kept_untouched [OF u]) simp
        ultimately show ?thesis using r(2) new untouched_mono [OF u, of A] by (intro exI conjI) auto
      qed
    qed
  qed
qed

section \<open>Merging with free neighbours\<close>

lemma store_load_same: "store64 m a (load64 m a) = m"
proof
  fix x
  show "store64 m a (load64 m a) x = m x"
  proof (cases "x - a < 8")
    case True
    define i where "i = unat (x - a)"
    have "i < 8" "x = a + of_nat i" using True by (simp_all add: i_def word_less_nat_alt)
    then show ?thesis by (simp add: store64_byte ucast_load64_byte)
  next
    case False
    then show ?thesis by (rule store64_other)
  qed
qed

text \<open>A free block taken out of the list; it counts as live until it is merged.\<close>

lemma unlink_block:
  assumes ok: "heap_ok brk h (zs @ (a, n) # ws) A"
  defines "h' \<equiv> assign (link_of zs) (ptr_of ws) h"
  shows "heap_ok brk h' (zs @ ws) (insert (a, n) A)" and "untouched A (memory h) (memory h')"
proof -
  have b: "blocks_ok (unat (sbrk_start h)) (unat (sbrk_end h)) (zs @ (a, n) # ws) A" and lim: "limits_ok brk h"
    and p: "path (memory h) (head h) (zs @ (a, n) # ws) 0"
    using ok by (simp_all add: heap_ok_def)
  obtain r where zs: "path (memory h) (head h) zs r" and ap: "path (memory h) r ((a, n) # ws) 0"
    using p unfolding path_append by blast
  have "untouched (insert (a, n) (set ws \<union> A)) (memory h) (memory h')"
    using block_assign [OF b limits_end [OF lim] zs, of "ptr_of ws"] by (simp add: h'_def)
  from untouched_load [OF this, of "(a, n)" 0] blocks_16 [OF b]
  have "load64 (memory h') (of_nat a) = of_nat n" using ap by simp
  then have "set_size (of_nat a) (of_nat n) h' = h'"
    unfolding set_size_def by (metis (mono_tags) store_load_same heap.surjective heap.update_convs(1))
  then show "heap_ok brk h' (zs @ ws) (insert (a, n) A)" and "untouched A (memory h) (memory h')"
    using take_whole [OF ok] by (simp_all add: h'_def)
qed

text \<open>Two live blocks in a row become one.\<close>

lemma join_blocks:
  assumes ok: "heap_ok brk h fl (insert (a, n) (insert (c, k) A))" and new: "(a, n) \<notin> A" "(c, k) \<notin> A"
    and ac: "a + n = c" and m: "same_but a (c + k) (memory h) (memory h')"
    and l: "load64 (memory h') (of_nat a) = of_nat (n + k)"
    and h': "head h' = head h" "sbrk_start h' = sbrk_start h" "sbrk_end h' = sbrk_end h" "env h' = env h"
  shows "heap_ok brk h' fl (insert (a, n + k) A)" and "untouched A (memory h) (memory h')"
proof -
  note b1 = live_block [OF ok]
  have ok': "heap_ok brk h fl (insert (c, k) (insert (a, n) A))" using ok by (simp add: insert_commute)
  note b2 = live_block [OF ok']
  have "(a, n) \<noteq> (c, k)" using ac b1(3) by auto
  then have n1: "(a, n) \<notin> insert (c, k) A" "(c, k) \<notin> insert (a, n) A" using new by auto
  have b: "blocks_ok (unat (sbrk_start h)) (unat (sbrk_end h)) fl (insert (a, n) (insert (c, k) A))"
    using ok by (simp add: heap_ok_def)
  have "fst y + snd y \<le> a \<or> c + k \<le> fst y" if y: "y \<in> set fl \<union> A" for y
  proof -
    have "sep y (a, n)" "sep y (c, k)"
      using allocated_block(3,4) [OF ok n1(1)] allocated_block(3,4) [OF ok' n1(2)] y by blast+
    moreover have "16 \<le> snd y" using blocks_16 [OF b] y by blast
    ultimately show ?thesis using ac by (auto simp: sep_def)
  qed
  then have out: "\<forall>y \<in> set fl \<union> A. fst y + snd y \<le> a \<or> c + k \<le> fst y" by blast
  have "heap_ok brk h' fl ({(a, n + k)} \<union> A) \<and> untouched A (memory h) (memory h')"
  proof (rule rebuild [OF _ m out])
    show "heap_ok brk h fl ({(a, n), (c, k)} \<union> A)" using ok by simp
    show "limits_ok brk h'" using b1(11) h' by (simp add: limits_ok_def)
    show "\<forall>x \<in> {(a, n + k)}. good_block (unat (sbrk_start h)) (unat (sbrk_end h')) x"
      using b1(1) b2(1) ac by (simp add: good_block_def h')
  qed (use ac l h' in simp_all)
  then show "heap_ok brk h' fl (insert (a, n + k) A)" and "untouched A (memory h) (memory h')" by simp_all
qed

lemma path_head_at:
  assumes ok: "heap_ok brk h (xs @ (a, n) # ws) A"
  shows "deref h (link_of xs) = of_nat a" and "chunk_size (memory h) (of_nat a) = of_nat n"
    and "chunk_next (memory h) (of_nat a) = ptr_of ws" and "chunk_end (memory h) (of_nat a) = of_nat (a + n)"
    and "a + n < 2 ^ 63" and "16 \<le> n" and "0 < a" and "(of_nat a :: addr) \<noteq> 0"
    and "(a, n) \<notin> A"
proof -
  have b: "blocks_ok (unat (sbrk_start h)) (unat (sbrk_end h)) (xs @ (a, n) # ws) A" and lim: "limits_ok brk h"
    and p: "path (memory h) (head h) (xs @ (a, n) # ws) 0"
    using ok by (simp_all add: heap_ok_def)
  obtain r where xs: "path (memory h) (head h) xs r" and ap: "path (memory h) r ((a, n) # ws) 0"
    using p unfolding path_append by blast
  show "deref h (link_of xs) = of_nat a" using deref_link [OF xs] ap by simp
  show "chunk_size (memory h) (of_nat a) = of_nat n" using ap by (simp add: chunk_size_def)
  then show "chunk_end (memory h) (of_nat a) = of_nat (a + n)" by (simp add: chunk_end_def)
  have "path (memory h) (load64 (memory h) (of_nat (a + 8))) ws 0" using ap by (simp del: of_nat_add)
  from path_ptr [OF this] show "chunk_next (memory h) (of_nat a) = ptr_of ws" by (simp add: chunk_next_def)
  show bnd: "a + n < 2 ^ 63" "16 \<le> n" "0 < a"
    using good_bounds [OF blocks_ok_at(1) [OF b] limits_end [OF lim]] by simp_all
  then show "(of_nat a :: addr) \<noteq> 0" using block_words [of "(a, n)"] by simp
  have "sep x (a, n)" if "x \<in> A" for x using blocks_ok_sep(1) [OF b that, of "(a, n)"] by simp
  from this [of "(a, n)"] show "(a, n) \<notin> A" using bnd(2) by (auto simp: sep_def)
qed

text \<open>The steps of the search.\<close>

lemma merge_adjacent_stop:
  "deref h l = a \<Longrightarrow> a = 0 \<or> \<not> a \<le> e \<Longrightarrow> merge_adjacent t h l c ptr e k = Some (h, c, ptr, k)"
  by (subst merge_adjacent.simps) auto

lemma merge_adjacent_right:
  "deref h l = e \<Longrightarrow> e \<noteq> 0 \<Longrightarrow> chunk_end (memory h) e \<noteq> c \<Longrightarrow>
    merge_adjacent t h l c ptr e k =
      Some (set_next e 0 (set_size e 0 (set_size c (k + chunk_size (memory h) e)
        (assign l (chunk_next (memory h) e) h))), c, ptr, k + chunk_size (memory h) e)"
  by (subst merge_adjacent.simps) (simp add: Let_def)

lemma merge_adjacent_skip:
  "deref h l = a \<Longrightarrow> a \<noteq> 0 \<Longrightarrow> a < e \<Longrightarrow> chunk_end (memory h) a \<noteq> c \<Longrightarrow>
    merge_adjacent t h l c ptr e k = merge_adjacent t h (Next a) c ptr e k"
  by (subst merge_adjacent.simps) (auto simp: order.strict_iff_order)

lemma merge_adjacent_left:
  "deref h l = a \<Longrightarrow> a \<noteq> 0 \<Longrightarrow> a \<le> e \<Longrightarrow> chunk_end (memory h) a = c \<Longrightarrow>
    assign l (chunk_next (memory h) a) h = h1 \<Longrightarrow>
    memmove t (memory h1) (chunk_to_data a) (chunk_to_data c) (chunk_data_size (memory h1) c) = Some (m, q) \<Longrightarrow>
    merge_adjacent t h l c ptr e k =
      merge_adjacent t (set_size a (k + chunk_size (memory h) a) (h1\<lparr>memory := m\<rparr>)) l a (chunk_to_data a) e
        (k + chunk_size (memory h) a)"
  by (subst merge_adjacent.simps) (simp add: Let_def)

text \<open>The search ends at a free block behind the one to enlarge: it is merged if it is adjacent.\<close>

lemma merge_right:
  assumes ok: "heap_ok brk h (xs @ ys) (insert (c, k) A)" and new: "(c, k) \<notin> A"
    and ys: "\<forall>y \<in> set ys. c + k \<le> fst y"
  shows "\<exists>h' fl' k'. merge_adjacent t h (link_of xs) (of_nat c) ptr (of_nat (c + k)) (of_nat k)
      = Some (h', of_nat c, ptr, of_nat k')
    \<and> heap_ok brk h' fl' (insert (c, k') A) \<and> k \<le> k' \<and> untouched A (memory h) (memory h')
    \<and> data_kept (k - 8) (memory h) c (memory h') c"
proof (cases ys)
  case Nil
  have "deref h (link_of xs) = 0" using ok deref_link by (fastforce simp: heap_ok_def Nil)
  then have "merge_adjacent t h (link_of xs) (of_nat c) ptr (of_nat (c + k)) (of_nat k)
      = Some (h, of_nat c, ptr, of_nat k)"
    by (rule merge_adjacent_stop [OF _ disjI1 [OF refl]])
  then show ?thesis using ok by (intro exI conjI) auto
next
  case (Cons y ws)
  obtain a n where y: "y = (a, n)" by (cases y)
  have ok': "heap_ok brk h (xs @ (a, n) # ws) (insert (c, k) A)" using ok by (simp add: Cons y)
  note at = path_head_at [OF ok']
  note blk = live_block [OF ok]
  have a: "c + k \<le> a" using ys by (simp add: Cons y)
  have w: "unat (of_nat a :: addr) = a" "unat (of_nat (c + k) :: addr) = c + k" "unat (of_nat c :: addr) = c"
      "unat (of_nat (a + n) :: addr) = a + n"
    using at(5) blk(2) by (simp_all add: unat_of_nat_eq del: of_nat_add)
  have ne: "(of_nat (a + n) :: addr) \<noteq> of_nat c" "(of_nat a :: addr) \<le> of_nat (c + k) \<longleftrightarrow> a = c + k"
      "(of_nat a :: addr) = of_nat (c + k) \<longleftrightarrow> a = c + k"
    using a at(6) unfolding word_unat_eq_iff word_le_nat_alt w by auto
  show ?thesis
  proof (cases "a = c + k")
    case False
    have "merge_adjacent t h (link_of xs) (of_nat c) ptr (of_nat (c + k)) (of_nat k)
        = Some (h, of_nat c, ptr, of_nat k)"
      using ne(2) False by (intro merge_adjacent_stop [OF at(1)]) simp
    then show ?thesis using ok by (intro exI conjI) auto
  next
    case True
    define h1 where "h1 = assign (link_of xs) (ptr_of ws) h"
    define h' where "h' = set_next (of_nat a) 0 (set_size (of_nat a) 0 (set_size (of_nat c) (of_nat (k + n)) h1))"
    note un = unlink_block [OF ok', folded h1_def]
    have run: "merge_adjacent t h (link_of xs) (of_nat c) ptr (of_nat (c + k)) (of_nat k)
        = Some (h', of_nat c, ptr, of_nat (k + n))"
      using merge_adjacent_right [OF at(1,8), of "of_nat c" t ptr "of_nat k"] ne(1)
      unfolding at(2,3,4) True [symmetric] h'_def h1_def by simp
    have ok1: "heap_ok brk h1 (xs @ ws) (insert (c, k) (insert (a, n) A))" using un(1) by (simp add: insert_commute)
    let ?m0 = "store64 (memory h1) (of_nat c) (of_nat (k + n))"
    let ?m1 = "store64 ?m0 (of_nat a) 0"
    have mem: "memory h' = store64 ?m1 (of_nat (a + 8)) 0" by (simp add: h'_def)
    have sb: "same_but c (a + n) (memory h1) (memory h')"
      unfolding mem using a at(5,6) blk(3)
      by (intro same_but_trans [OF same_but_trans [OF same_but_store same_but_store] same_but_store]) auto
    have "load64 (memory h') (of_nat c) = of_nat (k + n)"
      unfolding mem using a at(5,6) blk(3) by (simp add: load_store_apart del: of_nat_add)
    from join_blocks [OF ok1 new _ True [symmetric] sb this] at(9)
    have "heap_ok brk h' (xs @ ws) (insert (c, k + n) A)" "untouched A (memory h1) (memory h')"
      by (simp_all add: h'_def)
    moreover have "data_kept (k - 8) (memory h1) c (memory h') c"
      unfolding mem using a at(5,6) blk(3)
      by (intro data_kept_trans [OF data_kept_trans [OF data_kept_store data_kept_store] data_kept_store]) simp_all
    moreover have "data_kept (k - 8) (memory h) c (memory h1) c" by (rule data_kept_untouched [OF un(2)]) simp
    moreover have "untouched A (memory h) (memory h1)" by (rule untouched_mono [OF un(2)]) blast
    ultimately show ?thesis
      using run data_kept_trans untouched_trans by (intro exI conjI) (assumption | simp | blast)+
  qed
qed

text \<open>A free block in front of the one to enlarge: the data move to its start.\<close>

lemma merge_left:
  assumes ok: "heap_ok brk h (xs @ (a, n) # ws) (insert (c, k) A)" and new: "(c, k) \<notin> A" and ac: "a + n = c"
  shows "\<exists>h'. merge_adjacent t h (link_of xs) (of_nat c) (of_nat (c + 8)) (of_nat (c + k)) (of_nat k)
      = merge_adjacent t h' (link_of xs) (of_nat a) (of_nat (a + 8)) (of_nat (a + (n + k))) (of_nat (n + k))
    \<and> heap_ok brk h' (xs @ ws) (insert (a, n + k) A) \<and> (a, n + k) \<notin> A \<and> untouched A (memory h) (memory h')
    \<and> data_kept (k - 8) (memory h) c (memory h') a"
proof -
  note at = path_head_at [OF ok]
  note blk = live_block [OF ok]
  define h1 where "h1 = assign (link_of xs) (ptr_of ws) h"
  note un = unlink_block [OF ok, folded h1_def]
  have ok1: "heap_ok brk h1 (xs @ ws) (insert (c, k) (insert (a, n) A))" using un(1) by (simp add: insert_commute)
  define m where "m = blit (memory h1) (of_nat (a + 8)) (of_nat (c + 8)) (k - 8)"
  define h' where "h' = set_size (of_nat a) (of_nat (n + k)) (h1\<lparr>memory := m\<rparr>)"
  have w: "unat (of_nat (a + 8) :: addr) = a + 8" "unat (of_nat (c + 8) :: addr) = c + 8"
      "unat (of_nat (k - 8) :: u64) = k - 8" "unat (of_nat a :: addr) = a" "unat (of_nat (c + k) :: addr) = c + k"
    using at(5,6) blk(2,3) ac by (simp_all add: unat_of_nat_eq del: of_nat_add of_nat_diff)
  have "chunk_data_size (memory h1) (of_nat c) = of_nat (k - 8)"
    using live_block(7) [OF ok1] blk(3) by (simp add: chunk_data_size_def chunk_size_def of_nat_diff)
  moreover have "memmove t (memory h1) (of_nat (a + 8)) (of_nat (c + 8)) (of_nat (k - 8)) = Some (m, of_nat (a + 8))"
    using memmove_blit [of "of_nat (a + 8)" "of_nat (k - 8)" "of_nat (c + 8)" t "memory h1"] blk(2,3) ac
    unfolding w m_def by simp
  moreover have to_data: "chunk_to_data (of_nat x) = of_nat (x + 8)" for x by (simp add: chunk_to_data_def)
  ultimately have move: "memmove t (memory h1) (chunk_to_data (of_nat a)) (chunk_to_data (of_nat c))
      (chunk_data_size (memory h1) (of_nat c)) = Some (m, of_nat (a + 8))"
    by (simp only:)
  have le: "(of_nat a :: addr) \<le> of_nat (c + k)" unfolding word_le_nat_alt w using ac by simp
  have sizes: "(of_nat k :: u64) + of_nat n = of_nat (n + k)" "c + k = a + (n + k)" using ac by simp_all
  have "assign (link_of xs) (chunk_next (memory h) (of_nat a)) h = h1" by (simp only: at(3) h1_def)
  from merge_adjacent_left [OF at(1,8) le at(4) [unfolded ac] this move, of "of_nat (c + 8)" "of_nat k"]
  have run: "merge_adjacent t h (link_of xs) (of_nat c) (of_nat (c + 8)) (of_nat (c + k)) (of_nat k)
      = merge_adjacent t h' (link_of xs) (of_nat a) (of_nat (a + 8)) (of_nat (a + (n + k))) (of_nat (n + k))"
    unfolding at(2) sizes to_data h'_def by simp
  have m_at: "m (of_nat x) = (if a + 8 \<le> x \<and> x < a + 8 + (k - 8) then memory h1 (of_nat (c + 8 + (x - (a + 8))))
      else memory h1 (of_nat x))" if "x < 2 ^ 63" for x
    unfolding m_def using that at(5) blk(2) ac by (intro blit_at) simp_all
  have "same_but a (c + k) (memory h1) m" unfolding same_but_def
  proof (intro allI impI)
    fix x assume "x < 2 ^ 63" "\<not> (a \<le> x \<and> x < c + k)"
    then show "m (of_nat x) = memory h1 (of_nat x)" using m_at [of x] blk(3) ac by auto
  qed
  moreover have mem: "memory h' = store64 m (of_nat a) (of_nat (n + k))" by (simp add: h'_def)
  moreover have "same_but a (c + k) m (store64 m (of_nat a) (of_nat (n + k)))"
    using ac at(6) blk(2) by (intro same_but_store) simp_all
  ultimately have sb: "same_but a (c + k) (memory h1) (memory h')" by (simp only: same_but_trans)
  from join_blocks [OF un(1) _ new ac sb] at(9)
  have j: "heap_ok brk h' (xs @ ws) (insert (a, n + k) A)" "untouched A (memory h1) (memory h')"
    by (simp_all add: mem) (simp_all add: h'_def)
  have "memory h' (of_nat (a + 8 + i)) = memory h1 (of_nat (c + 8 + i))" if "i < k - 8" for i
  proof -
    have "memory h' (of_nat (a + 8 + i)) = m (of_nat (a + 8 + i))"
      unfolding mem using that ac blk(2) by (intro store_apart) simp_all
    also have "8 + i < k" using that by simp
    then have "m (of_nat (a + 8 + i)) = memory h1 (of_nat (c + 8 + i))"
      using that ac blk(2) by (subst m_at) simp_all
    finally show ?thesis .
  qed
  then have "data_kept (k - 8) (memory h1) c (memory h') a" by (simp add: data_kept_def)
  with data_kept_untouched [OF un(2), of c k] have "data_kept (k - 8) (memory h) c (memory h') a"
    using data_kept_trans by blast
  moreover have "untouched A (memory h) (memory h')"
    using untouched_trans [OF untouched_mono [OF un(2)] j(2)] by blast
  moreover have "(a, n + k) \<notin> A" using live_start [OF un(1) at(9)] by blast
  ultimately show ?thesis using run j(1) by blast
qed

lemma merge_adjacent_spec:
  assumes "heap_ok brk h (xs @ ys) (insert (c, k) A)" and "(c, k) \<notin> A" and "\<forall>x \<in> set xs. fst x + snd x < c"
  shows "\<exists>h' fl' c' k'. merge_adjacent t h (link_of xs) (of_nat c) (of_nat (c + 8)) (of_nat (c + k)) (of_nat k)
      = Some (h', of_nat c', of_nat (c' + 8), of_nat k')
    \<and> heap_ok brk h' fl' (insert (c', k') A) \<and> (c', k') \<notin> A \<and> k \<le> k' \<and> untouched A (memory h) (memory h')
    \<and> data_kept (k - 8) (memory h) c (memory h') c'"
  using assms
proof (induction ys arbitrary: xs)
  case Nil
  have "\<forall>y \<in> set []. c + k \<le> fst y" by simp
  from merge_right [OF Nil.prems(1,2) this, of t "of_nat (c + 8)"] live_start [OF Nil.prems(1,2)]
  show ?case by blast
next
  case (Cons y ys)
  obtain a n where y: "y = (a, n)" by (cases y)
  note ok = Cons.prems(1) [unfolded y]
  note at = path_head_at [OF ok]
  note blk = live_block [OF ok]
  have "sorted_wrt gap (xs @ (a, n) # ys)" using ok by (simp add: heap_ok_def blocks_ok_def)
  then have behind: "\<forall>z \<in> set ys. a + n < fst z" by (simp add: sorted_wrt_append gap_def)
  have "c + k \<le> a \<or> a + n \<le> c" using bspec [OF blk(12), of "(a, n)"] by simp
  then consider "c + k \<le> a" | "a + n = c" | "a + n < c" by linarith
  then show ?case
  proof cases
    case 1
    then have "\<forall>z \<in> set ((a, n) # ys). c + k \<le> fst z" using behind by auto
    from merge_right [OF ok Cons.prems(2) this, of t "of_nat (c + 8)"] live_start [OF ok Cons.prems(2)]
    show ?thesis unfolding y by blast
  next
    case 2
    obtain h1 where l: "merge_adjacent t h (link_of xs) (of_nat c) (of_nat (c + 8)) (of_nat (c + k)) (of_nat k)
          = merge_adjacent t h1 (link_of xs) (of_nat a) (of_nat (a + 8)) (of_nat (a + (n + k))) (of_nat (n + k))"
        "heap_ok brk h1 (xs @ ys) (insert (a, n + k) A)" "(a, n + k) \<notin> A" "untouched A (memory h) (memory h1)"
        "data_kept (k - 8) (memory h) c (memory h1) a"
      using merge_left [OF ok Cons.prems(2) 2, of t] by blast
    have "\<forall>z \<in> set ys. a + (n + k) \<le> fst z"
    proof
      fix z assume z: "z \<in> set ys"
      then have "a + (n + k) \<le> fst z \<or> fst z + snd z \<le> a" using bspec [OF live_block(12) [OF l(2)], of z] by simp
      then show "a + (n + k) \<le> fst z" using bspec [OF behind z] by linarith
    qed
    from merge_right [OF l(2,3) this, of t "of_nat (a + 8)"]
    obtain h' fl' k' where r: "merge_adjacent t h1 (link_of xs) (of_nat a) (of_nat (a + 8)) (of_nat (a + (n + k)))
          (of_nat (n + k)) = Some (h', of_nat a, of_nat (a + 8), of_nat k')"
        "heap_ok brk h' fl' (insert (a, k') A)" "n + k \<le> k'" "untouched A (memory h1) (memory h')"
        "data_kept (n + k - 8) (memory h1) a (memory h') a"
      by blast
    have "data_kept (k - 8) (memory h) c (memory h') a"
      by (rule data_kept_trans [OF l(5) data_kept_le [OF r(5)]]) simp
    moreover have "untouched A (memory h) (memory h')" by (rule untouched_trans [OF l(4) r(4)])
    moreover have "k \<le> k'" using r(3) by simp
    ultimately show ?thesis using l(1) r(1,2) live_start [OF l(2,3)] unfolding y
      by (intro exI [of _ h'] exI [of _ fl'] exI [of _ a] exI [of _ k']) simp
  next
    case 3
    have "(of_nat a :: addr) < of_nat (c + k)" "(of_nat (a + n) :: addr) \<noteq> of_nat c"
      using 3 blk(2) by (simp_all add: word_less_nat_alt word_unat_eq_iff unat_of_nat_eq del: of_nat_add)
    from merge_adjacent_skip [OF at(1,8) this(1), of "of_nat c"] this(2)
    have "merge_adjacent t h (link_of xs) (of_nat c) (of_nat (c + 8)) (of_nat (c + k)) (of_nat k)
        = merge_adjacent t h (link_of (xs @ [(a, n)])) (of_nat c) (of_nat (c + 8)) (of_nat (c + k)) (of_nat k)"
      unfolding at(4) by simp
    moreover have "heap_ok brk h ((xs @ [(a, n)]) @ ys) (insert (c, k) A)" using ok by simp
    moreover have "\<forall>x \<in> set (xs @ [(a, n)]). fst x + snd x < c" using Cons.prems(3) 3 by auto
    ultimately show ?thesis using Cons.IH [of "xs @ [(a, n)]"] Cons.prems(2) by (simp del: of_nat_add)
  qed
qed

section \<open>realloc\<close>

text \<open>
  What \<open>realloc\<close> of the block \<open>(c, k)\<close> to \<open>n\<close> bytes achieves: NULL, the object being kept (but
  perhaps moved), or a block that is large enough and holds the old data.
\<close>

definition reallocated ::
  "('e \<Rightarrow> addr) \<Rightarrow> u64 \<Rightarrow> mem \<Rightarrow> nat \<Rightarrow> nat \<Rightarrow> block set \<Rightarrow> addr \<times> 'e heap \<Rightarrow> bool" where
  "reallocated brk n m c k A = (\<lambda>(p, h').
     untouched A m (memory h')
     \<and> (\<exists>c' k' fl'. heap_ok brk h' fl' (insert (c', k') A) \<and> (c', k') \<notin> A
        \<and> (p = 0 \<and> k \<le> k' \<and> data_kept (k - 8) m c (memory h') c'
           \<or> p = of_nat (c' + 8) \<and> unat n + 8 \<le> k' \<and> data_kept (min (k - 8) (unat n)) m c (memory h') c')))"

lemma reallocatedI:
  assumes "heap_ok brk h' fl' (insert (c', k') A)" and "(c', k') \<notin> A" and "untouched A m (memory h')"
    and "unat n + 8 \<le> k'" and "data_kept i m c (memory h') c'" and "min (k - 8) (unat n) \<le> i"
  shows "reallocated brk n m c k A (of_nat (c' + 8), h')"
  using assms(1-4) data_kept_le [OF assms(5,6)] unfolding reallocated_def by blast

lemma reallocated_after:
  assumes "reallocated brk n m1 c1 k1 A r" and "untouched A m m1" and "data_kept (k - 8) m c m1 c1" and "k \<le> k1"
  shows "reallocated brk n m c k A r"
proof -
  obtain p h' where r: "r = (p, h')" by (cases r)
  obtain c' k' fl' where h': "untouched A m1 (memory h')" "heap_ok brk h' fl' (insert (c', k') A)" "(c', k') \<notin> A"
      "p = 0 \<and> k1 \<le> k' \<and> data_kept (k1 - 8) m1 c1 (memory h') c'
       \<or> p = of_nat (c' + 8) \<and> unat n + 8 \<le> k' \<and> data_kept (min (k1 - 8) (unat n)) m1 c1 (memory h') c'"
    using assms(1) unfolding reallocated_def r by blast
  have kept: "data_kept j m c (memory h') c'" if "data_kept i m1 c1 (memory h') c'" "j \<le> i" "j \<le> k - 8" for i j
    using data_kept_trans [OF data_kept_le [OF assms(3)] data_kept_le [OF that(1)]] that(2,3) by blast
  have le: "k - 8 \<le> k1 - 8" "min (k - 8) (unat n) \<le> min (k1 - 8) (unat n)" "k \<le> k1" using assms(4) by auto
  have "p = 0 \<and> k \<le> k' \<and> data_kept (k - 8) m c (memory h') c'
       \<or> p = of_nat (c' + 8) \<and> unat n + 8 \<le> k' \<and> data_kept (min (k - 8) (unat n)) m c (memory h') c'"
    using h'(4)
  proof (elim disjE conjE)
    assume "p = 0" "k1 \<le> k'" "data_kept (k1 - 8) m1 c1 (memory h') c'"
    then show ?thesis using kept [OF _ le(1)] le(3) by auto
  next
    assume "p = of_nat (c' + 8)" "unat n + 8 \<le> k'" "data_kept (min (k1 - 8) (unat n)) m1 c1 (memory h') c'"
    then show ?thesis using kept [OF _ le(2)] by auto
  qed
  then show ?thesis using untouched_trans [OF assms(2) h'(1)] h'(2,3) unfolding reallocated_def r by blast
qed

text \<open>The block is large enough; its tail is freed if it makes a chunk.\<close>

lemma realloc_fit:
  assumes ok: "heap_ok brk h fl (insert (c, k) A)" and new: "(c, k) \<notin> A"
    and s: "8 dvd unat s" "16 \<le> unat s" "unat n + 8 \<le> unat s" "unat s \<le> k"
  shows "\<exists>r. (let extra = of_nat k - s in
       if extra \<ge> MALLOC_MIN_SIZE then do {
         let h = set_size (of_nat c) s h;
         h \<leftarrow> insert_free_chunk (chunk_end (memory h) (of_nat c)) extra h;
         Some (of_nat (c + 8), h)
       } else Some (of_nat (c + 8), h)) = Some r
    \<and> reallocated brk n (memory h) c k A r"
proof -
  note blk = live_block [OF ok]
  have "unat (of_nat k :: u64) = k" using blk(2) by (simp add: unat_of_nat_eq)
  then have "unat (of_nat k - s) = k - unat s" using s(4) by (simp add: unat_sub_if')
  then have extra: "of_nat k - s \<ge> MALLOC_MIN_SIZE \<longleftrightarrow> unat s + 16 \<le> k"
    using s(4) by (auto simp: word_le_nat_alt MALLOC_MIN_SIZE_def)
  show ?thesis
  proof (cases "unat s + 16 \<le> k")
    case True
    obtain h' fl' where r: "insert_free_chunk (chunk_end (memory (set_size (of_nat c) s h)) (of_nat c)) (of_nat k - s)
        (set_size (of_nat c) s h) = Some h'" "heap_ok brk h' fl' (insert (c, unat s) A)"
        "untouched A (memory h) (memory h')" "data_kept (unat s - 8) (memory h) c (memory h') c"
      using shrink_spec [OF ok new s(1,2) True] by blast
    have "reallocated brk n (memory h) c k A (of_nat (c + 8), h')"
      using s(3) by (intro reallocatedI [OF r(2) live_start [OF ok new] r(3) s(3) r(4)]) simp
    then show ?thesis unfolding Let_def if_P [OF extra [THEN iffD2, OF True]] r(1) by simp
  next
    case False
    have "reallocated brk n (memory h) c k A (of_nat (c + 8), h)"
      using s(3,4) by (intro reallocatedI [OF ok new untouched_refl _ data_kept_refl order_refl]) simp
    then show ?thesis using extra False by (auto simp: Let_def)
  qed
qed

text \<open>The block is too small: a new one is allocated, the data are copied and the old one is freed.\<close>

lemma realloc_move:
  assumes ok: "heap_ok brk h fl (insert (c, k) A)" and new: "(c, k) \<notin> A"
    and doc: "documented_sbrk sbrk brk" and n: "0 < unat n" "unat n \<le> 2 ^ 64 - 16"
    and k: "k < unat (chunk_size_for_data n)"
  shows "\<exists>r. do {
       (new, h) \<leftarrow> noc_malloc sbrk n h;
       if new \<noteq> 0 then do {
         (m, _) \<leftarrow> memcpy t (memory h) new (of_nat (c + 8)) (chunk_data_size (memory h) (of_nat c));
         h \<leftarrow> noc_free (of_nat (c + 8)) (h\<lparr>memory := m\<rparr>);
         Some (new, h)
       } else Some (new, h)
     } = Some r
    \<and> reallocated brk n (memory h) c k A r"
proof -
  let ?A = "insert (c, k) A"
  note blk = live_block [OF ok]
  have kn: "k \<le> unat n + 8"
  proof -
    have "8 dvd unat (chunk_size_for_data n)" "unat (chunk_size_for_data n) < unat n + 16"
      using chunk_size_for_data_spec [OF n] by simp_all
    then show ?thesis using k blk(5) by presburger
  qed
  obtain p h1 where m: "noc_malloc sbrk n h = Some (p, h1)" "allocated brk n h fl ?A (p, h1)"
    using noc_malloc_spec [OF ok doc n] by auto
  have u1: "untouched ?A (memory h) (memory h1)" using m(2) by (simp add: allocated_def)
  have kept1: "data_kept (k - 8) (memory h) c (memory h1) c" by (rule data_kept_untouched [OF u1]) simp
  consider (null) "p = 0" "heap_ok brk h1 fl ?A"
    | (got) a j fl' where "p = of_nat (a + 8)" "unat n + 8 \<le> j" "\<forall>x \<in> ?A. sep (a, j) x"
      "heap_ok brk h1 fl' (insert (a, j) ?A)"
    using m(2) by (auto simp: allocated_def)
  then show ?thesis
  proof cases
    case null
    have "reallocated brk n (memory h) c k A (0, h1)"
      unfolding reallocated_def using null(2) new kept1 untouched_mono [OF u1, of A] by blast
    then show ?thesis using m(1) null(1) by simp
  next
    case got
    note blk1 = live_block [OF got(4)]
    have sep: "a + j \<le> c \<or> c + k \<le> a" using got(3) by (auto simp: sep_def)
    have fresh: "(a, j) \<notin> ?A" using got(2,3) by (auto simp: sep_def)
    have w: "unat (of_nat (a + 8) :: addr) = a + 8" "unat (of_nat (c + 8) :: addr) = c + 8"
        "unat (of_nat (k - 8) :: u64) = k - 8"
      using blk(2,3) blk1(2,3) by (simp_all add: unat_of_nat_eq del: of_nat_add of_nat_diff)
    have p0: "p \<noteq> 0" using w(1) got(1) by auto
    define m' where "m' = blit (memory h1) (of_nat (a + 8)) (of_nat (c + 8)) (k - 8)"
    have ok1: "heap_ok brk h1 fl' (insert (c, k) (insert (a, j) A))" using got(4) by (simp add: insert_commute)
    have ds: "chunk_data_size (memory h1) (of_nat c) = of_nat (k - 8)"
      using live_block(7) [OF ok1] blk(3) by (simp add: chunk_data_size_def chunk_size_def of_nat_diff)
    have "up_safe (of_nat (a + 8)) (of_nat (c + 8)) (k - 8)"
      using sep kn got(2) blk(2,3) blk1(2) unfolding up_safe_def w by auto
    from target_copy.forward [of _ _ "of_nat (k - 8)" t "memory h1", unfolded w(3), OF this]
    have copy: "memcpy t (memory h1) (of_nat (a + 8)) (of_nat (c + 8)) (of_nat (k - 8)) = Some (m', of_nat (a + 8))"
      by (simp add: m'_def)
    have m_at: "m' (of_nat x) = (if a + 8 \<le> x \<and> x < a + 8 + (k - 8) then memory h1 (of_nat (c + 8 + (x - (a + 8))))
        else memory h1 (of_nat x))" if "x < 2 ^ 63" for x
      unfolding m'_def using that kn got(2) blk1(2) by (intro blit_at) simp_all
    have "same_but (a + 8) (a + j) (memory h1) m'" unfolding same_but_def
    proof (intro allI impI)
      fix x assume "x < 2 ^ 63" "\<not> (a + 8 \<le> x \<and> x < a + j)"
      then show "m' (of_nat x) = memory h1 (of_nat x)" using m_at [of x] kn got(2) blk(3) by auto
    qed
    from store_data [OF got(4) _ this] fresh
    have ok2: "heap_ok brk (h1\<lparr>memory := m'\<rparr>) fl' (insert (c, k) (insert (a, j) A))" "untouched ?A (memory h1) m'"
      by (simp_all add: insert_commute)
    have kept2: "data_kept (k - 8) (memory h1) c m' a" unfolding data_kept_def
    proof (intro allI impI)
      fix i assume i: "i < k - 8"
      then have "8 + i < k" by simp
      then show "m' (of_nat (a + 8 + i)) = memory h1 (of_nat (c + 8 + i))"
        using i kn got(2) blk1(2) by (subst m_at) simp_all
    qed
    have "(c, k) \<notin> insert (a, j) A" using new fresh by auto
    from noc_free_spec [OF ok2(1) this]
    obtain h' fl'' where f: "noc_free (of_nat (c + 8)) (h1\<lparr>memory := m'\<rparr>) = Some h'" "heap_ok brk h' fl'' (insert (a, j) A)"
        "untouched (insert (a, j) A) m' (memory h')"
      by auto
    have "data_kept (k - 8) m' a (memory h') a"
      by (rule data_kept_le [OF data_kept_untouched [OF f(3), of a j]]) (use kn got(2) in simp_all)
    then have "data_kept (k - 8) (memory h) c (memory h') a"
      using data_kept_trans [OF kept1 data_kept_trans [OF kept2]] by blast
    moreover have "untouched A (memory h) (memory h')"
      using untouched_trans [OF untouched_mono [OF u1] untouched_trans [OF untouched_mono [OF ok2(2)] untouched_mono [OF f(3)]]]
      by blast
    ultimately have "reallocated brk n (memory h) c k A (p, h')"
      unfolding got(1) using fresh by (intro reallocatedI [OF f(2) _ _ got(2) _ min.cobounded1]) simp_all
    then show ?thesis using m(1) p0 copy f(1) by (simp add: got(1) ds del: of_nat_add)
  qed
qed

lemma noc_realloc_spec:
  assumes ok: "heap_ok brk h fl (insert (c, k) A)" and new: "(c, k) \<notin> A"
    and doc: "documented_sbrk sbrk brk" and n: "0 < unat n" "unat n \<le> 2 ^ 64 - 16"
  shows "\<exists>r. noc_realloc t sbrk (of_nat (c + 8)) n h = Some r \<and> reallocated brk n (memory h) c k A r"
proof -
  define s where "s = chunk_size_for_data n"
  have s: "8 dvd unat s" "16 \<le> unat s" "unat n + 8 \<le> unat s"
    using chunk_size_for_data_spec [OF n] by (simp_all add: s_def)
  note blk = live_block [OF ok]
  have w: "unat (of_nat (c + 8) :: addr) = c + 8" "unat (of_nat (c + k) :: addr) = c + k"
      "unat (of_nat k :: u64) = k"
    using blk(2,3) by (simp_all add: unat_of_nat_eq del: of_nat_add)
  have n0: "n \<noteq> 0" using n(1) by auto
  have p0: "(of_nat (c + 8) :: addr) \<noteq> 0" unfolding word_unat_eq_iff w by simp
  have tests: "\<not> ((of_nat (c + 8) :: addr) < sbrk_start h \<or> (of_nat (c + 8) :: addr) > sbrk_end h)"
      "\<not> (of_nat (c + k) :: addr) > sbrk_end h"
    unfolding word_less_nat_alt w using blk(3,9,10) by simp_all
  have chunk: "chunk_from_data (of_nat (c + 8)) = of_nat c" by (simp add: chunk_from_data_def)
  have size: "chunk_size (memory h) (of_nat c) = of_nat k" using blk(7) by (simp add: chunk_size_def)
  have less: "(of_nat k :: u64) < s \<longleftrightarrow> k < unat s" "(of_nat k :: u64) \<ge> s \<longleftrightarrow> unat s \<le> k"
    by (simp_all add: word_less_nat_alt word_le_nat_alt w)
  define rest where "rest = (\<lambda>(h, chunk, ptr, old_size).
      if old_size \<ge> s then
        let extra = old_size - s in
        if extra \<ge> MALLOC_MIN_SIZE then do {
          let h = set_size chunk s h;
          h \<leftarrow> insert_free_chunk (chunk_end (memory h) chunk) extra h;
          Some (ptr, h)
        }
        else Some (ptr, h)
      else do {
        (new, h) \<leftarrow> noc_malloc sbrk n h;
        if new \<noteq> 0 then do {
          (m, _) \<leftarrow> memcpy t (memory h) new ptr (chunk_data_size (memory h) chunk);
          h \<leftarrow> noc_free ptr (h\<lparr>memory := m\<rparr>);
          Some (new, h)
        }
        else Some (new, h)
      })"
  have run: "noc_realloc t sbrk (of_nat (c + 8)) n h =
      (if k < unat s then do {
         (grown, h) \<leftarrow> chunk_grow sbrk (of_nat c) s h;
         if grown then Some (h, of_nat c, of_nat (c + 8), s)
         else merge_adjacent t h Head (of_nat c) (of_nat (c + 8)) (of_nat (c + k)) (of_nat k)
       } else Some (h, of_nat c, of_nat (c + 8), of_nat k)) \<bind> rest"
    unfolding noc_realloc_def if_not_P [OF p0] if_not_P [OF n0] if_not_P [OF tests(1)] Let_def chunk blk(8)
      if_not_P [OF tests(2)] size s_def [symmetric] less(1) rest_def
    by (simp add: split_beta)
  have fits: "\<exists>r. rest (h1, of_nat c1, of_nat (c1 + 8), of_nat k1) = Some r \<and> reallocated brk n (memory h1) c1 k1 A r"
    if ok1: "heap_ok brk h1 fl1 (insert (c1, k1) A)" "(c1, k1) \<notin> A" for h1 fl1 c1 k1
  proof -
    have "unat (of_nat k1 :: u64) = k1" using live_block(2) [OF ok1(1)] by (simp add: unat_of_nat_eq)
    then have le: "(of_nat k1 :: u64) \<ge> s \<longleftrightarrow> unat s \<le> k1" by (simp add: word_le_nat_alt)
    show ?thesis
    proof (cases "unat s \<le> k1")
      case True
      then show ?thesis using realloc_fit [OF ok1 s(1,2,3) True] le unfolding rest_def by (simp del: of_nat_add)
    next
      case False
      then have "k1 < unat (chunk_size_for_data n)" by (simp add: s_def)
      from realloc_move [OF ok1 doc n this, of t] show ?thesis using le False unfolding rest_def by (simp del: of_nat_add)
    qed
  qed
  show ?thesis
  proof (cases "k < unat s")
    case False
    then show ?thesis using fits [OF ok new] unfolding run by simp
  next
    case True
    obtain g h1 fl1 k1 where g: "chunk_grow sbrk (of_nat c) s h = Some (g, h1)"
        "heap_ok brk h1 fl1 (insert (c, k1) A)" "untouched A (memory h) (memory h1)"
        "data_kept (k - 8) (memory h) c (memory h1) c" "(c, k1) \<notin> A" "if g then unat s \<le> k1 else k1 = k"
      using chunk_grow_spec [OF ok new doc s(1) True] by blast
    show ?thesis
    proof (cases g)
      case grown: True
      have "reallocated brk n (memory h) c k A (of_nat (c + 8), h1)"
        using g(6) grown s(3) by (intro reallocatedI [OF g(2,5,3) _ g(4) min.cobounded1]) simp
      moreover have "rest (h1, of_nat c, of_nat (c + 8), s) = Some (of_nat (c + 8), h1)"
        by (simp add: rest_def MALLOC_MIN_SIZE_def)
      ultimately show ?thesis using g(1) grown True unfolding run by simp
    next
      case notgrown: False
      then have k1: "k1 = k" using g(6) by simp
      have ok1: "heap_ok brk h1 ([] @ fl1) (insert (c, k) A)" using g(2) k1 by simp
      obtain h2 fl2 c2 k2 where m: "merge_adjacent t h1 Head (of_nat c) (of_nat (c + 8)) (of_nat (c + k)) (of_nat k)
            = Some (h2, of_nat c2, of_nat (c2 + 8), of_nat k2)"
          "heap_ok brk h2 fl2 (insert (c2, k2) A)" "(c2, k2) \<notin> A" "k \<le> k2" "untouched A (memory h1) (memory h2)"
          "data_kept (k - 8) (memory h1) c (memory h2) c2"
        using merge_adjacent_spec [OF ok1 new, of t] by (auto simp del: of_nat_add)
      obtain r where r: "rest (h2, of_nat c2, of_nat (c2 + 8), of_nat k2) = Some r"
          "reallocated brk n (memory h2) c2 k2 A r"
        using fits [OF m(2,3)] by blast
      have "reallocated brk n (memory h) c k A r"
        by (rule reallocated_after [OF r(2) untouched_trans [OF g(3) m(5)] data_kept_trans [OF g(4) m(6)] m(4)])
      then show ?thesis using g(1) notgrown True m(1) r(1) unfolding run by simp
    qed
  qed
qed

end
