(* ===== verification/Malloc_Client.thy ===== *)
theory Malloc_Client
  imports Malloc_Realloc
begin

text \<open>
  What a client of the allocator may rely on, as an interface: requests are served, live blocks are
  disjoint, and only the client's own stores change the data of a live block.  The client's lemmas
  are proved from the interface, and \<open>malloc\<close>, \<open>free\<close> and \<open>realloc\<close> are shown to provide it.
\<close>

section \<open>Clients\<close>

text \<open>
  A client allocates, releases and resizes blocks it holds, and stores bytes into the data of blocks
  it holds, in any order, with sizes of zero and a null pointer given to \<open>realloc\<close>; the state is paired with the set of
  the blocks the client holds.  It does not call \<open>free\<close> with a null pointer, which is not ignored when the
  first request failed after it moved the break (\<open>free_null_reads\<close>).  The data of a block \<open>(c, k)\<close> are the bytes from \<open>c + 8\<close>
  to its end.  When \<open>realloc\<close> returns a null pointer the client gives its block up: for the size zero the
  block was freed, otherwise it may have been moved away (\<open>realloc_null_moves\<close>), so that a client which relied
  on the documentation and went on with the old pointer would be lost.
\<close>

inductive client_step ::
  "(u64 \<Rightarrow> 's \<Rightarrow> (addr \<times> 's) option) \<Rightarrow> (addr \<Rightarrow> 's \<Rightarrow> 's option)
    \<Rightarrow> (addr \<Rightarrow> u64 \<Rightarrow> 's \<Rightarrow> (addr \<times> 's) option) \<Rightarrow> ('s \<Rightarrow> addr \<Rightarrow> block)
    \<Rightarrow> (addr \<Rightarrow> byte \<Rightarrow> 's \<Rightarrow> 's) \<Rightarrow> 's \<times> block set \<Rightarrow> 's \<times> block set \<Rightarrow> bool"
  for alloc release resize block_of put where
  Refused: "unat n \<le> 2 ^ 64 - 16 \<Longrightarrow> alloc n s = Some (0, s') \<Longrightarrow>
    client_step alloc release resize block_of put (s, A) (s', A)"
| Allocated: "unat n \<le> 2 ^ 64 - 16 \<Longrightarrow> alloc n s = Some (p, s') \<Longrightarrow> p \<noteq> 0 \<Longrightarrow>
    client_step alloc release resize block_of put (s, A) (s', insert (block_of s' p) A)"
| Released: "(c, k) \<in> A \<Longrightarrow> release (of_nat (c + 8)) s = Some s' \<Longrightarrow>
    client_step alloc release resize block_of put (s, A) (s', A - {(c, k)})"
| Resized: "(c, k) \<in> A \<Longrightarrow> unat n \<le> 2 ^ 64 - 16 \<Longrightarrow>
    resize (of_nat (c + 8)) n s = Some (p, s') \<Longrightarrow> p \<noteq> 0 \<Longrightarrow>
    client_step alloc release resize block_of put (s, A) (s', insert (block_of s' p) (A - {(c, k)}))"
| Given_Up: "(c, k) \<in> A \<Longrightarrow> unat n \<le> 2 ^ 64 - 16 \<Longrightarrow>
    resize (of_nat (c + 8)) n s = Some (0, s') \<Longrightarrow>
    client_step alloc release resize block_of put (s, A) (s', A - {(c, k)})"
| Resized_Null: "unat n \<le> 2 ^ 64 - 16 \<Longrightarrow> resize 0 n s = Some (p, s') \<Longrightarrow>
    client_step alloc release resize block_of put (s, A) (s', if p = 0 then A else insert (block_of s' p) A)"
| Stored: "(c, k) \<in> A \<Longrightarrow> 8 \<le> i \<Longrightarrow> i < k \<Longrightarrow>
    client_step alloc release resize block_of put (s, A) (put (of_nat (c + i)) v s, A)"

section \<open>The interface\<close>

locale allocator =
  fixes alloc :: "u64 \<Rightarrow> 's \<Rightarrow> (addr \<times> 's) option"
    and release :: "addr \<Rightarrow> 's \<Rightarrow> 's option"
    and resize :: "addr \<Rightarrow> u64 \<Rightarrow> 's \<Rightarrow> (addr \<times> 's) option"
    and block_of :: "'s \<Rightarrow> addr \<Rightarrow> block"
    and put :: "addr \<Rightarrow> byte \<Rightarrow> 's \<Rightarrow> 's"
    and content :: "'s \<Rightarrow> mem"
    and inv :: "'s \<Rightarrow> block set \<Rightarrow> bool"
  assumes alloc_law: "inv s A \<Longrightarrow> unat n \<le> 2 ^ 64 - 16 \<Longrightarrow>
      \<exists>p s'. alloc n s = Some (p, s') \<and> untouched A (content s) (content s')
        \<and> (p = 0 \<and> inv s' A
           \<or> p \<noteq> 0 \<and> inv s' (insert (block_of s' p) A) \<and> block_of s' p \<notin> A
             \<and> fst (block_of s' p) + 8 = unat p \<and> unat n + 8 \<le> snd (block_of s' p))"
    and release_law: "inv s A \<Longrightarrow> (c, k) \<in> A \<Longrightarrow>
      \<exists>s'. release (of_nat (c + 8)) s = Some s' \<and> inv s' (A - {(c, k)})
        \<and> untouched (A - {(c, k)}) (content s) (content s')"
    and resize_null: "resize 0 n s = alloc n s"
    and resize_law: "inv s A \<Longrightarrow> (c, k) \<in> A \<Longrightarrow> unat n \<le> 2 ^ 64 - 16 \<Longrightarrow>
      \<exists>p s'. resize (of_nat (c + 8)) n s = Some (p, s') \<and> untouched (A - {(c, k)}) (content s) (content s')
        \<and> (p = 0 \<longrightarrow> inv s' (A - {(c, k)}))
        \<and> (p \<noteq> 0 \<longrightarrow> inv s' (insert (block_of s' p) (A - {(c, k)})) \<and> block_of s' p \<notin> A - {(c, k)}
             \<and> fst (block_of s' p) + 8 = unat p \<and> unat n + 8 \<le> snd (block_of s' p)
             \<and> data_kept (min (k - 8) (unat n)) (content s) c (content s') (fst (block_of s' p)))"
    and put_law: "inv s A \<Longrightarrow> (c, k) \<in> A \<Longrightarrow> 8 \<le> i \<Longrightarrow> i < k \<Longrightarrow>
      inv (put (of_nat (c + i)) v s) A
      \<and> untouched (A - {(c, k)}) (content s) (content (put (of_nat (c + i)) v s))"
    and disjoint_law: "inv s A \<Longrightarrow> x \<in> A \<Longrightarrow> y \<in> A \<Longrightarrow> x \<noteq> y \<Longrightarrow> sep x y"
begin

lemma step_inv:
  assumes "client_step alloc release resize block_of put (s, A) (s', A')" and "inv s A"
  shows "inv s' A'"
  using assms(1)
proof (cases rule: client_step.cases)
  case (Refused n)
  then show ?thesis using alloc_law [OF assms(2), of n] by auto
next
  case (Allocated n p)
  then show ?thesis using alloc_law [OF assms(2), of n] by auto
next
  case (Released c k)
  then show ?thesis using release_law [OF assms(2), of c k] by auto
next
  case (Resized c k n p)
  then show ?thesis using resize_law [OF assms(2), of c k n] by auto
next
  case (Given_Up c k n)
  then show ?thesis using resize_law [OF assms(2), of c k n] by auto
next
  case (Resized_Null n p)
  then show ?thesis using alloc_law [OF assms(2), of n] resize_null [of n s] by auto
next
  case (Stored c k i v)
  then show ?thesis using put_law [OF assms(2), of c k i v] by auto
qed

lemma run_inv:
  assumes "(client_step alloc release resize block_of put)\<^sup>*\<^sup>* (s, A) (s', A')" and "inv s A"
  shows "inv s' A'"
  using assms(1) by (induction rule: rtranclp_induct2) (auto intro: step_inv assms(2))

text \<open>No request of a client is left without an answer.\<close>

lemma run_serves:
  assumes "(client_step alloc release resize block_of put)\<^sup>*\<^sup>* (s, A) (s', A')" and "inv s A"
  shows "unat n \<le> 2 ^ 64 - 16 \<Longrightarrow> alloc n s' \<noteq> None"
    and "(c, k) \<in> A' \<Longrightarrow> release (of_nat (c + 8)) s' \<noteq> None"
    and "(c, k) \<in> A' \<Longrightarrow> unat n \<le> 2 ^ 64 - 16 \<Longrightarrow> resize (of_nat (c + 8)) n s' \<noteq> None"
  using alloc_law [OF run_inv [OF assms], of n] release_law [OF run_inv [OF assms], of c k]
    resize_law [OF run_inv [OF assms], of c k n]
  by auto

lemma run_disjoint:
  assumes "(client_step alloc release resize block_of put)\<^sup>*\<^sup>* (s, A) (s', A')" and "inv s A"
    and "x \<in> A'" and "y \<in> A'" and "x \<noteq> y"
  shows "sep x y"
  by (rule disjoint_law [OF run_inv [OF assms(1,2)] assms(3,4,5)])

text \<open>Two allocations in a row.\<close>

lemma alloc_twice:
  assumes "inv s A" and "unat n \<le> 2 ^ 64 - 16" and "unat m \<le> 2 ^ 64 - 16"
    and "alloc n s = Some (p, s1)" and "p \<noteq> 0" and "alloc m s1 = Some (q, s2)" and "q \<noteq> 0"
  shows "(unat p + unat n \<le> unat q \<or> unat q + unat m \<le> unat p)
    \<and> untouched {(unat p, unat n)} (content s1) (content s2)"
proof -
  have 1: "inv s1 (insert (block_of s1 p) A)" "fst (block_of s1 p) + 8 = unat p" "unat n + 8 \<le> snd (block_of s1 p)"
    using alloc_law [OF assms(1,2)] assms(4,5) by auto
  have 2: "inv s2 (insert (block_of s2 q) (insert (block_of s1 p) A))" "block_of s2 q \<notin> insert (block_of s1 p) A"
      "fst (block_of s2 q) + 8 = unat q" "unat m + 8 \<le> snd (block_of s2 q)"
      "untouched (insert (block_of s1 p) A) (content s1) (content s2)"
    using alloc_law [OF 1(1) assms(3)] assms(6,7) by auto
  have "sep (block_of s1 p) (block_of s2 q)" using 2(2) by (intro disjoint_law [OF 2(1)]) auto
  moreover have "untouched {block_of s1 p} (content s1) (content s2)"
    by (rule untouched_mono [OF 2(5)]) blast
  ultimately show ?thesis using 1(2,3) 2(3,4) by (auto simp: sep_def untouched_def)
qed

end

section \<open>The allocator provides it\<close>

text \<open>The client's blocks are among the live blocks of the heap; those it gave up may be live, too.\<close>

definition heap_inv :: "(int \<Rightarrow> 'e \<Rightarrow> addr \<times> 'e) \<Rightarrow> ('e \<Rightarrow> addr) \<Rightarrow> 'e heap \<Rightarrow> block set \<Rightarrow> bool" where
  "heap_inv sbrk brk h A \<longleftrightarrow> documented_sbrk sbrk brk \<and> (\<exists>fl B. A \<subseteq> B \<and> heap_ok brk h fl B)"

text \<open>The block of a data pointer, and a store by the client.\<close>

definition block_at :: "'e heap \<Rightarrow> addr \<Rightarrow> block" where
  "block_at h p = (unat (chunk_from_data p), unat (chunk_size (memory h) (chunk_from_data p)))"

definition poke :: "addr \<Rightarrow> byte \<Rightarrow> 'e heap \<Rightarrow> 'e heap" where
  "poke p v h = h\<lparr>memory := (memory h)(p := v)\<rparr>"

lemma heap_ok_block:
  assumes "heap_ok brk h fl A" and "(a, k) \<in> A"
  shows "block_at h (of_nat (a + 8)) = (a, k)" and "unat (of_nat (a + 8) :: addr) = a + 8"
proof -
  have "blocks_ok (unat (sbrk_start h)) (unat (sbrk_end h)) fl A" and lim: "limits_ok brk h"
    and sz: "load64 (memory h) (of_nat a) = of_nat k"
    using assms by (auto simp: heap_ok_def)
  then have g: "good_block (unat (sbrk_start h)) (unat (sbrk_end h)) (a, k)"
    using assms(2) by (simp add: blocks_ok_def)
  have "a + k < 2 ^ 63 \<and> 16 \<le> k" using good_bounds [OF g limits_end [OF lim]] by simp
  then show "block_at h (of_nat (a + 8)) = (a, k)" "unat (of_nat (a + 8) :: addr) = a + 8"
    using sz by (auto simp: block_at_def chunk_from_data_def chunk_size_def unat_of_nat_eq simp del: of_nat_add)
      (simp_all add: unat_of_nat_eq)
qed

lemma noc_malloc_block:
  assumes "heap_ok brk h fl A" and "documented_sbrk sbrk brk" and "0 < unat n" "unat n \<le> 2 ^ 64 - 16"
  shows "\<exists>p h'. noc_malloc sbrk n h = Some (p, h') \<and> untouched A (memory h) (memory h')
    \<and> (p = 0 \<and> memory h' = memory h \<and> heap_ok brk h' fl A
       \<or> p \<noteq> 0 \<and> (\<exists>fl'. heap_ok brk h' fl' (insert (block_at h' p) A)) \<and> (\<forall>x \<in> A. sep (block_at h' p) x)
         \<and> block_at h' p \<notin> A
         \<and> fst (block_at h' p) + 8 = unat p \<and> unat n + 8 \<le> snd (block_at h' p))"
proof -
  obtain p h' where r: "noc_malloc sbrk n h = Some (p, h')" "allocated brk n h fl A (p, h')"
    using noc_malloc_spec [OF assms] by auto
  then consider "p = 0" "memory h' = memory h" "heap_ok brk h' fl A"
    | a k fl' where "p = of_nat (a + 8)" "unat n + 8 \<le> k" "\<forall>x \<in> A. sep (a, k) x"
      "heap_ok brk h' fl' (insert (a, k) A)"
    by (auto simp: allocated_def)
  then show ?thesis
  proof cases
    case 1
    then show ?thesis using r by (auto simp: allocated_def)
  next
    case 2
    have b: "block_at h' p = (a, k)" "unat p = a + 8"
      using heap_ok_block [OF 2(4), of a k] 2(1) by simp_all
    have "(a, k) \<notin> A" using 2(2,3) by (auto simp: sep_def)
    moreover have "p \<noteq> 0" using b(2) by auto
    ultimately show ?thesis using r 2 b by (auto simp: allocated_def)
  qed
qed

lemma noc_realloc_block:
  assumes "heap_ok brk h fl (insert (c, k) A)" and "(c, k) \<notin> A"
    and "documented_sbrk sbrk brk" and "0 < unat n" "unat n \<le> 2 ^ 64 - 16"
  shows "\<exists>p h'. noc_realloc t sbrk (of_nat (c + 8)) n h = Some (p, h') \<and> untouched A (memory h) (memory h')
    \<and> (p = 0 \<longrightarrow> (\<exists>fl' B. A \<subseteq> B \<and> heap_ok brk h' fl' B))
    \<and> (p \<noteq> 0 \<longrightarrow> (\<exists>fl'. heap_ok brk h' fl' (insert (block_at h' p) A)) \<and> block_at h' p \<notin> A
         \<and> fst (block_at h' p) + 8 = unat p \<and> unat n + 8 \<le> snd (block_at h' p)
         \<and> data_kept (min (k - 8) (unat n)) (memory h) c (memory h') (fst (block_at h' p)))"
proof -
  obtain p h' where r: "noc_realloc t sbrk (of_nat (c + 8)) n h = Some (p, h')"
      "reallocated brk n (memory h) c k A (p, h')"
    using noc_realloc_spec [OF assms, of t] by auto
  then obtain c' k' fl' where h': "untouched A (memory h) (memory h')" "heap_ok brk h' fl' (insert (c', k') A)"
      "(c', k') \<notin> A"
      "p \<noteq> 0 \<longrightarrow> p = of_nat (c' + 8) \<and> unat n + 8 \<le> k' \<and> data_kept (min (k - 8) (unat n)) (memory h) c (memory h') c'"
    unfolding reallocated_def by auto
  have "block_at h' (of_nat (c' + 8)) = (c', k')" "unat (of_nat (c' + 8) :: addr) = c' + 8"
    using heap_ok_block [OF h'(2), of c' k'] by simp_all
  then show ?thesis using r(1) h' by (intro exI conjI impI) auto
qed

lemma poke_ok:
  assumes ok: "heap_ok brk h fl A" and blk: "(c, k) \<in> A" and i: "8 \<le> i" "i < k"
  shows "heap_ok brk (poke (of_nat (c + i)) v h) fl A
    \<and> untouched (A - {(c, k)}) (memory h) (memory (poke (of_nat (c + i)) v h))"
proof -
  have "c + k < 2 ^ 63"
    using ok blk good_bounds [OF _ limits_end, of "unat (sbrk_start h)" h "(c, k)" brk]
    by (simp add: heap_ok_def blocks_ok_def)
  then have "unat (of_nat x :: addr) \<noteq> unat (of_nat (c + i) :: addr)"
    if "x < 2 ^ 63" "\<not> (c + 8 \<le> x \<and> x < c + k)" for x
    using that i by (auto simp: unat_of_nat_eq simp del: of_nat_add)
  then have "same_but (c + 8) (c + k) (memory h) ((memory h)(of_nat (c + i) := v))"
    unfolding same_but_def by (metis fun_upd_other)
  from store_data [OF ok blk this] show ?thesis by (simp add: poke_def)
qed

text \<open>The laws, with the blocks \<open>B\<close> of the heap, some of which the client holds.\<close>

lemma heap_invI: "documented_sbrk sbrk brk \<Longrightarrow> heap_ok brk h fl B \<Longrightarrow> A \<subseteq> B \<Longrightarrow> heap_inv sbrk brk h A"
  by (auto simp: heap_inv_def)

lemma malloc_law:
  assumes "heap_inv sbrk brk h A" and "unat n \<le> 2 ^ 64 - 16"
  shows "\<exists>p h'. malloc sbrk n h = Some (p, h') \<and> untouched A (memory h) (memory h')
    \<and> (p = 0 \<and> heap_inv sbrk brk h' A
       \<or> p \<noteq> 0 \<and> heap_inv sbrk brk h' (insert (block_at h' p) A) \<and> block_at h' p \<notin> A
         \<and> fst (block_at h' p) + 8 = unat p \<and> unat n + 8 \<le> snd (block_at h' p))"
proof (cases "n = 0")
  case True
  then show ?thesis using assms(1) by (auto simp: malloc_def noc_malloc_def untouched_def)
next
  case False
  obtain fl B where B: "A \<subseteq> B" "heap_ok brk h fl B" and doc: "documented_sbrk sbrk brk"
    using assms(1) by (auto simp: heap_inv_def)
  have "0 < unat n" using False by (simp add: unat_gt_0)
  from noc_malloc_block [OF B(2) doc this assms(2)]
  obtain p h' where r: "noc_malloc sbrk n h = Some (p, h')" "untouched B (memory h) (memory h')"
      and c: "p = 0 \<and> heap_ok brk h' fl B
        \<or> p \<noteq> 0 \<and> (\<exists>fl'. heap_ok brk h' fl' (insert (block_at h' p) B)) \<and> block_at h' p \<notin> B
          \<and> fst (block_at h' p) + 8 = unat p \<and> unat n + 8 \<le> snd (block_at h' p)"
    by blast
  have "untouched A (memory h) (memory h')" by (rule untouched_mono [OF r(2) B(1)])
  moreover have "heap_inv sbrk brk h' (insert (block_at h' p) A)" if "heap_ok brk h' fl' (insert (block_at h' p) B)" for fl'
    using that B(1) by (intro heap_invI [OF doc that]) blast
  moreover have "heap_inv sbrk brk h' A" if "heap_ok brk h' fl B" by (rule heap_invI [OF doc that B(1)])
  ultimately show ?thesis using r(1) c B(1) unfolding malloc_def by (intro exI [of _ p] exI [of _ h']) blast
qed

lemma realloc_law:
  assumes "heap_inv sbrk brk h A" and "(c, k) \<in> A" and "unat n \<le> 2 ^ 64 - 16"
  shows "\<exists>p h'. realloc t sbrk (of_nat (c + 8)) n h = Some (p, h') \<and> untouched (A - {(c, k)}) (memory h) (memory h')
    \<and> (p = 0 \<longrightarrow> heap_inv sbrk brk h' (A - {(c, k)}))
    \<and> (p \<noteq> 0 \<longrightarrow> heap_inv sbrk brk h' (insert (block_at h' p) (A - {(c, k)})) \<and> block_at h' p \<notin> A - {(c, k)}
         \<and> fst (block_at h' p) + 8 = unat p \<and> unat n + 8 \<le> snd (block_at h' p)
         \<and> data_kept (min (k - 8) (unat n)) (memory h) c (memory h') (fst (block_at h' p)))"
proof -
  obtain fl B where B: "A \<subseteq> B" "heap_ok brk h fl B" and doc: "documented_sbrk sbrk brk"
    using assms(1) by (auto simp: heap_inv_def)
  have eq: "insert (c, k) (B - {(c, k)}) = B" and sub: "A - {(c, k)} \<subseteq> B - {(c, k)}" using assms(2) B(1) by blast+
  have ok: "heap_ok brk h fl (insert (c, k) (B - {(c, k)}))" unfolding eq by (rule B(2))
  have nz: "of_nat (c + 8) \<noteq> (0 :: addr)" using heap_ok_block(2) [OF ok, of c k] by auto
  show ?thesis
  proof (cases "n = 0")
    case True
    obtain h' fl' where "noc_free (of_nat (c + 8)) h = Some h'" "heap_ok brk h' fl' (B - {(c, k)})"
        "untouched (B - {(c, k)}) (memory h) (memory h')"
      using noc_free_spec [OF ok] by blast
    then show ?thesis
      using True nz heap_invI [OF doc _ sub] untouched_mono [OF _ sub] by (auto simp: realloc_def noc_realloc_def)
  next
    case False
    then have "0 < unat n" by (simp add: unat_gt_0)
    from noc_realloc_block [OF ok _ doc this assms(3), of t]
    obtain p h' where r: "noc_realloc t sbrk (of_nat (c + 8)) n h = Some (p, h')"
        "untouched (B - {(c, k)}) (memory h) (memory h')"
        and f: "p = 0 \<longrightarrow> (\<exists>fl' B'. B - {(c, k)} \<subseteq> B' \<and> heap_ok brk h' fl' B')"
        and s: "p \<noteq> 0 \<longrightarrow> (\<exists>fl'. heap_ok brk h' fl' (insert (block_at h' p) (B - {(c, k)}))) \<and> block_at h' p \<notin> B - {(c, k)}
          \<and> fst (block_at h' p) + 8 = unat p \<and> unat n + 8 \<le> snd (block_at h' p)
          \<and> data_kept (min (k - 8) (unat n)) (memory h) c (memory h') (fst (block_at h' p))"
      by blast
    have "heap_inv sbrk brk h' (A - {(c, k)})" if "p = 0"
      using f that sub heap_invI [OF doc] by (meson order_trans)
    moreover have "heap_inv sbrk brk h' (insert (block_at h' p) (A - {(c, k)}))" if "p \<noteq> 0"
      using s that sub heap_invI [OF doc] by (meson insert_mono)
    moreover have "untouched (A - {(c, k)}) (memory h) (memory h')" by (rule untouched_mono [OF r(2) sub])
    ultimately show ?thesis using r(1) s sub unfolding realloc_def by blast
  qed
qed

lemma free_law:
  assumes "heap_inv sbrk brk h A" and "(c, k) \<in> A"
  shows "\<exists>h'. free (of_nat (c + 8)) h = Some h' \<and> heap_inv sbrk brk h' (A - {(c, k)})
    \<and> untouched (A - {(c, k)}) (memory h) (memory h')"
proof -
  obtain fl B where B: "A \<subseteq> B" "heap_ok brk h fl B" and doc: "documented_sbrk sbrk brk"
    using assms(1) by (auto simp: heap_inv_def)
  have eq: "insert (c, k) (B - {(c, k)}) = B" and sub: "A - {(c, k)} \<subseteq> B - {(c, k)}" using assms(2) B(1) by blast+
  obtain h' fl' where "noc_free (of_nat (c + 8)) h = Some h'" "heap_ok brk h' fl' (B - {(c, k)})"
      "untouched (B - {(c, k)}) (memory h) (memory h')"
    using noc_free_spec [of brk h fl c k "B - {(c, k)}"] B(2) unfolding eq by blast
  then show ?thesis
    using heap_invI [OF doc _ sub] untouched_mono [OF _ sub] by (auto simp: free_def)
qed

interpretation noc: allocator "malloc sbrk" free "realloc t sbrk" block_at poke memory "heap_inv sbrk brk"
  for t sbrk brk
proof
  fix s A c k i v
  assume "heap_inv sbrk brk s A" "(c, k) \<in> A" "8 \<le> i" "i < k"
  then obtain fl B where B: "A \<subseteq> B" "heap_ok brk s fl B" "(c, k) \<in> B" and doc: "documented_sbrk sbrk brk"
    by (auto simp: heap_inv_def)
  have "A - {(c, k)} \<subseteq> B - {(c, k)}" using B(1) by blast
  then show "heap_inv sbrk brk (poke (of_nat (c + i)) v s) A
      \<and> untouched (A - {(c, k)}) (memory s) (memory (poke (of_nat (c + i)) v s))"
    using poke_ok [OF B(2,3) \<open>8 \<le> i\<close> \<open>i < k\<close>, of v] heap_invI [OF doc _ B(1)] untouched_mono by blast
next
  fix s A x y
  assume "heap_inv sbrk brk s A" "x \<in> A" "y \<in> A" "x \<noteq> y"
  then show "sep x y" unfolding heap_inv_def heap_ok_def blocks_ok_def by blast
qed (rule malloc_law free_law realloc_law, assumption+ | simp add: realloc_def malloc_def noc_realloc_def)+

end
