(* ===== verification/Allocator.thy ===== *)
theory Allocator
  imports Malloc_Client
begin

text \<open>
  The properties of \<open>malloc\<close>, \<open>free\<close>, \<open>realloc\<close>, \<open>calloc\<close> and \<open>mem_free\<close>, and concrete runs that show what the
  code does outside their hypotheses.
\<close>

section \<open>A platform for concrete runs\<close>

text \<open>A \<open>sbrk\<close> as documented, on a region that ends at 0x200000.\<close>

definition bump_sbrk :: "int \<Rightarrow> addr \<Rightarrow> addr \<times> addr" where
  "bump_sbrk incr b =
     (if uint b + incr \<le> 0x200000 then (b, b + word_of_int incr) else (SBRK_FAILURE, b))"

lemma documented_bump: "documented_sbrk bump_sbrk (\<lambda>b. b)"
  unfolding documented_sbrk_def
proof (intro allI impI)
  fix incr :: int and b :: addr
  assume i: "0 \<le> incr"
  have "unat (b + word_of_int incr) = unat b + nat incr" if "uint b + incr \<le> 0x200000"
  proof -
    have "uint (b + word_of_int incr) = (uint b + incr) mod 2 ^ 64" by (simp add: uint_word_ariths uint_word_of_int mod_simps)
    also have "\<dots> = uint b + incr" using that i by (intro mod_pos_pos_trivial) auto
    finally show ?thesis using i by (simp only: unat_eq_nat_uint) (simp add: nat_add_distrib)
  qed
  moreover have "unat b + nat incr \<le> 0x200000" if "uint b + incr \<le> 0x200000"
  proof -
    have "int (unat b) + incr \<le> 0x200000" using that by simp
    then show ?thesis using i by linarith
  qed
  ultimately show "fst (bump_sbrk incr b) = SBRK_FAILURE \<and> snd (bump_sbrk incr b) = b
      \<or> fst (bump_sbrk incr b) = b \<and> unat (snd (bump_sbrk incr b)) = unat b + nat incr
        \<and> unat (snd (bump_sbrk incr b)) < 2 ^ 63"
    by (auto simp: bump_sbrk_def)
qed

definition sample :: "addr heap" where
  "sample = heap_init (\<lambda>_. 0) 0x10000"

lemma heap_ok_init: "0 < unat (brk e) \<Longrightarrow> unat (brk e) < 2 ^ 63 \<Longrightarrow> heap_ok brk (heap_init m e) [] {}"
  by (simp add: heap_ok_def heap_init_def blocks_ok_def limits_ok_def)

lemma heap_inv_init:
  "documented_sbrk sbrk brk \<Longrightarrow> 0 < unat (brk e) \<Longrightarrow> unat (brk e) < 2 ^ 63 \<Longrightarrow>
    heap_inv sbrk brk (heap_init m e) {}"
  by (rule heap_invI [OF _ heap_ok_init]) simp_all

text \<open>A heap with live and free blocks in turn.\<close>

definition sample_blocks :: "addr heap" where
  "sample_blocks = \<lparr>memory = store64 (store64 (store64 (store64 (store64 (store64 (\<lambda>_. 0)
       0x10000 32) 0x10020 48) 0x10028 0x10070) 0x10050 32) 0x10070 64) 0x10078 0,
     sbrk_start = 0x10000, sbrk_end = 0x100b0, head = 0x10020, errno = 0, env = 0x100b0\<rparr>"

lemma sample_ok: "heap_ok (\<lambda>b. b) sample [] {}"
  unfolding sample_def by (rule heap_ok_init) simp_all

lemma sample_blocks_words:
  "load64 (memory sample_blocks) 0x10000 = 32" "load64 (memory sample_blocks) 0x10050 = 32"
  "load64 (memory sample_blocks) 0x10020 = 48" "load64 (memory sample_blocks) 0x10028 = 0x10070"
  "load64 (memory sample_blocks) 0x10070 = 64" "load64 (memory sample_blocks) 0x10078 = 0"
  by code_simp+

lemma sample_blocks_ok:
  "heap_ok (\<lambda>b. b) sample_blocks [(0x10020, 48), (0x10070, 64)] {(0x10000, 32), (0x10050, 32)}"
  using sample_blocks_words
  unfolding heap_ok_def
  by (simp add: blocks_ok_def limits_ok_def good_block_def gap_def sep_def)
    (simp add: sample_blocks_def)

section \<open>malloc\<close>

text \<open>
  C2. On a well-formed heap \<open>malloc\<close> returns for every size up to \<open>SIZE_MAX - 15\<close>: NULL, with memory
  and blocks as before, or a pointer to a block of at least the size plus the header, disjoint from
  all live blocks, 8-byte aligned and inside the heap. The heap stays well-formed and no byte of a
  live block changes.
\<close>

theorem malloc_new_block:
  assumes "heap_ok brk h fl A" and "documented_sbrk sbrk brk" and "0 < unat n" and "unat n \<le> 2 ^ 64 - 16"
  shows "\<exists>p h'. malloc sbrk n h = Some (p, h') \<and> untouched A (memory h) (memory h')
    \<and> (p = 0 \<and> memory h' = memory h \<and> heap_ok brk h' fl A
       \<or> p \<noteq> 0 \<and> (\<exists>fl'. heap_ok brk h' fl' (insert (block_at h' p) A)) \<and> (\<forall>x \<in> A. sep (block_at h' p) x)
         \<and> fst (block_at h' p) + 8 = unat p \<and> unat n + 8 \<le> snd (block_at h' p) \<and> 8 dvd unat p)"
proof -
  obtain p h' where r: "noc_malloc sbrk n h = Some (p, h')" "untouched A (memory h) (memory h')"
      "p = 0 \<and> memory h' = memory h \<and> heap_ok brk h' fl A
       \<or> p \<noteq> 0 \<and> (\<exists>fl'. heap_ok brk h' fl' (insert (block_at h' p) A)) \<and> (\<forall>x \<in> A. sep (block_at h' p) x)
         \<and> fst (block_at h' p) + 8 = unat p \<and> unat n + 8 \<le> snd (block_at h' p)"
    using noc_malloc_block [OF assms] by blast
  have "8 dvd unat p" if nz: "p \<noteq> 0"
  proof -
    obtain fl' where "heap_ok brk h' fl' (insert (block_at h' p) A)" using r(3) nz by blast
    then have "8 dvd fst (block_at h' p)" by (auto simp: heap_ok_def blocks_ok_def good_block_def)
    moreover have "fst (block_at h' p) + 8 = unat p" using r(3) nz by blast
    ultimately show ?thesis by presburger
  qed
  then show ?thesis using r unfolding malloc_def by blast
qed

lemma malloc_new_block_witness:
  "\<exists>p h'. malloc bump_sbrk 100 sample_blocks = Some (p, h')
    \<and> untouched {(0x10000, 32), (0x10050, 32)} (memory sample_blocks) (memory h')"
  using malloc_new_block [OF sample_blocks_ok documented_bump, of 100] by auto

text \<open>
  C19. \<open>malloc\<close> prefers free memory and takes the best fit: if a free block is large enough for the
  chunk (and less than 4 GB too large), the platform is not asked, and the block used is a smallest
  of the sufficient ones.
\<close>

theorem malloc_best_fit:
  assumes "heap_ok brk h fl A" and "0 < unat n" and "unat n \<le> 2 ^ 64 - 16"
    and "b0 \<in> set fl" and "unat (chunk_size_for_data n) \<le> snd b0"
    and "snd b0 < unat (chunk_size_for_data n) + 0xffffffff"
  shows "\<exists>p h' b. malloc sbrk n h = Some (p, h') \<and> b \<in> set fl \<and> p = of_nat (fst b + 8)
    \<and> unat (chunk_size_for_data n) \<le> snd b
    \<and> (\<forall>b' \<in> set fl. unat (chunk_size_for_data n) \<le> snd b' \<longrightarrow> snd b \<le> snd b')
    \<and> env h' = env h \<and> sbrk_end h' = sbrk_end h"
  using noc_malloc_best [OF assms] unfolding malloc_def .

lemma malloc_best_fit_witness:
  "\<exists>p h' (b :: block). malloc bump_sbrk 20 sample_blocks = Some (p, h') \<and> b \<in> {(0x10020, 48), (0x10070, 64)}
    \<and> p = of_nat (fst b + 8) \<and> snd b \<le> 48 \<and> env h' = env sample_blocks"
proof -
  have s: "unat (chunk_size_for_data 20) = 32" by code_simp
  obtain p h' and b :: block where r: "malloc bump_sbrk 20 sample_blocks = Some (p, h')"
      "b \<in> set [(0x10020, 48), (0x10070, 64)]" "p = of_nat (fst b + 8)" "env h' = env sample_blocks"
      "\<forall>b' \<in> set [(0x10020, 48), (0x10070, 64)]. 32 \<le> snd b' \<longrightarrow> snd b \<le> snd b'"
    using malloc_best_fit [OF sample_blocks_ok, of 20 "(0x10020, 48)" bump_sbrk, unfolded s] by auto
  have "snd b \<le> 48" "b \<in> {(0x10020, 48), (0x10070, 64)}"
    using bspec [OF r(5), of "(0x10020, 48)"] r(2) by simp_all
  then show ?thesis using r(1,3,4) by blast
qed

section \<open>free\<close>

text \<open>
  C3. \<open>free\<close> of a live block returns, keeps the heap well-formed without the block, adds exactly the
  block's bytes to the free list (whose neighbours are merged, as the list has gaps again), makes
  \<open>mem_free\<close> grow by the size of the block, and changes no byte of another live block.
\<close>

theorem free_joins:
  assumes "heap_ok brk h fl (insert (c, k) A)" and "(c, k) \<notin> A"
  shows "\<exists>h' fl'. free (of_nat (c + 8)) h = Some h' \<and> heap_ok brk h' fl' A
    \<and> untouched A (memory h) (memory h') \<and> area fl' = area fl \<union> {c..<c + k}
    \<and> mem_free h' = map_option (\<lambda>s. s + of_nat k) (mem_free h)"
proof -
  obtain h' fl' where r: "noc_free (of_nat (c + 8)) h = Some h'" "heap_ok brk h' fl' A"
      "untouched A (memory h) (memory h')" "sum_list (map snd fl') = sum_list (map snd fl) + k"
      "area fl' = area fl \<union> {c..<c + k}"
    using noc_free_spec [OF assms] by blast
  have "mem_free h' = map_option (\<lambda>s. s + of_nat k) (mem_free h)"
    unfolding mem_free_sum [OF r(2)] mem_free_sum [OF assms(1)] r(4) by simp
  then show ?thesis using r unfolding free_def by blast
qed

lemma free_joins_witness:
  "\<exists>h' fl'. free 0x10058 sample_blocks = Some h' \<and> heap_ok (\<lambda>b. b) h' fl' {(0x10000, 32)}
    \<and> area fl' = {0x10020..<0x100b0}"
proof -
  have A: "{(0x10000, 32), (0x10050, 32)} = insert (0x10050, 32) {(0x10000, 32::nat)}" by auto
  have "area [(0x10020, 48), (0x10070, 64)] \<union> {0x10050..<0x10050 + 32} = {0x10020..<0x100b0::nat}" by auto
  then show ?thesis using free_joins [OF sample_blocks_ok [unfolded A]] by auto
qed

text \<open>
  C18. What \<open>malloc\<close> takes from the free list \<open>free\<close> gives back: if the block was served without new
  memory from the platform, the free list afterwards is the one before.
\<close>

theorem malloc_free_roundtrip:
  assumes "heap_ok brk h fl A" and "documented_sbrk sbrk brk" and "0 < unat n" and "unat n \<le> 2 ^ 64 - 16"
    and "malloc sbrk n h = Some (p, h')" and "p \<noteq> 0" and "sbrk_end h' = sbrk_end h"
  shows "\<exists>h''. free p h' = Some h'' \<and> heap_ok brk h'' fl A \<and> mem_free h'' = mem_free h"
proof -
  have "allocated brk n h fl A (p, h')"
    using noc_malloc_spec [OF assms(1-4)] assms(5) by (simp add: malloc_def)
  then obtain a k fl' where a: "p = of_nat (a + 8)" "unat n + 8 \<le> k" "\<forall>x \<in> A. sep (a, k) x"
      "heap_ok brk h' fl' (insert (a, k) A)" and or: "area fl' \<union> {a..<a + k} = area fl \<or> unat (sbrk_end h) \<le> a"
    using assms(6) by (auto simp: allocated_def)
  have new: "(a, k) \<notin> A" using a(2,3) by (auto simp: sep_def)
  have "a + k \<le> unat (sbrk_end h')"
    using allocated_block(1) [OF a(4) new] by (simp add: good_block_def)
  then have area: "area fl' \<union> {a..<a + k} = area fl" using or a(2) assms(7) by auto
  obtain h'' fl'' where r: "free p h' = Some h''" "heap_ok brk h'' fl'' A" "area fl'' = area fl"
    using noc_free_spec [OF a(4) new] area unfolding free_def a(1) by blast
  have fl: "sorted_wrt gap fl" "\<forall>x \<in> set fl. 16 \<le> snd x" "sorted_wrt gap fl''" "\<forall>x \<in> set fl''. 16 \<le> snd x"
    using assms(1) r(2) by (auto simp: heap_ok_def blocks_ok_def good_block_def)
  have "fl'' = fl" using fl by (intro area_inj [OF fl(3,1) _ r(3)]) force
  then show ?thesis using r mem_free_sum [OF assms(1)] mem_free_sum [OF r(2)] by auto
qed

lemma malloc_free_roundtrip_witness:
  "\<exists>p h' h''. malloc bump_sbrk 20 sample_blocks = Some (p, h') \<and> free p h' = Some h''
    \<and> heap_ok (\<lambda>b. b) h'' [(0x10020, 48), (0x10070, 64)] {(0x10000, 32), (0x10050, 32)}"
proof -
  define r where "r = malloc bump_sbrk 20 sample_blocks"
  have "map_option (\<lambda>(p, h'). p = 0x10028 \<and> sbrk_end h' = sbrk_end sample_blocks) r = Some True"
    unfolding r_def by code_simp
  then obtain p h' where "malloc bump_sbrk 20 sample_blocks = Some (p, h')" "p \<noteq> 0"
      "sbrk_end h' = sbrk_end sample_blocks"
    by (auto simp: r_def)
  from malloc_free_roundtrip [OF sample_blocks_ok documented_bump _ _ this] this(1) show ?thesis by auto
qed

section \<open>realloc\<close>

text \<open>The two other uses of \<open>realloc\<close>.\<close>

lemma realloc_edges:
  "realloc t sbrk 0 n h = malloc sbrk n h"
  "p \<noteq> 0 \<Longrightarrow> realloc t sbrk p 0 h = map_option (\<lambda>h. (0, h)) (free p h)"
  by (simp_all add: realloc_def malloc_def free_def noc_realloc_def map_option_case split: option.split)

text \<open>
  C4. \<open>realloc\<close> of a live block returns and keeps the heap well-formed and the other live blocks
  as they are.  If it returns a pointer, that is a live block of at least the new size whose first
  bytes are those of the old block, up to the smaller of the two sizes; on NULL the object is still
  there with all its bytes, but it may have moved.
\<close>

theorem realloc_keeps_data:
  assumes "heap_ok brk h fl (insert (c, k) A)" and "(c, k) \<notin> A"
    and "documented_sbrk sbrk brk" and "0 < unat n" and "unat n \<le> 2 ^ 64 - 16"
  shows "\<exists>p h' c' k' fl'. realloc t sbrk (of_nat (c + 8)) n h = Some (p, h')
    \<and> heap_ok brk h' fl' (insert (c', k') A) \<and> (c', k') \<notin> A \<and> untouched A (memory h) (memory h')
    \<and> (p = 0 \<and> k \<le> k' \<and> (\<forall>i < k - 8. memory h' (of_nat (c' + 8 + i)) = memory h (of_nat (c + 8 + i)))
       \<or> p = of_nat (c' + 8) \<and> unat n + 8 \<le> k'
         \<and> (\<forall>i < min (k - 8) (unat n). memory h' (of_nat (c' + 8 + i)) = memory h (of_nat (c + 8 + i))))"
proof -
  obtain r where r: "noc_realloc t sbrk (of_nat (c + 8)) n h = Some r" "reallocated brk n (memory h) c k A r"
    using noc_realloc_spec [OF assms] by blast
  obtain p h' where "r = (p, h')" by (cases r)
  with r show ?thesis unfolding realloc_def reallocated_def data_kept_def by blast
qed

lemma realloc_keeps_data_witness:
  "\<exists>p h' c' k' fl'. realloc x86_64_target bump_sbrk (of_nat (0x10050 + 8)) 100 sample_blocks = Some (p, h')
    \<and> heap_ok (\<lambda>b. b) h' fl' (insert (c', k') {(0x10000, 32)}) \<and> (c', k') \<notin> {(0x10000, 32)}"
proof -
  have A: "{(0x10000, 32), (0x10050, 32)} = insert (0x10050, 32) {(0x10000, 32::nat)}" by auto
  show ?thesis
    using realloc_keeps_data [OF sample_blocks_ok [unfolded A] _ documented_bump, of 100 x86_64_target] by fastforce
qed

section \<open>Clients of the allocator\<close>

text \<open>
  C1. Whatever a client does with \<open>malloc\<close>, \<open>free\<close>, \<open>realloc\<close>, failing or not, and stores into its own blocks,
  starting from an empty heap: all the blocks it holds are disjoint, 8-byte aligned, inside the heap,
  and their headers hold their sizes.  Sizes are at most \<open>2 ^ 64 - 16\<close>, and a client whose \<open>realloc\<close> fails
  gives the block up, for the code may have moved the object, contrary to the comment of \<open>realloc\<close>.
\<close>

theorem client_run_safe:
  assumes "documented_sbrk sbrk brk" and "0 < unat (brk e)" and "unat (brk e) < 2 ^ 63"
    and "(client_step (malloc sbrk) free (realloc t sbrk) block_at poke)\<^sup>*\<^sup>* (heap_init m e, {}) (h, A)"
  shows "(\<forall>x \<in> A. \<forall>y \<in> A. x \<noteq> y \<longrightarrow> sep x y)
    \<and> (\<forall>x \<in> A. 8 dvd fst x \<and> unat (sbrk_start h) \<le> fst x \<and> fst x + snd x \<le> unat (sbrk_end h)
        \<and> block_at h (of_nat (fst x + 8)) = x)"
proof -
  from noc.run_inv [OF assms(4) heap_inv_init [OF assms(1-3)]] obtain fl B
    where ok: "heap_ok brk h fl B" "A \<subseteq> B" by (auto simp: heap_inv_def)
  have "block_at h (of_nat (fst x + 8)) = x" if "x \<in> A" for x
    using heap_ok_block(1) [OF ok(1), of "fst x" "snd x"] that ok(2) by auto
  then show ?thesis using ok unfolding heap_ok_def blocks_ok_def good_block_def by blast
qed

lemma client_run_safe_witness:
  "\<exists>h p q. (client_step (malloc bump_sbrk) free (realloc x86_64_target bump_sbrk) block_at poke)\<^sup>*\<^sup>* (sample, {}) (h, {block_at h p, block_at h q})
    \<and> block_at h p \<noteq> block_at h q \<and> sep (block_at h p) (block_at h q)"
proof -
  define size_at where "size_at h p = chunk_size (memory h) (chunk_from_data p)" for h :: "addr heap" and p
  define run where "run = do {
    (p, h) \<leftarrow> malloc bump_sbrk 100 sample;
    (q, h') \<leftarrow> malloc bump_sbrk 7 h;
    Some (p = 0x10008 \<and> q = 0x10078 \<and> size_at h p = 112 \<and> size_at h' p = 112 \<and> size_at h' q = 16)
  }"
  have ends: "run = Some True" unfolding run_def size_at_def by code_simp
  obtain p h where r1: "malloc bump_sbrk 100 sample = Some (p, h)"
    using ends by (cases "malloc bump_sbrk 100 sample") (auto simp only: run_def bind.simps)
  obtain q h' where r2: "malloc bump_sbrk 7 h = Some (q, h')"
    using ends r1 by (cases "malloc bump_sbrk 7 h") (auto simp only: run_def bind.simps split)
  have "p = 0x10008 \<and> q = 0x10078 \<and> size_at h p = 112 \<and> size_at h' p = 112 \<and> size_at h' q = 16"
    using ends unfolding run_def r1 r2 bind.simps split option.inject simp_thms .
  then have s: "p = 0x10008" "q = 0x10078" "size_at h p = 112" "size_at h' p = 112" "size_at h' q = 16"
    by blast+
  have at: "block_at h p = (0x10000, 112)" "block_at h' p = (0x10000, 112)" "block_at h' q = (0x10070, 16)"
    using s(3-5) by (simp_all add: block_at_def size_at_def s(1,2) chunk_from_data_def)
  have r: "malloc bump_sbrk 100 sample = Some (p, h)" "malloc bump_sbrk 7 h = Some (q, h')"
      "p \<noteq> 0" "q \<noteq> 0" "block_at h p = block_at h' p" "block_at h' p \<noteq> block_at h' q"
    using r1 r2 s(1,2) at by simp_all
  let ?step = "client_step (malloc bump_sbrk) free (realloc x86_64_target bump_sbrk) block_at poke"
  have "?step (sample, {}) (h, {block_at h' p})"
    using client_step.Allocated [where alloc = "malloc bump_sbrk" and release = free and resize = "realloc x86_64_target bump_sbrk"
        and block_of = block_at and put = poke and n = "100 :: u64" and A = "{}", OF _ r(1,3)] r(5) by simp
  moreover have "?step (h, {block_at h' p}) (h', {block_at h' q, block_at h' p})"
    using client_step.Allocated [where alloc = "malloc bump_sbrk" and release = free and resize = "realloc x86_64_target bump_sbrk"
        and block_of = block_at and put = poke and n = "7 :: u64" and A = "{block_at h' p}", OF _ r(2,4)] by simp
  ultimately have run: "?step\<^sup>*\<^sup>* (sample, {}) (h', {block_at h' p, block_at h' q})"
    by (simp add: insert_commute)
  then show ?thesis
    using client_run_safe [OF documented_bump _ _ run [unfolded sample_def]] r(6) by auto
qed

text \<open>
  C20. In every state a client reaches from an empty heap, failed calls of \<open>realloc\<close> included when the
  client then gives the block up, \<open>malloc\<close>, \<open>free\<close> and \<open>realloc\<close> return for the blocks it holds and every size
  up to \<open>2 ^ 64 - 16\<close>: the searches through the free list end.
\<close>

theorem client_run_served:
  assumes "documented_sbrk sbrk brk" and "0 < unat (brk e)" and "unat (brk e) < 2 ^ 63"
    and "(client_step (malloc sbrk) free (realloc t sbrk) block_at poke)\<^sup>*\<^sup>* (heap_init m e, {}) (h, A)"
    and "unat n \<le> 2 ^ 64 - 16" and "(c, k) \<in> A"
  shows "malloc sbrk n h \<noteq> None \<and> free (of_nat (c + 8)) h \<noteq> None
    \<and> realloc t sbrk (of_nat (c + 8)) n h \<noteq> None"
proof -
  note serves = noc.run_serves [OF assms(4) heap_inv_init [OF assms(1-3)]]
  show ?thesis by (intro conjI serves(1) serves(2,3) [OF assms(6)] assms(5))
qed

lemma client_run_served_witness:
  "\<exists>h p. block_at h p = (0x10000, 112) \<and> malloc bump_sbrk 100 sample = Some (p, h)
    \<and> malloc bump_sbrk 5 h \<noteq> None \<and> free 0x10008 h \<noteq> None"
proof -
  define run where "run = map_option (\<lambda>(p, h). p = 0x10008 \<and> chunk_size (memory h) 0x10000 = 112)
    (malloc bump_sbrk 100 sample)"
  have ends: "run = Some True" unfolding run_def by code_simp
  obtain p h where r: "malloc bump_sbrk 100 sample = Some (p, h)"
    using ends by (cases "malloc bump_sbrk 100 sample") (auto simp only: run_def option.map)
  have s: "p = 0x10008" "chunk_size (memory h) 0x10000 = 112"
    using ends by (simp_all only: run_def r option.map split option.inject simp_thms)
  then have at: "p \<noteq> 0" "block_at h p = (0x10000, 112)" by (simp_all add: block_at_def chunk_from_data_def)
  have "client_step (malloc bump_sbrk) free (realloc x86_64_target bump_sbrk) block_at poke (sample, {}) (h, {(0x10000, 112)})"
    using client_step.Allocated [where alloc = "malloc bump_sbrk" and release = free and resize = "realloc x86_64_target bump_sbrk"
        and block_of = block_at and put = poke and n = "100 :: u64" and A = "{}", OF _ r at(1)] at(2) by simp
  then have run: "(client_step (malloc bump_sbrk) free (realloc x86_64_target bump_sbrk) block_at poke)\<^sup>*\<^sup>* (heap_init (\<lambda>_. 0) 0x10000, {}) (h, {(0x10000, 112)})"
    unfolding sample_def by (rule r_into_rtranclp)
  show ?thesis
    using client_run_served [OF documented_bump _ _ run, of 5 "0x10000" 112] r at by (intro exI [of _ h] exI [of _ p]) simp
qed

section \<open>calloc\<close>

text \<open>
  C34. \<open>calloc\<close> answers NULL and changes nothing when the product of its arguments does not fit
  into 64 bits, and a call with one element returns NULL or a new live block of zeros, keeping the
  heap well-formed and the other blocks as they are.
\<close>

theorem calloc_zeroed:
  assumes "heap_ok brk h fl A" and "documented_sbrk sbrk brk" and "0 < unat n" and "unat n \<le> 2 ^ 64 - 16"
  shows "(2 ^ 64 \<le> unat c * unat n \<longrightarrow> calloc sbrk c n h = Some (0, h))
    \<and> (\<exists>p h'. calloc sbrk 1 n h = Some (p, h') \<and> untouched A (memory h) (memory h')
        \<and> (p = 0 \<and> heap_ok brk h' fl A
           \<or> p \<noteq> 0 \<and> (\<exists>fl'. heap_ok brk h' fl' (insert (block_at h' p) A)) \<and> block_at h' p \<notin> A
             \<and> fst (block_at h' p) + 8 = unat p \<and> unat n + 8 \<le> snd (block_at h' p)
             \<and> (\<forall>i < unat n. memory h' (p + of_nat i) = 0)))"
proof (intro conjI impI)
  assume "2 ^ 64 \<le> unat c * unat n"
  then show "calloc sbrk c n h = Some (0, h)" by (simp add: calloc_def noc_calloc_def)
next
  let ?R = "\<lambda>p h'. calloc sbrk 1 n h = Some (p, h') \<and> untouched A (memory h) (memory h')
        \<and> (p = 0 \<and> heap_ok brk h' fl A
           \<or> p \<noteq> 0 \<and> (\<exists>fl'. heap_ok brk h' fl' (insert (block_at h' p) A)) \<and> block_at h' p \<notin> A
             \<and> fst (block_at h' p) + 8 = unat p \<and> unat n + 8 \<le> snd (block_at h' p)
             \<and> (\<forall>i < unat n. memory h' (p + of_nat i) = 0))"
  have fits: "\<not> 2 ^ 64 \<le> unat (1 :: u64) * unat n" using assms(4) by simp
  obtain p h1 where r: "noc_malloc sbrk n h = Some (p, h1)" "untouched A (memory h) (memory h1)"
      and cases: "p = 0 \<and> heap_ok brk h1 fl A
       \<or> p \<noteq> 0 \<and> (\<exists>fl'. heap_ok brk h1 fl' (insert (block_at h1 p) A)) \<and> block_at h1 p \<notin> A
         \<and> fst (block_at h1 p) + 8 = unat p \<and> unat n + 8 \<le> snd (block_at h1 p)"
    using noc_malloc_block [OF assms] by blast
  show "\<exists>p h'. ?R p h'"
  proof (cases "p = 0")
    case True
    then have "?R p h1" using r cases fits by (simp add: calloc_def noc_calloc_def)
    then show ?thesis by blast
  next
    case False
    obtain a k where ak: "block_at h1 p = (a, k)" by (cases "block_at h1 p")
    obtain fl' where ok: "heap_ok brk h1 fl' (insert (a, k) A)" using cases False ak by auto
    have a: "(a, k) \<notin> A" "a + 8 = unat p" "unat n + 8 \<le> k" using cases False ak by auto
    then have p: "p = of_nat (a + 8)" by simp
    have top: "a + k < 2 ^ 63"
      using allocated_block(1) [OF ok a(1)] good_bounds [OF _ limits_end, of _ h1 "(a, k)" brk] ok
      by (auto simp: heap_ok_def)
    define m where "m = fill (memory h1) p 0 (unat n)"
    have at: "m (of_nat x) = (if a + 8 \<le> x \<and> x < a + 8 + unat n then 0 else memory h1 (of_nat x))"
      if "x < 2 ^ 63" for x
      unfolding m_def p using that top a(3) by (intro fill_at) simp_all
    have "memset (memory h1) p 0 n = Some (m, p)"
      using memset_fill [of p n] top a by (simp add: m_def)
    then have run: "calloc sbrk 1 n h = Some (p, h1\<lparr>memory := m\<rparr>)"
      using r(1) fits False by (simp add: calloc_def noc_calloc_def)
    have "same_but (a + 8) (a + k) (memory h1) m"
      using at a(3) by (auto simp: same_but_def)
    from store_data [OF ok _ this] a(1)
    have ok': "heap_ok brk (h1\<lparr>memory := m\<rparr>) fl' (insert (a, k) A)" "untouched A (memory h1) m"
      by (simp_all add: insert_Diff_if)
    have zero: "m (p + of_nat i) = 0" if "i < unat n" for i
      using at [of "a + 8 + i"] that top a(3) by (simp add: p)
    have "block_at (h1\<lparr>memory := m\<rparr>) p = (a, k)"
      using heap_ok_block(1) [OF ok'(1), of a k] by (simp add: p)
    then have "?R p (h1\<lparr>memory := m\<rparr>)"
      using run False ok' a zero untouched_trans [OF r(2)] by auto
    then show ?thesis by blast
  qed
qed

lemma calloc_zeroed_witness:
  "calloc bump_sbrk (2 ^ 63) 6 sample_blocks = Some (0, sample_blocks)
    \<and> (\<exists>p h'. calloc bump_sbrk 1 6 sample_blocks = Some (p, h'))"
  using calloc_zeroed [OF sample_blocks_ok documented_bump, of 6 "2 ^ 63"] by auto

section \<open>Outside the hypotheses\<close>

text \<open>\<open>chunk_size_for_data\<close> wraps: a request for \<open>SIZE_MAX\<close> bytes is served by a bare header.\<close>

lemma malloc_size_wraps:
  "chunk_size_for_data (- 1) = 8"
  "map_option (\<lambda>(p, h). p = 0x10008 \<and> sbrk_end h = 0x10008) (malloc bump_sbrk (- 1) sample) = Some True"
  by code_simp+

text \<open>\<open>calloc\<close> asks for one element only and clears all of them, beyond the end of the heap.\<close>

lemma calloc_overruns:
  "\<exists>h. calloc bump_sbrk 10 8 (heap_init (\<lambda>_. 7) 0x10000) = Some (0x10008, h)
    \<and> sbrk_end h = 0x10010 \<and> memory h 0x10050 = 0"
proof -
  have "map_option (\<lambda>(p, h). p = 0x10008 \<and> sbrk_end h = 0x10010)
      (noc_malloc bump_sbrk 8 (heap_init (\<lambda>_. 7) 0x10000)) = Some True"
    by code_simp
  then obtain h where h: "noc_malloc bump_sbrk 8 (heap_init (\<lambda>_. 7) 0x10000) = Some (0x10008, h)"
      "sbrk_end h = 0x10010"
    by auto
  have "memset (memory h) 0x10008 0 80 = Some (fill (memory h) 0x10008 0 80, 0x10008)"
    using memset_fill [of "0x10008" 80 "memory h" 0] by simp
  then show ?thesis by (simp add: calloc_def noc_calloc_def h fill_def)
qed

text \<open>
  When \<open>realloc\<close> merged the block to the left and still finds no memory, it returns NULL although the
  object is no longer where it was: the chunk now starts at the free neighbour.
\<close>

lemma realloc_null_moves:
  "map_option (\<lambda>(p, h). p = 0 \<and> head h = 0 \<and> chunk_size (memory h) 0x10000 = 32)
     (realloc x86_64_target (\<lambda>_ e. (SBRK_FAILURE, e)) 0x10018 100
        \<lparr>memory = store64 (store64 (store64 (\<lambda>_. 0) 0x10000 16) 0x10008 0) 0x10010 16,
         sbrk_start = 0x10000, sbrk_end = 0x10020, head = 0x10000, errno = 0, env = ()\<rparr>) = Some True"
  by code_simp

text \<open>
  When the break is not aligned and the call for the padding fails, \<open>sbrk_end\<close> is set and \<open>sbrk_start\<close> is not:
  \<open>free\<close> of a null pointer then reads a size below address zero, and when it is small links the chunk found there into the free list.
\<close>

lemma free_null_reads:
  "map_option (\<lambda>(p, h). p = 0 \<and> sbrk_start h = 0 \<and> map_option (\<lambda>h. head h = - 8) (free 0 h) = Some True)
     (malloc (\<lambda>n b. if b = 0x10001 then (b, b + word_of_int n) else (SBRK_FAILURE, b)) 8
       (heap_init (store64 (\<lambda>_. 0) (- 8) 16) 0x10001)) = Some True"
  by code_simp

text \<open>The second \<open>free\<close> of the first free block links it to itself; walking the list then never ends.\<close>

lemma mem_free_loop_cycle:
  assumes "c \<noteq> 0" and "chunk_next m c = c"
  shows "mem_free_loop m c n = None"
proof (cases "mem_free_loop m c n")
  case (Some r)
  have "\<not> (c \<noteq> 0 \<and> chunk_next m c = c)"
    by (rule mem_free_loop.raw_induct [where P = "\<lambda>m c n r. \<not> (c \<noteq> 0 \<and> chunk_next m c = c)", OF _ Some])
      (force split: if_splits)
  then show ?thesis using assms by simp
qed

lemma double_free_cycle:
  "\<exists>h. free 0x10028 sample_blocks = Some h \<and> mem_free h = None"
proof -
  have "map_option (\<lambda>h. head h = 0x10020 \<and> chunk_next (memory h) 0x10020 = 0x10020)
      (free 0x10028 sample_blocks) = Some True"
    by code_simp
  then show ?thesis using mem_free_loop_cycle [of "0x10020"] by (auto simp: mem_free_def)
qed

end
