(* ===== verification/Platform.thy ===== *)
theory Platform
  imports Allocator
begin

text \<open>
  \<open>sbrk\<close> of the Linux platform, \<open>platform/x86_64-pc-linux-gnu.c\<close>; the bounds of the region come
  from the linker script and are parameters.  It does not return what \<open>unistd.h\<close> and the comment
  above it say, and what the allocator relies on.
\<close>

text \<open>\<open>brk_off\<close> is the static variable; addresses are compared as signed integers.\<close>

definition platform_sbrk :: "addr \<Rightarrow> addr \<Rightarrow> int \<Rightarrow> addr \<Rightarrow> addr \<times> addr" where
  "platform_sbrk brk_start brk_end incr brk_off =
     (let new_brk = brk_off + word_of_int incr in
      if sint new_brk \<le> sint brk_end \<and> sint new_brk \<ge> sint brk_start
      then (new_brk, new_brk)
      else (- 1, brk_off))"

lemma platform_sbrk_eq:
  assumes "unat brk_start \<le> unat b" and "unat b \<le> unat brk_end" and "unat brk_end < 2 ^ 62" and "\<bar>incr\<bar> < 2 ^ 62"
  shows "platform_sbrk brk_start brk_end incr b =
    (if int (unat brk_start) \<le> int (unat b) + incr \<and> int (unat b) + incr \<le> int (unat brk_end)
     then (b + word_of_int incr, b + word_of_int incr) else (SBRK_FAILURE, b))"
proof -
  have s: "sint brk_start = int (unat brk_start)" "sint brk_end = int (unat brk_end)" "sint b = int (unat b)"
    using assms by (intro sint_small; simp)+
  have "sint (word_of_int incr :: addr) = incr"
    using assms(4) by (simp add: sint_sbintrunc' signed_take_bit_int_eq_self)
  then have "sint (b + word_of_int incr) = signed_take_bit 63 (sint b + incr)"
    by (simp only: sint_word_ariths) simp
  also have "\<dots> = sint b + incr"
  proof (rule signed_take_bit_int_eq_self)
    have "unat b < 4611686018427387904" "\<bar>incr\<bar> < 4611686018427387904" using assms by simp_all
    then have "- 9223372036854775808 \<le> int (unat b) + incr \<and> int (unat b) + incr < 9223372036854775808"
      by linarith
    then show "- (2 ^ 63) \<le> sint b + incr" "sint b + incr < 2 ^ 63" unfolding s(3) by simp_all
  qed
  finally show ?thesis unfolding platform_sbrk_def Let_def s SBRK_FAILURE_def by (simp add: s(3) conj_commute)
qed

text \<open>
  The platform's \<open>sbrk\<close> keeps the break within the region of the linker script, whatever the
  increment: it moves by exactly the increment and the result is the new break (not the previous
  one, as documented), or the result is -1 and the break stays.
\<close>

theorem platform_sbrk_moves:
  assumes "unat brk_start \<le> unat b" and "unat b \<le> unat brk_end" and "unat brk_end < 2 ^ 62" and "\<bar>incr\<bar> < 2 ^ 62"
  shows "platform_sbrk brk_start brk_end incr b =
    (if int (unat brk_start) \<le> int (unat b) + incr \<and> int (unat b) + incr \<le> int (unat brk_end)
     then (b + word_of_int incr, b + word_of_int incr) else (SBRK_FAILURE, b))"
  by (rule platform_sbrk_eq [OF assms])

lemma platform_sbrk_moves_witness:
  "platform_sbrk 0x10000 0x20000 0x100 0x10800 = (0x10900, 0x10900)
    \<and> platform_sbrk 0x10000 0x20000 (- 0x1000) 0x10800 = (SBRK_FAILURE, 0x10800)"
  using platform_sbrk_moves [of "0x10000" "0x10800" "0x20000" "0x100"]
    platform_sbrk_moves [of "0x10000" "0x10800" "0x20000" "- 0x1000"]
  by simp

text \<open>
  C35. On this platform \<open>malloc\<close> hands out memory above the break: it takes the new break for the
  start of the region it asked for, so that the first chunk of an empty heap begins where the
  platform's region ends.
\<close>

theorem platform_chunk_above_break:
  assumes "unat brk_start \<le> unat b" and "unat b + unat (chunk_size_for_data n) \<le> unat brk_end"
    and "unat brk_end < 2 ^ 62" and "8 dvd unat b" and "0 < unat n" and "unat n \<le> 2 ^ 64 - 16"
  shows "\<exists>h. malloc (platform_sbrk brk_start brk_end) n (heap_init m b)
      = Some (chunk_to_data (b + chunk_size_for_data n), h)
    \<and> env h = b + chunk_size_for_data n"
proof -
  let ?s = "chunk_size_for_data n"
  have s: "8 dvd unat ?s" by (rule chunk_size_for_data_spec(1) [OF assms(5,6)])
  have top: "unat (b + ?s) = unat b + unat ?s" using assms(2,3) by (intro unat_add_fits) simp
  have "unat brk_end < 4611686018427387904" using assms(3) by simp
  then have "\<bar>int (unat ?s)\<bar> < 4611686018427387904" using assms(2) by linarith
  then have up1: "\<bar>int (unat ?s)\<bar> < 2 ^ 62" by simp
  have up: "unat b \<le> unat brk_end" "int (unat brk_start) \<le> int (unat b) + int (unat ?s)"
      "int (unat b) + int (unat ?s) \<le> int (unat brk_end)"
    using assms(1,2) by linarith+
  have "platform_sbrk brk_start brk_end (int (unat ?s)) b = (b + ?s, b + ?s)"
    unfolding platform_sbrk_eq [OF assms(1) up(1) assms(3) up1] if_P [OF conjI [OF up(2,3)]] by simp
  then have "platform_sbrk brk_start brk_end (uint ?s) b = (b + ?s, b + ?s)" by simp
  moreover have "b + ?s \<noteq> SBRK_FAILURE"
  proof
    assume "b + ?s = SBRK_FAILURE"
    then have "unat (b + ?s) = 2 ^ 64 - 1"
      by (simp add: SBRK_FAILURE_def unsigned_minus_1_eq_mask mask_eq_exp_minus_1)
    then show False using top assms(2,3) by simp
  qed
  moreover have "intptr_rem (b + ?s) 8 = 0"
    using top assms(2-4) s by (subst intptr_rem_low) (simp_all add: mod_eq_0_iff_dvd)
  moreover have "\<not> ?s > INTPTR_MAX" using assms(2,3) by (simp add: INTPTR_MAX_def word_less_nat_alt)
  ultimately have "\<exists>h. aligned_sbrk (platform_sbrk brk_start brk_end) ?s (heap_init m b) = (b + ?s, h) \<and> env h = b + ?s"
    by (simp add: aligned_sbrk_def heap_init_def Let_def)
  then obtain h where h: "aligned_sbrk (platform_sbrk brk_start brk_end) ?s (heap_init m b) = (b + ?s, h)"
      "env h = b + ?s" by blast
  have "best_fit (heap_init m b) ?s Head 0xffffffff None = Some (0xffffffff, None, Head)"
    by (subst best_fit.simps) (simp add: deref_def heap_init_def)
  moreover have "deref (heap_init m b) Head = 0" by (simp add: deref_def heap_init_def)
  moreover have "n \<noteq> 0" using assms(5) by auto
  ultimately show ?thesis
    using h \<open>b + ?s \<noteq> SBRK_FAILURE\<close> by (simp add: malloc_def noc_malloc_def chunk_grow_null Let_def)
qed

lemma platform_chunk_above_break_witness:
  "\<exists>h. malloc (platform_sbrk 0x10000 0x20000) 100 (heap_init (\<lambda>_. 0) 0x10000) = Some (0x10078, h)
    \<and> env h = 0x10070"
proof -
  have s: "chunk_size_for_data 100 = 112" by code_simp
  show ?thesis
    using platform_chunk_above_break [of "0x10000" "0x10000" 100 "0x20000" "\<lambda>_. 0"]
    by (simp add: s chunk_to_data_def)
qed

text \<open>So two blocks overlap: the second call returns an address inside the first one's data.\<close>

lemma platform_blocks_overlap:
  "do {
    (p, h) \<leftarrow> malloc (platform_sbrk 0x10000 0x20000) 100 (heap_init (\<lambda>_. 0) 0x10000);
    (q, h) \<leftarrow> malloc (platform_sbrk 0x10000 0x20000) 10 h;
    Some (p < q \<and> q < p + 100)
  } = Some True"
  by code_simp

end
