(* ===== verification/Chars.thy ===== *)
theory Chars
  imports Target
begin

text \<open>
  C strings as the functions that only read them see them: a pointer into an object is the list of
  the object's bytes from there on, the terminator included, so that reading behind the end of the
  object is the fault \<open>Read_Past_End\<close>.  Also the reference for positional notation that
  \<open>atoi\<close> and \<open>printf\<close> are compared with.
\<close>

section \<open>Reading a string\<close>

text \<open>\<open>c = *p++\<close>\<close>

definition next_char :: "byte list \<Rightarrow> (byte \<times> byte list) res" where
  "next_char s = (case s of [] \<Rightarrow> Inl Read_Past_End | c # s' \<Rightarrow> Inr (c, s'))"

lemma next_char_simps [simp]:
  "next_char [] = Inl Read_Past_End"
  "next_char (c # s) = Inr (c, s)"
  by (simp_all add: next_char_def)

text \<open>A terminated object, and the characters before its terminator.\<close>

definition terminated :: "byte list \<Rightarrow> bool" where
  "terminated s \<longleftrightarrow> 0 \<in> set s"

definition chars_of :: "byte list \<Rightarrow> byte list" where
  "chars_of s = takeWhile (\<lambda>c. c \<noteq> 0) s"

lemma terminated_simps [simp]:
  "\<not> terminated []"
  "terminated (c # s) \<longleftrightarrow> c = 0 \<or> terminated s"
  by (auto simp: terminated_def)

lemma terminated_append [simp]: "terminated (s @ s') \<longleftrightarrow> terminated s \<or> terminated s'"
  by (auto simp: terminated_def)

lemma chars_of_simps [simp]:
  "chars_of [] = []"
  "chars_of (c # s) = (if c = 0 then [] else c # chars_of s)"
  by (simp_all add: chars_of_def)

lemma chars_of_append: "0 \<notin> set s \<Longrightarrow> chars_of (s @ 0 # s') = s"
  by (induction s) auto

section \<open>Positional notation\<close>

text \<open>The digits of a number, the most significant one first; zero has none.\<close>

function digits_of :: "nat \<Rightarrow> nat \<Rightarrow> nat list" where
  "digits_of b n = (if n = 0 \<or> b < 2 then [] else digits_of b (n div b) @ [n mod b])"
  by auto
termination by (relation "measure snd") auto

declare digits_of.simps [simp del]

definition of_digits :: "nat \<Rightarrow> nat list \<Rightarrow> nat" where
  "of_digits b ds = foldl (\<lambda>n d. b * n + d) 0 ds"

lemma of_digits_simps [simp]:
  "of_digits b [] = 0"
  "of_digits b (ds @ [d]) = b * of_digits b ds + d"
  by (simp_all add: of_digits_def)

lemma digits_of_0 [simp]: "digits_of b 0 = []"
  by (simp add: digits_of.simps)

lemma digits_of_step: "0 < n \<Longrightarrow> 2 \<le> b \<Longrightarrow> digits_of b n = digits_of b (n div b) @ [n mod b]"
  by (subst digits_of.simps) simp

lemma of_digits_of: "2 \<le> b \<Longrightarrow> of_digits b (digits_of b n) = n"
proof (induction b n rule: digits_of.induct)
  case (1 b n)
  then show ?case by (cases "n = 0") (simp_all add: digits_of_step [of n b])
qed

lemma digits_of_less: "2 \<le> b \<Longrightarrow> \<forall>d \<in> set (digits_of b n). d < b"
proof (induction b n rule: digits_of.induct)
  case (1 b n)
  then show ?case by (cases "n = 0") (simp_all add: digits_of_step [of n b])
qed

lemma digits_of_length: "2 \<le> b \<Longrightarrow> n < b ^ k \<Longrightarrow> length (digits_of b n) \<le> k"
proof (induction k arbitrary: n)
  case (Suc k)
  show ?case
  proof (cases "n = 0")
    case False
    have "n div b < b ^ k"
      using Suc.prems by (metis less_mult_imp_div_less mult.commute power_Suc)
    with False show ?thesis using Suc by (simp add: digits_of_step [of n b])
  qed simp
qed simp

lemma digits_of_hd: "2 \<le> b \<Longrightarrow> 0 < n \<Longrightarrow> digits_of b n \<noteq> [] \<and> hd (digits_of b n) \<noteq> 0"
proof (induction b n rule: digits_of.induct)
  case (1 b n)
  show ?case
  proof (cases "n div b = 0")
    case True
    then have "n < b" using 1 by (simp add: div_eq_0_iff)
    with True show ?thesis using 1 by (simp add: digits_of_step [of n b])
  next
    case False
    then have "digits_of b (n div b) \<noteq> [] \<and> hd (digits_of b (n div b)) \<noteq> 0"
      using 1 by simp
    then show ?thesis using 1(2,3) by (simp add: digits_of_step [of n b] hd_append)
  qed
qed

text \<open>A digit and its character; digits from ten on are letters, counted from \<open>a\<close>.\<close>

definition digit_char :: "byte \<Rightarrow> nat \<Rightarrow> byte" where
  "digit_char a d = (if d < 10 then 48 + of_nat d else a + of_nat (d - 10))"

end
