(* ===== verification/Atoi.thy ===== *)
theory Atoi
  imports Chars
begin

text \<open>
  \<open>src/atoi.c\<close>: the number at the start of a string.  The string is the list of the bytes of its
  object from the pointer on; every operation on \<open>int\<close> is checked for overflow.
\<close>

section \<open>The code\<close>

fun skip_spaces :: "target \<Rightarrow> byte list \<Rightarrow> (byte \<times> byte list) res" where
  "skip_spaces t [] = Inl Read_Past_End"
| "skip_spaces t (c # nptr) =
     (if c \<noteq> 0 \<and> isspace (char_val t c) then skip_spaces t nptr else Inr (c, nptr))"

fun digit_loop :: "target \<Rightarrow> byte \<Rightarrow> byte list \<Rightarrow> int \<Rightarrow> int res" where
  "digit_loop t c nptr result =
     (if isdigit (char_val t c) then
        bind_res (int32 (result * 10)) (\<lambda>ten.
        bind_res (int32 (ten + (char_val t c - 48))) (\<lambda>result.
          case nptr of [] \<Rightarrow> Inl Read_Past_End | c # nptr \<Rightarrow> digit_loop t c nptr result))
      else Inr result)"

declare digit_loop.simps [simp del]

definition atoi :: "target \<Rightarrow> byte list \<Rightarrow> int res" where
  "atoi t nptr =
     bind_res (skip_spaces t nptr) (\<lambda>(c, nptr).
       if c = 45 then
         bind_res (next_char nptr) (\<lambda>(c, nptr).
         bind_res (digit_loop t c nptr 0) (\<lambda>result. int32 (- result)))
       else digit_loop t c nptr 0)"

section \<open>What it computes\<close>

definition digit_val :: "byte \<Rightarrow> nat" where
  "digit_val c = unat c - 48"

definition is_digit :: "byte \<Rightarrow> bool" where
  "is_digit c \<longleftrightarrow> 48 \<le> c \<and> c \<le> 57"

definition is_space :: "byte \<Rightarrow> bool" where
  "is_space c \<longleftrightarrow> c = 32 \<or> 9 \<le> c \<and> c \<le> 13"

lemma isdigit_char: "isdigit (char_val t c) \<longleftrightarrow> is_digit c"
proof (cases "c < 128")
  case True
  then show ?thesis by (simp add: isdigit_def is_digit_def char_val_ascii word_le_def)
next
  case False
  then have "128 \<le> uint c" "uint c < 256" using uint_bounded [of c] by (simp_all add: word_less_def)
  with False show ?thesis by (simp add: isdigit_def is_digit_def char_val_high word_le_def)
qed

lemma isspace_char: "isspace (char_val t c) \<longleftrightarrow> is_space c"
proof (cases "c < 128")
  case True
  then show ?thesis
    by (simp add: isspace_def is_space_def char_val_ascii word_le_def word_uint_eq_iff)
next
  case False
  then have "128 \<le> uint c" "uint c < 256" using uint_bounded [of c] by (simp_all add: word_less_def)
  with False show ?thesis
    by (simp add: isspace_def is_space_def char_val_high word_le_def word_uint_eq_iff)
qed

lemma digit_val_char: "is_digit c \<Longrightarrow> char_val t c - 48 = int (digit_val c)"
proof -
  assume c: "is_digit c"
  then have "48 \<le> unat c" "c < 128"
    by (simp_all add: is_digit_def word_le_nat_alt word_less_nat_alt)
  then show ?thesis by (simp add: char_val_ascii digit_val_def of_nat_diff)
qed

lemma skip_spaces_spec:
  "\<forall>x \<in> set sp. is_space x \<Longrightarrow> \<not> is_space c \<or> c = 0 \<Longrightarrow> skip_spaces t (sp @ c # s) = Inr (c, s)"
proof (induction sp)
  case (Cons x sp)
  then have "x \<noteq> 0" by (auto simp: is_space_def)
  with Cons show ?case by (simp add: isspace_char)
qed (auto simp: isspace_char)

lemma of_digits_mono: "n * b ^ length ds \<le> foldl (\<lambda>n d. b * n + d) n (ds :: nat list)"
proof (induction ds arbitrary: n)
  case (Cons d ds)
  have "n * b ^ length (d # ds) \<le> (b * n + d) * b ^ length ds" by (simp add: algebra_simps)
  also have "\<dots> \<le> foldl (\<lambda>n d. b * n + d) (b * n + d) ds" by (rule Cons)
  finally show ?case by simp
qed simp

lemma int32_nat: "int32 (int n) = (if n < 2 ^ 31 then Inr (int n) else Inl Signed_Overflow)"
  by (simp add: int32_def)

lemma digit_loop_spec:
  assumes "\<forall>d \<in> set ds. is_digit d" and "\<not> is_digit c" and "n < 2 ^ 31"
  defines "v \<equiv> foldl (\<lambda>n d. 10 * n + d) n (map digit_val ds)"
  shows "digit_loop t (hd (ds @ [c])) (tl (ds @ c # s)) (int n) =
    (if v < 2 ^ 31 then Inr (int v) else Inl Signed_Overflow)"
  using assms(1,3) unfolding v_def
proof (induction ds arbitrary: n)
  case Nil
  then show ?case using assms(2) by (simp add: digit_loop.simps isdigit_char)
next
  case (Cons d ds)
  let ?n = "10 * n + digit_val d"
  have d: "is_digit d" using Cons.prems by simp
  have mono: "?n \<le> foldl (\<lambda>n d. 10 * n + d) ?n (map digit_val ds)"
    using of_digits_mono [of ?n 10 "map digit_val ds"]
      mult_le_mono2 [of 1 "10 ^ length ds" ?n]
    by (metis (no_types, lifting) length_map mult.right_neutral one_le_numeral one_le_power order_trans)
  have mul: "int n * 10 = int (10 * n)" and add: "int (10 * n) + int (digit_val d) = int ?n"
    by simp_all
  have tl: "tl ((d # ds) @ c # s) = hd (ds @ [c]) # tl (ds @ c # s)" by (cases ds) simp_all
  have unfold: "digit_loop t (hd ((d # ds) @ [c])) (tl ((d # ds) @ c # s)) (int n) =
      bind_res (int32 (int (10 * n))) (\<lambda>ten. bind_res (int32 (ten + int (digit_val d)))
        (digit_loop t (hd (ds @ [c])) (tl (ds @ c # s))))"
    using d unfolding tl by (subst digit_loop.simps) (simp add: isdigit_char digit_val_char mul)
  show ?case
  proof (cases "?n < 2 ^ 31")
    case True
    then have ten: "10 * n < 2 ^ 31" by simp
    show ?thesis
      unfolding unfold int32_nat if_P [OF ten] bind_res_simps add if_P [OF True]
      using Cons.IH [of ?n] Cons.prems(1) True by simp
  next
    case False
    have "bind_res (int32 (int (10 * n))) (\<lambda>ten. bind_res (int32 (ten + int (digit_val d))) f) =
        Inl Signed_Overflow" for f :: "int \<Rightarrow> int res"
    proof (cases "10 * n < 2 ^ 31")
      case True
      show ?thesis
        unfolding int32_nat if_P [OF True] bind_res_simps add if_not_P [OF False] ..
    qed (simp only: int32_nat if_False bind_res_simps)
    then show ?thesis using False mono unfolding unfold by simp
  qed
qed

lemma atoi_spec:
  assumes "\<forall>x \<in> set sp. is_space x" and "\<forall>d \<in> set ds. is_digit d" and "ds \<noteq> []"
    and "\<not> is_digit c"
  defines "v \<equiv> of_digits 10 (map digit_val ds)"
  shows "atoi t (sp @ (if neg then [45] else []) @ ds @ c # s) =
    (if v < 2 ^ 31 then Inr (if neg then - int v else int v) else Inl Signed_Overflow)"
proof -
  have loop: "digit_loop t (hd ds) (tl ds @ c # s) 0 =
      (if v < 2 ^ 31 then Inr (int v) else Inl Signed_Overflow)"
    using digit_loop_spec [of ds c 0 t s] assms by (cases ds) (simp_all add: of_digits_def)
  have opp: "v < 2 ^ 31 \<Longrightarrow> int32 (- int v) = Inr (- int v)" by (simp add: int32_def)
  have hd: "is_digit (hd ds)" "ds @ c # s = hd ds # tl ds @ c # s" using assms by (cases ds; simp)+
  have "\<not> is_space (hd ds)" "hd ds \<noteq> 45" "\<not> is_space 45"
    using hd(1) by (auto simp: is_space_def is_digit_def word_le_nat_alt)
  then have skip: "skip_spaces t (sp @ hd ds # tl ds @ c # s) = Inr (hd ds, tl ds @ c # s)"
      "skip_spaces t (sp @ 45 # hd ds # tl ds @ c # s) = Inr (45, hd ds # tl ds @ c # s)"
    using assms(1) by (simp_all add: skip_spaces_spec)
  show ?thesis
    using skip loop opp \<open>hd ds \<noteq> 45\<close> by (cases neg) (simp_all add: atoi_def hd(2))
qed

text \<open>
  C33. \<open>atoi\<close> skips white space, reads an optional minus sign and the digits behind it and returns
  their value; a value of \<open>2 ^ 31\<close> or more overflows \<open>int\<close>, also behind a minus sign, where
  \<open>-2147483648\<close> would still be an \<open>int\<close>.
\<close>

theorem atoi_parses:
  assumes "\<forall>x \<in> set sp. is_space x" and "\<forall>d \<in> set ds. is_digit d" and "ds \<noteq> []"
    and "\<not> is_digit c"
  defines "v \<equiv> of_digits 10 (map digit_val ds)"
  shows "atoi t (sp @ (if neg then [45] else []) @ ds @ c # s) =
    (if v < 2 ^ 31 then Inr (if neg then - int v else int v) else Inl Signed_Overflow)"
  unfolding v_def using assms(1-4) by (rule atoi_spec)

lemma atoi_parses_witness:
  "atoi x86_64_target [32, 45, 52, 50, 0] = Inr (- 42)
   \<and> atoi x86_64_target [45, 50, 49, 52, 55, 52, 56, 51, 54, 52, 56, 0] = Inl Signed_Overflow"
  using atoi_parses [of "[32]" "[52, 50]" 0 x86_64_target True "[]"]
    atoi_parses [of "[]" "[50, 49, 52, 55, 52, 56, 51, 54, 52, 56]" 0 x86_64_target True "[]"]
  by (simp add: is_space_def is_digit_def digit_val_def of_digits_def)

lemma digit_loop_reads_string:
  "terminated s \<or> \<not> is_digit c \<Longrightarrow>
    digit_loop t c s r \<noteq> Inl Read_Past_End \<and> digit_loop t c (s @ s') r = digit_loop t c s r"
proof (induction s arbitrary: c r)
  case Nil
  then show ?case by (simp add: digit_loop.simps isdigit_char)
next
  case (Cons x s)
  show ?case
  proof (cases "is_digit c")
    case True
    have "\<not> is_digit 0" by (simp add: is_digit_def)
    then have "terminated s \<or> \<not> is_digit x" using Cons.prems True by auto
    from Cons.IH [OF this] show ?thesis
      by (simp add: digit_loop.simps [of t c] isdigit_char int32_def bind_res_def)
  qed (simp add: digit_loop.simps isdigit_char)
qed

lemma skip_spaces_reads_string:
  "terminated s \<Longrightarrow> \<exists>c r. skip_spaces t s = Inr (c, r) \<and> skip_spaces t (s @ s') = Inr (c, r @ s')
    \<and> (c = 0 \<or> terminated r)"
  by (induction s) auto

text \<open>
  \<open>atoi\<close> never reads behind the terminator of its string: for a terminated object it does not
  fault on a read, whatever else is in it.
\<close>

theorem atoi_reads_string:
  assumes "terminated s"
  shows "atoi t s \<noteq> Inl Read_Past_End \<and> (\<forall>s'. atoi t (s @ s') = atoi t s)"
proof -
  have "atoi t s \<noteq> Inl Read_Past_End \<and> atoi t (s @ s') = atoi t s" for s'
  proof -
    obtain c r where cr: "skip_spaces t s = Inr (c, r)" "skip_spaces t (s @ s') = Inr (c, r @ s')"
        "c = 0 \<or> terminated r"
      using skip_spaces_reads_string [OF assms] by blast
    have z: "\<not> is_digit 0" by (simp add: is_digit_def)
    show ?thesis
    proof (cases "c = 45")
      case True
      with cr(3) obtain x r' where r: "r = x # r'" "x = 0 \<or> terminated r'" by (cases r) auto
      then have "terminated r' \<or> \<not> is_digit x" using z by auto
      from digit_loop_reads_string [OF this, of t 0 s'] show ?thesis
        using True cr r by (auto simp: atoi_def bind_res_def int32_def split: sum.splits)
    next
      case False
      from cr(3) z have "terminated r \<or> \<not> is_digit c" by auto
      from digit_loop_reads_string [OF this, of t 0 s'] show ?thesis
        using False cr by (simp add: atoi_def)
    qed
  qed
  then show ?thesis by blast
qed

lemma atoi_reads_string_witness:
  "atoi x86_64_target [55, 0, 1, 2] = atoi x86_64_target [55, 0]"
  using atoi_reads_string [of "[55, 0]" x86_64_target] by (metis append_Cons append_Nil terminated_simps(2))

text \<open>
  A string without a digit behind its white space and optional minus sign is 0, which includes
  every number with a plus sign.
\<close>

theorem atoi_no_number:
  assumes "\<forall>x \<in> set sp. is_space x" and "\<not> is_space c" and "\<not> is_digit c" and "c \<noteq> 45"
  shows "atoi t (sp @ c # s) = Inr 0 \<and> atoi t (sp @ 45 # c # s) = Inr 0"
proof -
  have "\<not> is_space 45" by (simp add: is_space_def word_le_nat_alt)
  then show ?thesis
    using assms by (simp add: atoi_def skip_spaces_spec digit_loop.simps isdigit_char int32_def)
qed

lemma atoi_no_number_witness: "atoi aarch64_target [32, 43, 53, 0] = Inr 0"
  using atoi_no_number [of "[32]" 43 aarch64_target "[53, 0]"]
  by (simp add: is_space_def is_digit_def)

end
