(* ===== verification/Printf.thy ===== *)
theory Printf
  imports Atoi
begin

text \<open>
  The formatter of \<open>src/printf.c\<close>: conversion specifications, the digit buffer and the output of a
  field, for an arbitrary character sink \<open>write\<close>.  The format and the string arguments are the
  byte lists of their objects from the pointer on; arguments of the wrong type, missing arguments,
  reads behind an object and writes in front of the digit buffer are faults.
\<close>

section \<open>Data\<close>

text \<open>
  The variable arguments: 32-bit and 64-bit integers, and pointers to characters, \<open>None\<close> being
  \<open>NULL\<close>.  A \<open>%p\<close> argument is read as a 64-bit integer, as the code does.
\<close>

datatype vararg = Arg32 u32 | Arg64 u64 | ArgPtr "byte list option"

record fmt_flags =
  left :: bool
  pad_zero :: bool
  add_sign :: bool
  bit64 :: bool
  bit16 :: bool
  bit8 :: bool
  alt :: bool
  space :: bool

definition no_flags :: fmt_flags where
  "no_flags = \<lparr>left = False, pad_zero = False, add_sign = False, bit64 = False, bit16 = False,
     bit8 = False, alt = False, space = False\<rparr>"

text \<open>\<open>"<ERROR>\n"\<close> and \<open>"[null]"\<close>, with their terminators.\<close>

definition ERROR_STR :: "byte list" where
  "ERROR_STR = [60, 69, 82, 82, 79, 82, 62, 10, 0]"

definition null_text :: "byte list" where
  "null_text = [91, 110, 117, 108, 108, 93, 0]"

definition MAX_FORMAT :: u32 where
  "MAX_FORMAT = 128"

text \<open>
  The formatter stops early when it faults or when it returns \<open>EOF\<close>; the sink's state is then part
  of the result.
\<close>

datatype 's stop = Fault fault | Return_EOF 's

definition bind_run :: "'s stop + 'a \<Rightarrow> ('a \<Rightarrow> 's stop + 'b) \<Rightarrow> 's stop + 'b" where
  "bind_run m f = (case m of Inl e \<Rightarrow> Inl e | Inr x \<Rightarrow> f x)"

definition check :: "'a res \<Rightarrow> 's stop + 'a" where
  "check r = (case r of Inl e \<Rightarrow> Inl (Fault e) | Inr x \<Rightarrow> Inr x)"

lemma bind_run_simps [simp]:
  "bind_run (Inl e) f = Inl e"
  "bind_run (Inr x) f = f x"
  by (simp_all add: bind_run_def)

lemma check_simps [simp]:
  "check (Inl e) = Inl (Fault e)"
  "check (Inr x) = Inr x"
  by (simp_all add: check_def)

lemma bind_run_eq_Inr: "bind_run m f = Inr y \<longleftrightarrow> (\<exists>x. m = Inr x \<and> f x = Inr y)"
  by (cases m) simp_all

lemma check_eq_Inr [simp]: "check r = Inr y \<longleftrightarrow> r = Inr y"
  by (cases r) simp_all

lemma bind_run_cong [fundef_cong]:
  "m = m' \<Longrightarrow> (\<And>x. m' = Inr x \<Longrightarrow> f x = g x) \<Longrightarrow> bind_run m f = bind_run m' g"
  by (cases m') simp_all

section \<open>Digits\<close>

definition get_digit :: "target \<Rightarrow> u64 \<Rightarrow> u32 \<Rightarrow> (u32 \<times> u64) res" where
  "get_digit t n d =
     (if d = 2 then Inr (ucast (n AND 1), drop_bit 1 n)
      else if d = 8 then Inr (ucast (n AND 0x7), drop_bit 3 n)
      else if d = 16 then Inr (ucast (n AND 0xf), drop_bit 4 n)
      else bind_res (umoddiv32 t n d) (\<lambda>(n, r). Inr (r, n)))"

definition char_digit :: "byte \<Rightarrow> byte \<Rightarrow> byte" where
  "char_digit c a = (if c > 9 then c + a - 10 else c + 48)"

text \<open>\<open>*(--value_str) = c\<close> in the buffer \<open>digits\<close>, \<open>value_str\<close> being an index of it.\<close>

definition put_digit :: "byte list \<times> nat \<Rightarrow> byte \<Rightarrow> (byte list \<times> nat) res" where
  "put_digit = (\<lambda>(digits, value_str) c.
     if value_str = 0 then Inl Buffer_Overrun
     else Inr (digits[value_str - 1 := c], value_str - 1))"

fun fixed_digits ::
  "target \<Rightarrow> u32 \<Rightarrow> byte \<Rightarrow> nat \<Rightarrow> u64 \<Rightarrow> byte list \<times> nat \<Rightarrow> (u64 \<times> byte list \<times> nat) res" where
  "fixed_digits t base hex 0 v buf = Inr (v, buf)"
| "fixed_digits t base hex (Suc i) v buf =
     bind_res (get_digit t v base) (\<lambda>(r, v).
     bind_res (put_digit buf (char_digit (ucast r) hex)) (\<lambda>buf.
       fixed_digits t base hex i v buf))"

text \<open>
  \<open>while (v)\<close>: every round stores a digit in front of the last one, so the rounds end at the start
  of the buffer at the latest.
\<close>

function all_digits ::
  "target \<Rightarrow> u32 \<Rightarrow> byte \<Rightarrow> u64 \<Rightarrow> byte list \<times> nat \<Rightarrow> (byte list \<times> nat) res" where
  "all_digits t base hex v buf =
     (if v \<noteq> 0 then
        bind_res (get_digit t v base) (\<lambda>(r, v).
        bind_res (put_digit buf (char_digit (ucast r) hex)) (\<lambda>buf.
          all_digits t base hex v buf))
      else Inr buf)"
  by pat_completeness auto
termination
  by (relation "measure (\<lambda>(_, _, _, _, buf). snd buf)")
    (auto simp: put_digit_def split: if_splits)

declare all_digits.simps [simp del]

text \<open>The text of a number: what \<open>value_str\<close> points to when the conversion is done.\<close>

definition number_text ::
  "target \<Rightarrow> byte \<Rightarrow> u32 \<Rightarrow> u32 \<Rightarrow> byte \<Rightarrow> u64 \<Rightarrow> byte list res" where
  "number_text t sign precision base hex v =
     (let buf = ((replicate 68 0)[67 := 0], 67) in
      bind_res (fixed_digits t base hex (unat precision) v buf) (\<lambda>(v, buf).
      bind_res (if precision = 0 \<and> v = 0 then put_digit buf 48 else Inr buf) (\<lambda>buf.
      bind_res (all_digits t base hex v buf) (\<lambda>buf.
      bind_res (if sign \<noteq> 0 then put_digit buf sign else Inr buf) (\<lambda>(digits, value_str).
        Inr (drop value_str digits))))))"

section \<open>Conversion specifications\<close>

text \<open>The flag characters \<open>-+0# \<close>.\<close>

definition set_flag :: "byte \<Rightarrow> fmt_flags \<Rightarrow> fmt_flags option" where
  "set_flag c flags =
     (if c = 45 then Some (flags\<lparr>left := True\<rparr>)
      else if c = 43 then Some (flags\<lparr>add_sign := True\<rparr>)
      else if c = 48 then Some (flags\<lparr>pad_zero := True\<rparr>)
      else if c = 35 then Some (flags\<lparr>alt := True\<rparr>)
      else if c = 32 then Some (flags\<lparr>space := True\<rparr>)
      else None)"

fun read_flags :: "byte \<Rightarrow> byte list \<Rightarrow> fmt_flags \<Rightarrow> (byte \<times> byte list \<times> fmt_flags) res" where
  "read_flags c [] flags = (case set_flag c flags of None \<Rightarrow> Inr (c, [], flags) | Some _ \<Rightarrow> Inl Read_Past_End)"
| "read_flags c (d # format) flags =
     (case set_flag c flags of None \<Rightarrow> Inr (c, d # format, flags)
      | Some flags \<Rightarrow> read_flags d format flags)"

fun read_number :: "target \<Rightarrow> byte \<Rightarrow> byte list \<Rightarrow> u32 \<Rightarrow> (byte \<times> byte list \<times> u32) res" where
  "read_number t c [] n = (if isdigit (char_val t c) then Inl Read_Past_End else Inr (c, [], n))"
| "read_number t c (d # format) n =
     (if isdigit (char_val t c)
      then read_number t d format (10 * n + word_of_int (char_val t c) - 48)
      else Inr (c, d # format, n))"

definition va_int :: "vararg list \<Rightarrow> (int \<times> vararg list) res" where
  "va_int args = (case args of [] \<Rightarrow> Inl Missing_Argument
     | Arg32 w # args \<Rightarrow> Inr (sint w, args) | _ \<Rightarrow> Inl Wrong_Argument_Type)"

definition va_u32 :: "vararg list \<Rightarrow> (u32 \<times> vararg list) res" where
  "va_u32 args = (case args of [] \<Rightarrow> Inl Missing_Argument
     | Arg32 w # args \<Rightarrow> Inr (w, args) | _ \<Rightarrow> Inl Wrong_Argument_Type)"

definition va_u64 :: "vararg list \<Rightarrow> (u64 \<times> vararg list) res" where
  "va_u64 args = (case args of [] \<Rightarrow> Inl Missing_Argument
     | Arg64 w # args \<Rightarrow> Inr (w, args) | _ \<Rightarrow> Inl Wrong_Argument_Type)"

definition va_ptr :: "vararg list \<Rightarrow> (byte list option \<times> vararg list) res" where
  "va_ptr args = (case args of [] \<Rightarrow> Inl Missing_Argument
     | ArgPtr p # args \<Rightarrow> Inr (p, args) | _ \<Rightarrow> Inl Wrong_Argument_Type)"

text \<open>The padding width, and behind a dot the precision: digits, or \<open>*\<close> for an argument.\<close>

definition read_field ::
  "target \<Rightarrow> byte \<Rightarrow> byte list \<Rightarrow> vararg list \<Rightarrow> (byte \<times> byte list \<times> vararg list \<times> u32) res" where
  "read_field t c format args =
     (if c = 42 then
        bind_res (va_int args) (\<lambda>(p, args).
        bind_res (next_char format) (\<lambda>(c, format).
          Inr (c, format, args, if p < 0 then 0 else word_of_int p)))
      else bind_res (read_number t c format 0) (\<lambda>(c, format, n). Inr (c, format, args, n)))"

definition read_precision ::
  "target \<Rightarrow> byte \<Rightarrow> byte list \<Rightarrow> vararg list \<Rightarrow> (byte \<times> byte list \<times> vararg list \<times> u32) res" where
  "read_precision t c format args =
     (if c = 46 then bind_res (next_char format) (\<lambda>(c, format). read_field t c format args)
      else Inr (c, format, args, 0))"

text \<open>The length modifiers \<open>hh\<close>, \<open>h\<close>, \<open>l\<close>, \<open>ll\<close>, \<open>z\<close>, \<open>j\<close>, \<open>t\<close>, and \<open>p\<close>, which also stays.\<close>

definition read_length :: "byte \<Rightarrow> byte list \<Rightarrow> fmt_flags \<Rightarrow> (byte \<times> byte list \<times> fmt_flags) res" where
  "read_length c format flags =
     (if c = 104 then
        bind_res (next_char format) (\<lambda>(c, format).
          if c = 104 then bind_res (next_char format) (\<lambda>(c, format).
            Inr (c, format, flags\<lparr>bit8 := True\<rparr>))
          else Inr (c, format, flags\<lparr>bit16 := True\<rparr>))
      else if c = 108 then
        bind_res (next_char format) (\<lambda>(c, format).
          if c = 108 then bind_res (next_char format) (\<lambda>(c, format).
            Inr (c, format, flags\<lparr>bit64 := True\<rparr>))
          else Inr (c, format, flags\<lparr>bit64 := True\<rparr>))
      else if c = 122 then
        bind_res (next_char format) (\<lambda>(c, format). Inr (c, format, flags\<lparr>bit64 := True\<rparr>))
      else if c = 112 then Inr (c, format, flags\<lparr>bit64 := True, pad_zero := True\<rparr>)
      else if c = 106 then
        bind_res (next_char format) (\<lambda>(c, format). Inr (c, format, flags\<lparr>bit64 := True\<rparr>))
      else if c = 116 then
        bind_res (next_char format) (\<lambda>(c, format). Inr (c, format, flags\<lparr>bit64 := True\<rparr>))
      else Inr (c, format, flags))"

definition load_value :: "fmt_flags \<Rightarrow> vararg list \<Rightarrow> (u64 \<times> vararg list) res" where
  "load_value flags args =
     (if bit64 flags then va_u64 args
      else bind_res (va_u32 args) (\<lambda>(w, args).
        let v = ucast w;
            v = if bit16 flags then v AND 0xffff else v;
            v = if bit8 flags then v AND 0xff else v
        in Inr (v, args)))"

text \<open>\<open>case 'd'\<close>: the sign character (0 for none) and the magnitude.\<close>

definition signed_value :: "fmt_flags \<Rightarrow> u64 \<Rightarrow> byte \<times> u64" where
  "signed_value flags v =
     (let (sign, v) =
        (if bit16 flags then
           let vv = ucast v :: u16 in
           if sint vv < 0 then (45, word_of_int (- sint vv)) else (0, ucast vv)
         else if bit8 flags then
           let vv = ucast v :: byte in
           if sint vv < 0 then (45, word_of_int (- sint vv)) else (0, ucast vv)
         else if bit64 flags then
           if sint v < 0 then (45, if v \<noteq> push_bit 63 1 then - v else v)
           else (if add_sign flags then 43 else 0, v)
         else
           if sint (ucast v :: u32) < 0
           then (45, if v \<noteq> push_bit 31 1 then word_of_int (- sint (ucast v :: u32)) else v)
           else (if add_sign flags then 43 else 0, v))
      in (if sign = 0 \<and> space flags then 32 else sign, v))"

section \<open>Output\<close>

text \<open>
  \<open>if (!write(state, c)) return EOF; count++;\<close> \<open>-\<close> the running state is the sink's state and the
  counter of the characters written, an \<open>int\<close>.
\<close>

definition emit :: "('s \<Rightarrow> int \<Rightarrow> bool \<times> 's) \<Rightarrow> int \<Rightarrow> 's \<times> int \<Rightarrow> 's stop + 's \<times> int" where
  "emit write c = (\<lambda>(state, count).
     case write state c of (ok, state) \<Rightarrow>
       if \<not> ok then Inl (Return_EOF state)
       else bind_run (check (int32 (count + 1))) (\<lambda>count. Inr (state, count)))"

function pad_loop ::
  "('s \<Rightarrow> int \<Rightarrow> bool \<times> 's) \<Rightarrow> int \<Rightarrow> u64 \<Rightarrow> u32 \<Rightarrow> 's \<times> int \<Rightarrow> 's stop + u64 \<times> 's \<times> int" where
  "pad_loop write c value_len pad_width sc =
     (if value_len < ucast pad_width then
        bind_run (emit write c sc) (\<lambda>sc. pad_loop write c (value_len + 1) pad_width sc)
      else Inr (value_len, sc))"
  by pat_completeness auto

lemma unat_Suc_less:
  fixes a b :: "'a::len word"
  assumes "a < b"
  shows "unat (a + 1) = Suc (unat a)"
proof -
  have "unat a < unat b" using assms by (simp add: word_less_nat_alt)
  then have "Suc (unat a) < 2 ^ LENGTH('a)" using unat_less_exp [of b] by linarith
  moreover have "unat (1 :: 'a word) = 1" by simp
  ultimately show ?thesis using unat_add_fits [of a 1] by simp
qed

termination pad_loop
proof (relation "measure (\<lambda>(_, _, value_len, pad_width, _). unat (ucast pad_width :: u64) - unat value_len)")
  fix f :: "'s \<Rightarrow> int \<Rightarrow> bool \<times> 's" and c and value_len :: u64 and pad_width :: u32 and x sc
  assume less: "value_len < ucast pad_width"
  then have "unat value_len < unat (ucast pad_width :: u64)" by (simp add: word_less_nat_alt)
  then show "((f, c, value_len + 1, pad_width, x), (f, c, value_len, pad_width, sc))
      \<in> measure (\<lambda>(_, _, value_len, pad_width, _). unat (ucast pad_width :: u64) - unat value_len)"
    unfolding in_measure prod.case unat_Suc_less [OF less] by linarith
qed simp

declare pad_loop.simps [simp del]

fun text_loop ::
  "target \<Rightarrow> ('s \<Rightarrow> int \<Rightarrow> bool \<times> 's) \<Rightarrow> byte list \<Rightarrow> u32 \<Rightarrow> 's \<times> int \<Rightarrow> 's stop + 's \<times> int" where
  "text_loop t write [] precision sc = Inl (Fault Read_Past_End)"
| "text_loop t write (c # value_str) precision sc =
     (if c \<noteq> 0 \<and> precision \<noteq> 0 then
        bind_run (emit write (char_val t c) sc) (\<lambda>sc. text_loop t write value_str (precision - 1) sc)
      else Inr sc)"

fun object_strlen :: "byte list \<Rightarrow> u64 \<Rightarrow> u64 res" where
  "object_strlen [] len = Inl Read_Past_End"
| "object_strlen (c # s) len = (if c \<noteq> 0 then object_strlen s (len + 1) else Inr len)"

definition print_field ::
  "target \<Rightarrow> ('s \<Rightarrow> int \<Rightarrow> bool \<times> 's) \<Rightarrow> fmt_flags \<Rightarrow> u32 \<Rightarrow> u32 \<Rightarrow> byte list \<Rightarrow> 's \<times> int
    \<Rightarrow> 's stop + 's \<times> int" where
  "print_field t write flags pad_width precision value_str sc =
     bind_run (check (object_strlen value_str 0)) (\<lambda>value_len.
       let value_len = if precision \<noteq> 0 \<and> value_len > ucast precision then ucast precision else value_len;
           precision = if precision = 0
             then if value_len > ucast pad_width then ucast value_len else pad_width
             else precision
       in
       bind_run
         (if \<not> left flags
          then pad_loop write (if pad_zero flags then 48 else 32) value_len pad_width sc
          else Inr (value_len, sc)) (\<lambda>(value_len, sc).
       bind_run (text_loop t write value_str precision sc) (\<lambda>sc.
       bind_run
         (if left flags then pad_loop write 32 value_len pad_width sc else Inr (value_len, sc))
         (\<lambda>(value_len, sc). Inr sc))))"

fun hex_loop ::
  "target \<Rightarrow> ('s \<Rightarrow> int \<Rightarrow> bool \<times> 's) \<Rightarrow> byte list \<Rightarrow> u32 \<Rightarrow> 's \<times> int \<Rightarrow> 's stop + 's \<times> int" where
  "hex_loop t write [] precision sc =
     (if precision \<noteq> 0 then Inl (Fault Read_Past_End) else Inr sc)"
| "hex_loop t write (c # value_str) precision sc =
     (if precision \<noteq> 0 then
        bind_run (emit write (char_val t (char_digit (word_of_int (drop_bit 4 (char_val t c))) 97)) sc) (\<lambda>sc.
        bind_run (emit write (char_val t (char_digit (word_of_int (char_val t c AND 0xf)) 97)) sc) (\<lambda>sc.
          hex_loop t write value_str (precision - 1) sc))
      else Inr sc)"

section \<open>The formatter\<close>

text \<open>
  The \<open>switch\<close> over the conversion character: sign, base and magnitude, and the prefixes \<open>0x\<close> and
  \<open>0\<close> that are written at once.
\<close>

definition number_prefix ::
  "('s \<Rightarrow> int \<Rightarrow> bool \<times> 's) \<Rightarrow> byte \<Rightarrow> fmt_flags \<Rightarrow> u64 \<Rightarrow> 's \<times> int
    \<Rightarrow> 's stop + byte \<times> u32 \<times> u64 \<times> 's \<times> int" where
  "number_prefix write c flags v sc =
     (if c = 100 then (let (sign, v) = signed_value flags v in Inr (sign, 10, v, sc))
      else if c = 117 then Inr (0, 10, v, sc)
      else if c = 112 then
        bind_run (emit write 48 sc) (\<lambda>sc. bind_run (emit write 120 sc) (\<lambda>sc. Inr (0, 16, v, sc)))
      else if c = 88 \<or> c = 120 then Inr (0, 16, v, sc)
      else if c = 111 then bind_run (emit write 48 sc) (\<lambda>sc. Inr (0, 8, v, sc))
      else if c = 98 then Inr (0, 2, v, sc)
      else Inl (Return_EOF (fst sc)))"

text \<open>
  A number, from the length modifier on.  The result is the format to go on with, the arguments
  left, and the running state.
\<close>

definition number_conversion ::
  "target \<Rightarrow> ('s \<Rightarrow> int \<Rightarrow> bool \<times> 's) \<Rightarrow> byte \<Rightarrow> byte list \<Rightarrow> vararg list \<Rightarrow> fmt_flags \<Rightarrow> u32 \<Rightarrow> u32
    \<Rightarrow> 's \<times> int \<Rightarrow> 's stop + byte list \<times> vararg list \<times> 's \<times> int" where
  "number_conversion t write c format args flags pad_width precision sc =
     bind_run (check (read_length c format flags)) (\<lambda>(c, format, flags).
       if c = 99 then
         bind_run (check (va_int args)) (\<lambda>(p, args).
         bind_run (emit write (char_val t (word_of_int p)) sc) (\<lambda>sc. Inr (format, args, sc)))
       else
         bind_run (check (load_value flags args)) (\<lambda>(v, args).
         bind_run (number_prefix write c flags v sc) (\<lambda>(sign, base, v, sc).
           if precision > 67 then Inr (ERROR_STR, args, sc)
           else
             let hex = if c = 88 \<or> c = 112 \<or> alt flags then 65 else 97 in
             bind_run (check (number_text t sign precision base hex v)) (\<lambda>value_str.
             bind_run (print_field t write flags pad_width 0 value_str sc) (\<lambda>sc.
               Inr (format, args, sc))))))"

text \<open>A conversion specification, from the character behind \<open>%\<close> on.\<close>

definition conversion ::
  "target \<Rightarrow> ('s \<Rightarrow> int \<Rightarrow> bool \<times> 's) \<Rightarrow> byte list \<Rightarrow> vararg list \<Rightarrow> 's \<times> int
    \<Rightarrow> 's stop + byte list \<times> vararg list \<times> 's \<times> int" where
  "conversion t write format args sc =
     bind_run (check (next_char format)) (\<lambda>(c, format).
       if c = 37 then bind_run (emit write (char_val t c) sc) (\<lambda>sc. Inr (format, args, sc))
       else if c = 0 then Inr (ERROR_STR, args, sc)
       else
         bind_run (check (read_flags c format no_flags)) (\<lambda>(c, format, flags).
         bind_run (check (read_field t c format args)) (\<lambda>(c, format, args, pad_width).
         bind_run (check (read_precision t c format args)) (\<lambda>(c, format, args, precision).
           if pad_width > MAX_FORMAT \<or> precision > MAX_FORMAT then Inr (ERROR_STR, args, sc)
           else if c = 115 then
             bind_run (check (va_ptr args)) (\<lambda>(p, args).
               let value_str = (case p of None \<Rightarrow> null_text | Some s \<Rightarrow> s) in
               bind_run (print_field t write flags pad_width precision value_str sc) (\<lambda>sc.
                 Inr (format, args, sc)))
           else if c = 72 then
             bind_run (check (va_ptr args)) (\<lambda>(p, args).
               case p of
                 None \<Rightarrow> Inr (ERROR_STR, args, sc)
               | Some value_str \<Rightarrow>
                   if precision = 0 then Inr (ERROR_STR, args, sc)
                   else bind_run (hex_loop t write value_str precision sc) (\<lambda>sc.
                     Inr (format, args, sc)))
           else number_conversion t write c format args flags pad_width precision sc))))"

text \<open>
  Every conversion goes on with a shorter format or with \<open>ERROR_STR\<close>, which has no \<open>%\<close>: the number
  of \<open>%\<close> and then the length decrease.
\<close>

definition shorter :: "byte list \<Rightarrow> byte list \<Rightarrow> bool" where
  "shorter format' format \<longleftrightarrow> (\<exists>xs. format = xs @ format')"

lemma shorter_refl [simp]: "shorter f f"
  by (simp add: shorter_def)

lemma shorter_trans: "shorter f g \<Longrightarrow> shorter g h \<Longrightarrow> shorter f h"
  by (auto simp: shorter_def)

lemma shorter_Cons: "shorter f g \<Longrightarrow> shorter f (c # g)"
  by (auto simp: shorter_def)

lemma shorter_next_char: "next_char f = Inr (c, g) \<Longrightarrow> shorter g f"
  by (cases f) (auto intro: shorter_Cons)

lemma shorter_read_flags: "read_flags c f flags = Inr (c', f', flags') \<Longrightarrow> shorter f' f"
  by (induction c f flags rule: read_flags.induct) (auto split: option.splits intro: shorter_Cons)

lemma shorter_read_number: "read_number t c f n = Inr (c', f', n') \<Longrightarrow> shorter f' f"
  by (induction t c f n rule: read_number.induct) (auto split: if_splits intro: shorter_Cons)

lemma shorter_read_field: "read_field t c f args = Inr (c', f', args', n) \<Longrightarrow> shorter f' f"
  by (auto simp: read_field_def bind_res_eq_Inr split: if_splits
      dest: shorter_read_number shorter_next_char)

lemma shorter_read_precision: "read_precision t c f args = Inr (c', f', args', n) \<Longrightarrow> shorter f' f"
  by (auto simp: read_precision_def bind_res_eq_Inr split: if_splits
      dest!: shorter_read_field shorter_next_char intro: shorter_trans)

lemma shorter_read_length: "read_length c f flags = Inr (c', f', flags') \<Longrightarrow> shorter f' f"
  by (auto simp: read_length_def bind_res_eq_Inr split: if_splits
      dest!: shorter_next_char intro: shorter_trans)

lemma shorter_number_conversion:
  "number_conversion t write c f args flags w p sc = Inr (f', args', sc') \<Longrightarrow>
    f' = ERROR_STR \<or> shorter f' f"
  by (auto simp: number_conversion_def bind_run_eq_Inr Let_def split: if_splits
      dest!: shorter_read_length)

lemma conversion_progress:
  assumes "conversion t write f args sc = Inr (f', args', sc')"
  shows "f' = ERROR_STR \<or> shorter f' f"
proof -
  obtain c g where g: "next_char f = Inr (c, g)"
    using assms by (cases "next_char f") (auto simp: conversion_def)
  then have fg: "shorter g f" by (rule shorter_next_char)
  show ?thesis
  proof (cases "c = 37 \<or> c = 0")
    case True
    then show ?thesis
      using assms g fg by (auto simp: conversion_def bind_run_eq_Inr split: if_splits)
  next
    case False
    obtain c1 g1 flags where r1: "read_flags c g no_flags = Inr (c1, g1, flags)"
      using assms g False by (cases "read_flags c g no_flags") (auto simp: conversion_def)
    obtain c2 g2 args2 w where r2: "read_field t c1 g1 args = Inr (c2, g2, args2, w)"
      using assms g False r1 by (cases "read_field t c1 g1 args") (auto simp: conversion_def)
    obtain c3 g3 args3 p where r3: "read_precision t c2 g2 args2 = Inr (c3, g3, args3, p)"
      using assms g False r1 r2 by (cases "read_precision t c2 g2 args2") (auto simp: conversion_def)
    have "shorter g3 f"
      using shorter_read_flags [OF r1] shorter_read_field [OF r2] shorter_read_precision [OF r3]
        fg by (blast intro: shorter_trans)
    then show ?thesis
      using assms g r1 r2 r3 False
      by (auto simp: conversion_def bind_run_eq_Inr Let_def split: if_splits option.splits
          dest!: shorter_number_conversion intro: shorter_trans)
  qed
qed

lemma conversion_measure:
  assumes "conversion t write f args sc = Inr (f', args', sc')"
  shows "count_list f' 37 < Suc (count_list f 37)"
  using conversion_progress [OF assms] by (auto simp: shorter_def ERROR_STR_def)

function format_loop ::
  "target \<Rightarrow> ('s \<Rightarrow> int \<Rightarrow> bool \<times> 's) \<Rightarrow> byte list \<Rightarrow> vararg list \<Rightarrow> 's \<times> int \<Rightarrow> 's stop + 's \<times> int" where
  "format_loop t write [] args sc = Inl (Fault Read_Past_End)"
| "format_loop t write (c # format) args sc =
     (if c = 0 then Inr sc
      else if c \<noteq> 37 then
        bind_run (emit write (char_val t c) sc) (\<lambda>sc. format_loop t write format args sc)
      else
        bind_run (conversion t write format args sc) (\<lambda>(format, args, sc).
          format_loop t write format args sc))"
  by pat_completeness auto
termination
  by (relation "measures [\<lambda>(_, _, f, _, _). count_list f 37, \<lambda>(_, _, f, _, _). length f]")
    (auto dest!: conversion_measure)

text \<open>The function: \<open>EOF\<close> is -1.\<close>

definition formatter ::
  "target \<Rightarrow> ('s \<Rightarrow> int \<Rightarrow> bool \<times> 's) \<Rightarrow> 's \<Rightarrow> byte list option \<Rightarrow> vararg list \<Rightarrow> ('s \<times> int) res" where
  "formatter t write state format args =
     (case format of
        None \<Rightarrow> Inr (state, -1)
      | Some format \<Rightarrow>
          (case format_loop t write format args (state, 0) of
             Inl (Fault e) \<Rightarrow> Inl e
           | Inl (Return_EOF state) \<Rightarrow> Inr (state, -1)
           | Inr (state, count) \<Rightarrow> Inr (state, count)))"

end
