(* ===== verification/Printf_Sink.thy ===== *)
theory Printf_Sink
  imports Printf
begin

text \<open>
  The contract between the formatter and the character sinks it writes to.  The formatter's output
  is defined once, with the sink \<open>collect\<close> that appends every character to a list; for every sink
  that keeps the contract the formatter does the same to the sink, character by character, until it
  ends or the sink refuses a character.
\<close>

section \<open>The reference sink\<close>

definition collect :: "byte list \<Rightarrow> int \<Rightarrow> bool \<times> byte list" where
  "collect xs c = (True, xs @ [word_of_int c])"

text \<open>The output of a call, with the value \<open>formatter\<close> returns.\<close>

definition formatted :: "target \<Rightarrow> byte list \<Rightarrow> vararg list \<Rightarrow> (byte list \<times> int) res" where
  "formatted t format args = formatter t collect [] (Some format) args"

section \<open>Two runs in step\<close>

text \<open>
  Related running states: the sink holds the list and both counters are its length.
\<close>

definition rel_sc :: "('s \<Rightarrow> byte list \<Rightarrow> bool) \<Rightarrow> 's \<times> int \<Rightarrow> byte list \<times> int \<Rightarrow> bool" where
  "rel_sc holds = (\<lambda>(s, k) (xs, k'). holds s xs \<and> k = int (length xs) \<and> k' = k)"

definition rel_next ::
  "('s \<Rightarrow> byte list \<Rightarrow> bool) \<Rightarrow> byte list \<times> vararg list \<times> 's \<times> int
    \<Rightarrow> byte list \<times> vararg list \<times> byte list \<times> int \<Rightarrow> bool" where
  "rel_next holds = (\<lambda>(f, a, sc) (f', a', sc'). f = f' \<and> a = a' \<and> rel_sc holds sc sc')"

lemma rel_next_simp [simp]: "rel_next h (f, a, sc) (f', a', sc') \<longleftrightarrow> f = f' \<and> a = a' \<and> rel_sc h sc sc'"
  by (simp add: rel_next_def)

definition in_step ::
  "('s \<Rightarrow> bool) \<Rightarrow> ('s \<Rightarrow> byte list \<Rightarrow> bool) \<Rightarrow> ('a \<Rightarrow> 'b \<Rightarrow> bool)
    \<Rightarrow> 's stop + 'a \<Rightarrow> byte list stop + 'b \<Rightarrow> bool" where
  "in_step gives_up holds Q m m' =
     (case m of
        Inr x \<Rightarrow> \<exists>y. m' = Inr y \<and> Q x y
      | Inl (Fault e) \<Rightarrow> m' = Inl (Fault e)
      | Inl (Return_EOF s) \<Rightarrow> gives_up s \<or> (\<exists>xs. m' = Inl (Return_EOF xs) \<and> holds s xs))"

lemma in_step_Inr [simp]: "in_step g h Q (Inr x) (Inr y) \<longleftrightarrow> Q x y"
  by (simp add: in_step_def)

lemma in_step_Fault [simp]: "in_step g h Q (Inl (Fault e)) (Inl (Fault e))"
  by (simp add: in_step_def)

lemma in_step_EOF: "h s xs \<Longrightarrow> in_step g h Q (Inl (Return_EOF s)) (Inl (Return_EOF xs))"
  by (simp add: in_step_def)

lemma in_step_bind:
  assumes "in_step g h Q m m'" and "\<And>x y. m = Inr x \<Longrightarrow> Q x y \<Longrightarrow> in_step g h Q' (f x) (f' y)"
  shows "in_step g h Q' (bind_run m f) (bind_run m' f')"
proof (cases m)
  case (Inl st)
  then show ?thesis using assms(1) by (cases st) (auto simp: in_step_def)
next
  case (Inr x)
  then obtain y where "m' = Inr y" "Q x y" using assms(1) by (auto simp: in_step_def)
  then show ?thesis using assms(2) Inr by simp
qed

lemma in_step_check:
  assumes "\<And>x. r = Inr x \<Longrightarrow> in_step g h Q' (f x) (f' x)"
  shows "in_step g h Q' (bind_run (check r) f) (bind_run (check r) f')"
  using assms by (cases r) simp_all

locale sink =
  fixes put :: "'s \<Rightarrow> int \<Rightarrow> bool \<times> 's"
    and holds :: "'s \<Rightarrow> byte list \<Rightarrow> bool"
    and gives_up :: "'s \<Rightarrow> bool"
  assumes accepts: "put s c = (True, s') \<Longrightarrow> holds s xs \<Longrightarrow> holds s' (xs @ [word_of_int c])"
    and refuses: "put s c = (False, s') \<Longrightarrow> holds s xs \<Longrightarrow> gives_up s'"
begin

lemma emit_in_step:
  assumes "rel_sc holds sc sc'"
  shows "in_step gives_up holds (rel_sc holds) (emit put c sc) (emit collect c sc')"
proof -
  obtain s k xs where sc: "sc = (s, k)" "sc' = (xs, k)" "holds s xs" "k = int (length xs)"
    using assms by (cases sc; cases sc') (auto simp: rel_sc_def)
  obtain ok s' where p: "put s c = (ok, s')" by (cases "put s c")
  show ?thesis
  proof (cases ok)
    case True
    then have "holds s' (xs @ [word_of_int c])" using accepts [OF _ sc(3)] p by simp
    then have rel: "rel_sc holds (s', k + 1) (xs @ [word_of_int c], k + 1)"
      using sc(4) by (simp add: rel_sc_def)
    have runs: "emit put c (s, k) = bind_run (check (int32 (k + 1))) (\<lambda>k. Inr (s', k))"
        "emit collect c (xs, k) = bind_run (check (int32 (k + 1))) (\<lambda>k. Inr (xs @ [word_of_int c], k))"
      using p True by (simp_all add: emit_def collect_def)
    show ?thesis
    proof (cases "int32 (k + 1)")
      case (Inr j)
      then have "j = k + 1" by (simp add: int32_def split: if_splits)
      then show ?thesis unfolding sc(1,2) runs using rel Inr by simp
    qed (simp add: sc(1,2) runs)
  next
    case False
    then show ?thesis
      using p sc refuses by (auto simp: emit_def in_step_def)
  qed
qed

lemma emit_then:
  assumes "rel_sc holds sc sc'"
    and "\<And>x y. emit put c sc = Inr x \<Longrightarrow> rel_sc holds x y \<Longrightarrow> in_step gives_up holds Q (f x) (f' y)"
  shows "in_step gives_up holds Q (bind_run (emit put c sc) f) (bind_run (emit collect c sc') f')"
  by (rule in_step_bind [OF emit_in_step [OF assms(1)] assms(2)])

lemma pad_loop_in_step:
  "rel_sc holds sc sc' \<Longrightarrow>
    in_step gives_up holds (\<lambda>(n, sc) (n', sc'). n = n' \<and> rel_sc holds sc sc')
      (pad_loop put c value_len pad_width sc) (pad_loop collect c value_len pad_width sc')"
proof (induction "unat (ucast pad_width :: u64) - unat value_len" arbitrary: value_len sc sc' rule: less_induct)
  case less
  show ?case
  proof (cases "value_len < ucast pad_width")
    case True
    then have "unat value_len < unat (ucast pad_width :: u64)" by (simp add: word_less_nat_alt)
    then have "unat (ucast pad_width :: u64) - unat (value_len + 1) < unat (ucast pad_width :: u64) - unat value_len"
      unfolding unat_Suc_less [OF True] by linarith
    then show ?thesis
      using True less.hyps less.prems unfolding pad_loop.simps [of _ _ value_len]
      by (simp add: emit_then)
  qed (simp add: pad_loop.simps less.prems)
qed

lemma text_loop_in_step:
  "rel_sc holds sc sc' \<Longrightarrow> in_step gives_up holds (rel_sc holds)
    (text_loop t put value_str precision sc) (text_loop t collect value_str precision sc')"
  by (induction value_str arbitrary: precision sc sc') (auto intro!: emit_then)

lemma hex_loop_in_step:
  "rel_sc holds sc sc' \<Longrightarrow> in_step gives_up holds (rel_sc holds)
    (hex_loop t put value_str precision sc) (hex_loop t collect value_str precision sc')"
  by (induction value_str arbitrary: precision sc sc') (auto intro!: emit_then)

lemma print_field_in_step:
  assumes "rel_sc holds sc sc'"
  shows "in_step gives_up holds (rel_sc holds)
    (print_field t put flags pad_width precision value_str sc)
    (print_field t collect flags pad_width precision value_str sc')"
  unfolding print_field_def Let_def
  by (auto intro!: in_step_check in_step_bind [OF pad_loop_in_step] in_step_bind [OF text_loop_in_step]
      simp: assms)

lemma number_prefix_in_step:
  assumes "rel_sc holds sc sc'"
  shows "in_step gives_up holds (\<lambda>(a, b, v, sc) (a', b', v', sc'). a = a' \<and> b = b' \<and> v = v' \<and> rel_sc holds sc sc')
    (number_prefix put c flags v sc) (number_prefix collect c flags v sc')"
proof -
  have "in_step gives_up holds Q (Inl (Return_EOF (fst sc))) (Inl (Return_EOF (fst sc')))" for Q :: "'x \<Rightarrow> 'y \<Rightarrow> bool"
    using assms by (intro in_step_EOF) (auto simp: rel_sc_def)
  then show ?thesis
    using assms unfolding number_prefix_def by (auto intro!: emit_then split: prod.splits)
qed

lemma number_conversion_in_step:
  assumes "rel_sc holds sc sc'"
  shows "in_step gives_up holds (rel_next holds)
    (number_conversion t put c format args flags w p sc)
    (number_conversion t collect c format args flags w p sc')"
  unfolding number_conversion_def
  by (auto intro!: in_step_check emit_then in_step_bind [OF number_prefix_in_step]
      in_step_bind [OF print_field_in_step] simp: assms Let_def)

lemma conversion_in_step:
  assumes "rel_sc holds sc sc'"
  shows "in_step gives_up holds (rel_next holds)
    (conversion t put format args sc) (conversion t collect format args sc')"
  unfolding conversion_def
  by (auto intro!: in_step_check emit_then in_step_bind [OF hex_loop_in_step]
      in_step_bind [OF print_field_in_step] number_conversion_in_step simp: assms Let_def
      split: option.split)

lemma format_loop_in_step:
  "w = put \<Longrightarrow> rel_sc holds sc sc' \<Longrightarrow> in_step gives_up holds (rel_sc holds)
    (format_loop t w format args sc) (format_loop t collect format args sc')"
proof (induction t w format args sc arbitrary: sc' rule: format_loop.induct)
  case (2 t w c format args sc)
  show ?case
  proof (cases "c = 37")
    case True
    show ?thesis
      unfolding format_loop.simps \<open>w = put\<close>
      using True 2 by (auto intro!: in_step_bind [OF conversion_in_step] simp: rel_next_def)
  next
    case False
    then show ?thesis
      using 2 by (auto intro!: emit_then)
  qed
qed simp

text \<open>
  The law of the contract: the call ends in the same way as the reference, with the sink holding
  the reference output, unless the sink has given up.
\<close>

lemma formatter_in_step:
  assumes "holds s []"
  shows "(\<exists>s'. formatter t put s (Some format) args = Inr (s', -1) \<and> gives_up s')
    \<or> (\<exists>e. formatter t put s (Some format) args = Inl e \<and> formatted t format args = Inl e)
    \<or> (\<exists>s' xs k. formatter t put s (Some format) args = Inr (s', k)
        \<and> formatted t format args = Inr (xs, k) \<and> holds s' xs \<and> (k = -1 \<or> k = int (length xs)))"
proof -
  have "rel_sc holds (s, 0) ([], 0)" using assms by (simp add: rel_sc_def)
  from format_loop_in_step [OF refl this, of t format args] show ?thesis
    unfolding formatted_def formatter_def
    by (cases "format_loop t put format args (s, 0)")
      (auto simp: in_step_def rel_sc_def split: stop.splits)
qed

end

section \<open>The reference output\<close>

interpretation collect: sink collect "\<lambda>xs ys. xs = ys" "\<lambda>_. False"
  by unfold_locales (auto simp: collect_def)

text \<open>The value returned is the number of characters, or \<open>EOF\<close>.\<close>

lemma formatted_count:
  "formatted t format args = Inr (xs, k) \<Longrightarrow> k = -1 \<or> k = int (length xs)"
  using collect.formatter_in_step [of "[]" t format args] by (auto simp: formatted_def)

end
