(* ===== verification/Printf_Number.thy ===== *)
theory Printf_Number
  imports Printf
begin

text \<open>
  The numbers \<open>printf\<close> prints: the digit buffer of 68 bytes holds the digits of the value in
  positional notation, padded with zeros to the precision, behind the sign.
\<close>

section \<open>One digit\<close>

lemma get_digit_spec:
  assumes "1 < d"
  shows "\<exists>r q. get_digit t n d = Inr (r, q)
    \<and> unat r = unat n mod unat d \<and> unat q = unat n div unat d"
proof -
  have low: "unat (ucast (n AND mask k) :: u32) = unat n mod 2 ^ k" if "k \<le> 32" for k
  proof -
    have "unat n mod 2 ^ k < 2 ^ k" by simp
    also have "\<dots> \<le> 2 ^ 32" using that by (rule power_increasing) simp
    finally show ?thesis by (simp add: unat_ucast_mod unat_and_mask)
  qed
  have m: "n AND 1 = n AND mask 1" "n AND 7 = n AND mask 3" "n AND 15 = n AND mask 4"
    by (simp_all add: mask_eq_exp_minus_1)
  consider "d = 2" | "d = 8" | "d = 16" | "d \<noteq> 2" "d \<noteq> 8" "d \<noteq> 16" by blast
  then show ?thesis
  proof cases
    case 4
    have "d \<noteq> 0" using assms by auto
    from target_div.divide_nat [OF this, of t n] 4 show ?thesis
      by (auto simp: get_digit_def)
  next
    case 1
    have "unat (ucast (n AND 1) :: u32) = unat n mod 2" using low [of 1] unfolding m(1) by simp
    with 1 show ?thesis by (simp add: get_digit_def unat_drop_bit_div del: unsigned_ucast_eq)
  next
    case 2
    have "unat (ucast (n AND 7) :: u32) = unat n mod 8" using low [of 3] unfolding m(2) by simp
    with 2 show ?thesis by (simp add: get_digit_def unat_drop_bit_div del: unsigned_ucast_eq)
  next
    case 3
    have "unat (ucast (n AND 15) :: u32) = unat n mod 16" using low [of 4] unfolding m(3) by simp
    with 3 show ?thesis by (simp add: get_digit_def unat_drop_bit_div del: unsigned_ucast_eq)
  qed
qed

lemma char_digit_char: "r < 16 \<Longrightarrow> char_digit (ucast r) hex = digit_char hex (unat r)"
  for r :: u32
proof -
  assume "r < 16"
  then have r: "unat r < 16" by (simp add: word_less_nat_alt)
  then have u: "unat (ucast r :: byte) = unat r"
    by (simp add: unat_ucast_mod del: unsigned_ucast_eq)
  show ?thesis
  proof (cases "unat r < 10")
    case True
    then have "\<not> (9 :: byte) < ucast r" by (simp add: word_less_nat_alt u del: unsigned_ucast_eq)
    then show ?thesis using True by (simp add: char_digit_def digit_char_def add.commute)
  next
    case False
    then have "(9 :: byte) < ucast r" by (simp add: word_less_nat_alt u del: unsigned_ucast_eq)
    then show ?thesis using False by (simp add: char_digit_def digit_char_def of_nat_diff add_diff_eq add.commute)
  qed
qed

lemma put_digit_spec:
  assumes "0 < i" and "i \<le> length digits"
  shows "\<exists>digits'. put_digit (digits, i) c = Inr (digits', i - 1)
    \<and> length digits' = length digits \<and> drop (i - 1) digits' = c # drop i digits"
proof -
  have "drop (i - 1) (digits[i - 1 := c]) = c # drop i digits"
    using assms Cons_nth_drop_Suc [of "i - 1" "digits[i - 1 := c]"] by simp
  then show ?thesis using assms by (simp add: put_digit_def)
qed

lemma digit_step:
  assumes "1 < base" and "base \<le> 16" and "0 < i" and "i \<le> length digits"
  shows "\<exists>r q digits'. get_digit t v base = Inr (r, q) \<and> unat q = unat v div unat base
    \<and> put_digit (digits, i) (char_digit (ucast r) hex) = Inr (digits', i - 1)
    \<and> length digits' = length digits
    \<and> drop (i - 1) digits' = digit_char hex (unat v mod unat base) # drop i digits"
proof -
  obtain r q where rq: "get_digit t v base = Inr (r, q)" "unat r = unat v mod unat base"
      "unat q = unat v div unat base"
    using get_digit_spec [OF assms(1)] by blast
  have "1 < unat base" "unat base \<le> 16"
    using assms(1,2) by (simp_all add: word_less_nat_alt word_le_nat_alt)
  then have "unat r < 16" using rq(2) by (metis mod_less_divisor order_less_le_trans zero_less_one order_less_trans)
  then have "r < 16" by (simp add: word_less_nat_alt)
  from char_digit_char [OF this, of hex] rq
    put_digit_spec [OF assms(3,4), of "char_digit (ucast r) hex"] show ?thesis
    by metis
qed

section \<open>The loops over the digits\<close>

fun low_digits :: "nat \<Rightarrow> nat \<Rightarrow> nat \<Rightarrow> nat list" where
  "low_digits b 0 n = []"
| "low_digits b (Suc k) n = low_digits b k (n div b) @ [n mod b]"

lemma low_digits_length [simp]: "length (low_digits b k n) = k"
  by (induction b k n rule: low_digits.induct) simp_all

lemma low_digits_pad:
  assumes "2 \<le> b"
  shows "digits_of b (n div b ^ k) @ low_digits b k n =
    replicate (k - length (digits_of b n)) 0 @ digits_of b n"
proof (induction k arbitrary: n)
  case (Suc k)
  have "n div b ^ Suc k = n div b div b ^ k" by (simp add: div_mult2_eq)
  then have "digits_of b (n div b ^ Suc k) @ low_digits b (Suc k) n =
      replicate (k - length (digits_of b (n div b))) 0 @ digits_of b (n div b) @ [n mod b]"
    using Suc [of "n div b"] by simp
  then show ?case
    using assms by (cases "n = 0") (simp_all add: digits_of_step [of n b] replicate_append_same)
qed simp

lemma fixed_digits_spec:
  assumes "1 < base" and "base \<le> 16"
  shows "k \<le> i \<Longrightarrow> i \<le> length digits \<Longrightarrow>
    \<exists>v' digits'. fixed_digits t base hex k v (digits, i) = Inr (v', digits', i - k)
      \<and> unat v' = unat v div unat base ^ k \<and> length digits' = length digits
      \<and> drop (i - k) digits' = map (digit_char hex) (low_digits (unat base) k (unat v)) @ drop i digits"
proof (induction k arbitrary: v digits i)
  case (Suc k)
  then have i: "0 < i" "k \<le> i - 1" "i - 1 \<le> length digits" by simp_all
  obtain r q digits1 where 1: "get_digit t v base = Inr (r, q)" "unat q = unat v div unat base"
      "put_digit (digits, i) (char_digit (ucast r) hex) = Inr (digits1, i - 1)"
      "length digits1 = length digits"
      "drop (i - 1) digits1 = digit_char hex (unat v mod unat base) # drop i digits"
    using digit_step [OF assms i(1) Suc.prems(2)] by metis
  then obtain v' digits' where 2: "fixed_digits t base hex k q (digits1, i - 1) = Inr (v', digits', i - 1 - k)"
      "unat v' = unat q div unat base ^ k" "length digits' = length digits"
      "drop (i - 1 - k) digits' = map (digit_char hex) (low_digits (unat base) k (unat q)) @ drop (i - 1) digits1"
    using Suc.IH [of "i - 1" digits1 q] i by auto
  then show ?case using 1 by (simp add: div_mult2_eq)
qed simp

lemma all_digits_spec:
  assumes "1 < base" and "base \<le> 16"
  shows "length (digits_of (unat base) (unat v)) \<le> i \<Longrightarrow> i \<le> length digits \<Longrightarrow>
    \<exists>digits' i'. all_digits t base hex v (digits, i) = Inr (digits', i')
      \<and> i' = i - length (digits_of (unat base) (unat v)) \<and> length digits' = length digits
      \<and> drop i' digits' = map (digit_char hex) (digits_of (unat base) (unat v)) @ drop i digits"
proof (induction "unat v" arbitrary: v digits i rule: less_induct)
  case less
  have b: "2 \<le> unat base" using assms(1) by (simp add: word_less_nat_alt)
  show ?case
  proof (cases "v = 0")
    case True
    then show ?thesis by (simp add: all_digits.simps)
  next
    case False
    then have v: "0 < unat v" by (simp add: unat_gt_0)
    note ds = digits_of_step [OF v b]
    have i: "0 < i" using less.prems(1) by (simp add: ds)
    obtain r q digits1 where 1: "get_digit t v base = Inr (r, q)" "unat q = unat v div unat base"
        "put_digit (digits, i) (char_digit (ucast r) hex) = Inr (digits1, i - 1)"
        "length digits1 = length digits"
        "drop (i - 1) digits1 = digit_char hex (unat v mod unat base) # drop i digits"
      using digit_step [OF assms i less.prems(2)] by metis
    have "unat q < unat v" using 1(2) v b by simp
    moreover have "length (digits_of (unat base) (unat q)) \<le> i - 1" "i - 1 \<le> length digits1"
      using less.prems 1 by (simp_all add: ds)
    ultimately obtain digits' i' where "all_digits t base hex q (digits1, i - 1) = Inr (digits', i')"
        "i' = i - 1 - length (digits_of (unat base) (unat q))" "length digits' = length digits"
        "drop i' digits' = map (digit_char hex) (digits_of (unat base) (unat q)) @ drop (i - 1) digits1"
      using less.hyps [of q "i - 1" digits1] 1(4) by metis
    then show ?thesis
      using False 1 by (simp add: all_digits.simps [of _ _ _ v] ds)
  qed
qed

section \<open>The text of a number\<close>

definition number_digits :: "nat \<Rightarrow> nat \<Rightarrow> nat \<Rightarrow> nat list" where
  "number_digits b p n =
     (if p = 0 \<and> n = 0 then [0]
      else replicate (p - length (digits_of b n)) 0 @ digits_of b n)"

lemma number_digits_length:
  assumes "2 \<le> b" and "n < 2 ^ 64"
  shows "length (number_digits b p n) \<le> max p 64"
proof -
  have "(2::nat) ^ 64 \<le> b ^ 64" using assms(1) by (rule power_mono) simp
  then have "length (digits_of b n) \<le> 64"
    using assms by (intro digits_of_length) simp_all
  then show ?thesis by (auto simp: number_digits_def)
qed

lemma magnitude_text:
  fixes v :: u64
  assumes "1 < base" and "base \<le> 16" and "unat precision \<le> 67"
  defines "ds \<equiv> number_digits (unat base) (unat precision) (unat v)"
  shows "\<exists>digits. bind_res (fixed_digits t base hex (unat precision) v ((replicate 68 0)[67 := 0], 67)) (\<lambda>(v, buf).
        bind_res (if precision = 0 \<and> v = 0 then put_digit buf 48 else Inr buf) (\<lambda>buf.
          all_digits t base hex v buf)) = Inr (digits, 67 - length ds)
      \<and> length digits = 68 \<and> drop (67 - length ds) digits = map (digit_char hex) ds @ [0]"
proof -
  let ?p = "unat precision" and ?b = "unat base"
  have b: "2 \<le> ?b" using assms(1) by (simp add: word_less_nat_alt)
  obtain v1 digits1 where 1: "fixed_digits t base hex ?p v ((replicate 68 0)[67 := 0], 67) = Inr (v1, digits1, 67 - ?p)"
      "unat v1 = unat v div ?b ^ ?p" "length digits1 = 68"
      "drop (67 - ?p) digits1 = map (digit_char hex) (low_digits ?b ?p (unat v)) @ [0]"
    using fixed_digits_spec [OF assms(1,2), of ?p 67 "(replicate 68 0)[67 := 0]" t hex v] assms(3)
    by (auto simp: drop_Suc numeral_nat)
  show ?thesis
  proof (cases "?p = 0 \<and> unat v = 0")
    case True
    then have z: "precision = 0" "v1 = 0" "?p = 0" using 1(2) by (simp_all add: unat_eq_zero)
    obtain digits2 where "put_digit (digits1, 67) 48 = Inr (digits2, 66)" "length digits2 = 68"
        "drop 66 digits2 = 48 # drop 67 digits1"
      using put_digit_spec [of 67 digits1 48] 1(3) by auto
    then show ?thesis
      using 1 z True
      by (simp add: ds_def number_digits_def all_digits.simps digit_char_def)
  next
    case False
    then have nz: "\<not> (precision = 0 \<and> v1 = 0)" using 1(2) by (auto simp: unat_eq_zero)
    have ds: "digits_of ?b (unat v1) @ low_digits ?b ?p (unat v) = ds"
      using False low_digits_pad [OF b, of "unat v" ?p] 1(2) by (simp add: ds_def number_digits_def)
    then have len: "length ds = length (digits_of ?b (unat v1)) + ?p" by (metis length_append low_digits_length)
    have "unat v < 2 ^ 64" using unat_less_exp [of v] by simp
    then have "length ds \<le> 67" using number_digits_length [OF b, of "unat v" ?p] assms(3) by (simp add: ds_def)
    then have room: "length (digits_of ?b (unat v1)) \<le> 67 - ?p" "67 - ?p \<le> 68"
        "67 - ?p - length (digits_of ?b (unat v1)) = 67 - length ds"
      using len by simp_all
    obtain digits' where "all_digits t base hex v1 (digits1, 67 - ?p) = Inr (digits', 67 - length ds)"
        "length digits' = 68"
        "drop (67 - length ds) digits' =
          map (digit_char hex) (digits_of ?b (unat v1)) @ drop (67 - ?p) digits1"
      using all_digits_spec [OF assms(1,2), of v1 "67 - ?p" digits1 t hex] 1(3) len room by auto
    then show ?thesis using 1 nz ds [symmetric] by (auto simp: Let_def)
  qed
qed

lemma number_text_split:
  "number_text t sign precision base hex v =
    bind_res (bind_res (fixed_digits t base hex (unat precision) v ((replicate 68 0)[67 := 0], 67)) (\<lambda>(v, buf).
        bind_res (if precision = 0 \<and> v = 0 then put_digit buf 48 else Inr buf) (\<lambda>buf.
          all_digits t base hex v buf)))
      (\<lambda>buf. bind_res (if sign \<noteq> 0 then put_digit buf sign else Inr buf)
        (\<lambda>(digits, value_str). Inr (drop value_str digits)))"
  unfolding number_text_def Let_def bind_res_assoc
  by (intro arg_cong [of _ _ "bind_res _"] ext) (simp add: split_beta bind_res_assoc)

lemma number_text_spec:
  assumes "1 < base" and "base \<le> 16" and "unat precision + (if sign = 0 then 0 else 1) \<le> 67"
  shows "number_text t sign precision base hex v =
    Inr ((if sign = 0 then [] else [sign])
      @ map (digit_char hex) (number_digits (unat base) (unat precision) (unat v)) @ [0])"
proof -
  let ?ds = "number_digits (unat base) (unat precision) (unat v)"
  have b: "2 \<le> unat base" using assms(1) by (simp add: word_less_nat_alt)
  have p: "unat precision \<le> 67" using assms(3) by simp
  have "unat v < 2 ^ 64" using unat_less_exp [of v] by simp
  then have len: "length ?ds + (if sign = 0 then 0 else 1) \<le> 67"
    using number_digits_length [OF b, of "unat v" "unat precision"] assms(3) by (auto split: if_splits)
  obtain digits where d: "bind_res (fixed_digits t base hex (unat precision) v ((replicate 68 0)[67 := 0], 67)) (\<lambda>(v, buf).
        bind_res (if precision = 0 \<and> v = 0 then put_digit buf 48 else Inr buf) (\<lambda>buf.
          all_digits t base hex v buf)) = Inr (digits, 67 - length ?ds)"
      "length digits = 68" "drop (67 - length ?ds) digits = map (digit_char hex) ?ds @ [0]"
    using magnitude_text [OF assms(1,2) p] by blast
  show ?thesis
  proof (cases "sign = 0")
    case True
    then show ?thesis unfolding number_text_split d(1) by (simp add: d(3))
  next
    case False
    with len have "0 < 67 - length ?ds" "67 - length ?ds \<le> length digits"
      using d(2) by simp_all
    then obtain digits' where "put_digit (digits, 67 - length ?ds) sign = Inr (digits', 67 - length ?ds - 1)"
        "drop (67 - length ?ds - 1) digits' = sign # map (digit_char hex) ?ds @ [0]"
      using put_digit_spec [of "67 - length ?ds" digits sign] d(3) by metis
    then show ?thesis using False unfolding number_text_split d(1) by simp
  qed
qed

text \<open>
  The text of a number is its sign and its digits in the base, padded with zeros to the
  precision, for every 64-bit value, every base of the formatter and every precision the buffer
  has room for; the buffer is never written in front of its start.
\<close>

theorem number_text_correct:
  assumes "1 < base" and "base \<le> 16" and "unat precision + (if sign = 0 then 0 else 1) \<le> 67"
  shows "number_text t sign precision base hex v =
    Inr ((if sign = 0 then [] else [sign])
      @ map (digit_char hex) (number_digits (unat base) (unat precision) (unat v)) @ [0])"
  using assms by (rule number_text_spec)

lemma number_text_correct_witness:
  "number_text x86_64_target 45 3 16 65 0xbe = Inr [45, 48, 66, 69, 0]"
proof -
  have "number_digits 16 3 190 = [0, 11, 14]" by code_simp
  then show ?thesis
    using number_text_correct [of 16 3 45 x86_64_target 65 "0xbe"] by (simp add: digit_char_def)
qed

text \<open>With the largest precision accepted and a sign, the sign is stored in front of the buffer.\<close>

lemma number_text_overruns:
  assumes "1 < base" and "base \<le> 16" and "unat precision = 67" and "sign \<noteq> 0"
  shows "number_text t sign precision base hex v = Inl Buffer_Overrun"
proof -
  let ?ds = "number_digits (unat base) (unat precision) (unat v)"
  have b: "2 \<le> unat base" using assms(1) by (simp add: word_less_nat_alt)
  have "unat v < 2 ^ 64" using unat_less_exp [of v] by simp
  then have "length ?ds \<le> 67" using number_digits_length [OF b, of "unat v" "unat precision"] assms(3) by simp
  moreover have "67 \<le> length ?ds" using assms(3) by (simp add: number_digits_def)
  ultimately have len: "length ?ds = 67" by simp
  have p: "unat precision \<le> 67" using assms(3) by simp
  obtain digits where d: "bind_res (fixed_digits t base hex (unat precision) v ((replicate 68 0)[67 := 0], 67)) (\<lambda>(v, buf).
        bind_res (if precision = 0 \<and> v = 0 then put_digit buf 48 else Inr buf) (\<lambda>buf.
          all_digits t base hex v buf)) = Inr (digits, 67 - length ?ds)"
    using magnitude_text [OF assms(1,2) p, of t hex v] by blast
  then show ?thesis
    using assms(4) unfolding number_text_split d by (simp add: len put_digit_def)
qed

end
