(* ===== verification/Printf_Spec.thy ===== *)
theory Printf_Spec
  imports Printf_Sink Printf_Number
begin

text \<open>
  What the formatter prints: a field is the text cut at the precision and padded to the width, a
  \<open>%d\<close> is the decimal notation of its argument; and what it reads: never more than its strings.
\<close>

section \<open>Fields\<close>

lemma word_of_char_val [simp]: "word_of_int (char_val t c) = c"
  by (simp add: char_val_def)

lemma emit_collect:
  "0 \<le> k \<Longrightarrow> k + 1 < 2 ^ 31 \<Longrightarrow> emit collect c (xs, k) = Inr (xs @ [word_of_int c], k + 1)"
  by (simp add: emit_def collect_def int32_def)

lemma pad_loop_collect:
  assumes "0 \<le> k" and "k + int (unat w - unat n) < 2 ^ 31"
  shows "pad_loop collect c n w (xs, k) =
    Inr (max n (ucast w), xs @ replicate (unat w - unat n) (word_of_int c), k + int (unat w - unat n))"
  using assms
proof (induction "unat w - unat n" arbitrary: n xs k)
  case 0
  have u: "unat (ucast w :: u64) = unat w" by (simp add: unat_ucast_up)
  with 0 have "ucast w \<le> n" by (simp add: word_le_nat_alt del: unsigned_ucast_eq)
  then have "\<not> n < ucast w" "max n (ucast w) = n" by (simp_all add: max_absorb1)
  then show ?case using 0 by (simp add: pad_loop.simps)
next
  case (Suc d)
  have u: "unat (ucast w :: u64) = unat w" by (simp add: unat_ucast_up)
  then have less: "n < ucast w" using Suc.hyps(2)
    by (simp add: word_less_nat_alt del: unsigned_ucast_eq)
  then have n1: "unat (n + 1) = Suc (unat n)" by (rule unat_Suc_less)
  then have d: "d = unat w - unat (n + 1)" using Suc.hyps(2) by simp
  have "max (n + 1) (ucast w) = max n (ucast w)"
    using less n1 u by (simp add: max_def word_le_nat_alt word_less_nat_alt del: unsigned_ucast_eq)
  have k1: "k + 1 + int (unat w - unat (n + 1)) < 2 ^ 31" "0 \<le> k + 1"
    using Suc.prems Suc.hyps(2) d by linarith+
  with \<open>max (n + 1) (ucast w) = max n (ucast w)\<close>
  have "pad_loop collect c (n + 1) w (xs @ [word_of_int c], k + 1) =
      Inr (max n (ucast w), (xs @ [word_of_int c]) @ replicate d (word_of_int c), k + 1 + int d)"
    using Suc.hyps(1) [OF d k1(2,1), of "xs @ [word_of_int c]"] unfolding d by (simp only:)
  then have rec: "pad_loop collect c (n + 1) w (xs @ [word_of_int c], k + 1) =
      Inr (max n (ucast w), xs @ replicate (Suc d) (word_of_int c), k + int (Suc d))"
    by simp
  have "0 \<le> k" "k + 1 < 2 ^ 31" using k1 Suc.prems(1) by linarith+
  from emit_collect [OF this] have "pad_loop collect c n w (xs, k) =
      pad_loop collect c (n + 1) w (xs @ [word_of_int c], k + 1)"
    using less by (subst pad_loop.simps) simp
  then show ?case unfolding rec Suc.hyps(2) .
qed

lemma text_loop_collect:
  assumes "terminated s" and "0 \<le> k" and "k + int (min (unat p) (length (chars_of s))) < 2 ^ 31"
  shows "text_loop t collect s p (xs, k) =
    Inr (xs @ take (unat p) (chars_of s), k + int (min (unat p) (length (chars_of s))))"
  using assms
proof (induction s arbitrary: p xs k)
  case (Cons c s)
  show ?case
  proof (cases "c \<noteq> 0 \<and> p \<noteq> 0")
    case True
    then have p: "0 < unat p" by (simp add: unat_gt_0)
    then have p1: "unat (p - 1) = unat p - 1" by (simp add: unat_sub_fits)
    obtain j where j: "unat p = Suc j" using p by (cases "unat p") simp_all
    show ?thesis
      using Cons.IH [of "k + 1" "p - 1" "xs @ [c]"] Cons.prems True p1 j emit_collect [of k "char_val t c" xs]
      by simp
  next
    case False
    then show ?thesis by auto
  qed
qed simp

lemma object_strlen_spec:
  "terminated s \<Longrightarrow> object_strlen s n = Inr (n + of_nat (length (chars_of s)))"
  by (induction s arbitrary: n) auto

lemma chars_of_length: "length (chars_of s) \<le> length s"
  by (simp add: chars_of_def length_takeWhile_le)

text \<open>The shape of a field.\<close>

definition field_text :: "fmt_flags \<Rightarrow> nat \<Rightarrow> nat \<Rightarrow> byte list \<Rightarrow> byte list" where
  "field_text flags width precision text =
     (let shown = (if precision = 0 then text else take precision text);
          padding = width - length shown
      in if left flags then shown @ replicate padding 32
         else replicate padding (if pad_zero flags then 48 else 32) @ shown)"

lemma print_field_spec:
  fixes precision :: u32
  assumes "terminated value_str" and "length value_str < 2 ^ 31"
    and "0 \<le> k" and "k + int (max (unat width) (length (chars_of value_str))) < 2 ^ 31"
  shows "print_field t collect flags width precision value_str (xs, k) =
    Inr (xs @ field_text flags (unat width) (unat precision) (chars_of value_str),
      k + int (length (field_text flags (unat width) (unat precision) (chars_of value_str))))"
proof -
  let ?cs = "chars_of value_str" and ?p = "unat precision"
  define shown where "shown = (if ?p = 0 then ?cs else take ?p ?cs)"
  define value_len where "value_len = (if precision \<noteq> 0 \<and> of_nat (length ?cs) > (ucast precision :: u64)
    then ucast precision else of_nat (length ?cs) :: u64)"
  define p' where "p' = (if precision = 0 then if value_len > ucast width then ucast value_len else width
    else precision)"
  have cs: "length ?cs < 2 ^ 31" using assms(2) chars_of_length [of value_str] by linarith
  then have n: "unat (of_nat (length ?cs) :: u64) = length ?cs" by (simp add: unat_of_nat_eq)
  have up: "unat (ucast v :: u64) = unat v" for v :: u32 by (simp add: unat_ucast_up)
  have z: "precision = 0 \<longleftrightarrow> ?p = 0" by (simp add: unat_eq_zero)
  have len: "unat value_len = length shown"
    by (simp add: value_len_def shown_def word_less_nat_alt n up z del: unsigned_ucast_eq)
  have small: "length shown < 2 ^ 31" using cs by (simp add: shown_def min.strict_coboundedI1)
  then have low: "unat (ucast value_len :: u32) = length shown"
    by (simp add: unat_ucast_mod len del: unsigned_ucast_eq)
  have p': "take (unat p') ?cs = shown" and m: "min (unat p') (length ?cs) = length shown"
    using len low by (auto simp: p'_def shown_def word_less_nat_alt up z min_def simp del: unsigned_ucast_eq)
  have le: "length shown \<le> length ?cs" by (simp add: shown_def)
  let ?pad = "unat width - length shown"
  have k: "k + int ?pad < 2 ^ 31" "k + int (length shown) < 2 ^ 31"
      "k + int ?pad + int (length shown) < 2 ^ 31" "k + int (length shown) + int ?pad < 2 ^ 31"
    using assms(3,4) le by linarith+
  have pads: "pad_loop collect c value_len width (ys, j) =
      Inr (max value_len (ucast width), ys @ replicate ?pad (word_of_int c), j + int ?pad)"
    if "0 \<le> j" "j + int ?pad < 2 ^ 31" for c ys j
    using pad_loop_collect [of j width value_len c ys] that unfolding len by simp
  have body: "text_loop t collect value_str p' (ys, j) = Inr (ys @ shown, j + int (length shown))"
    if "0 \<le> j" "j + int (length shown) < 2 ^ 31" for ys j
    using text_loop_collect [OF assms(1), of j p' t ys] that unfolding m p' by simp
  have "print_field t collect flags width precision value_str (xs, k) =
    bind_run (if \<not> left flags then pad_loop collect (if pad_zero flags then 48 else 32) value_len width (xs, k)
        else Inr (value_len, xs, k)) (\<lambda>(value_len, sc).
     bind_run (text_loop t collect value_str p' sc) (\<lambda>sc.
     bind_run (if left flags then pad_loop collect 32 value_len width sc else Inr (value_len, sc))
       (\<lambda>(value_len, sc). Inr sc)))"
    by (simp add: print_field_def object_strlen_spec [OF assms(1)] value_len_def p'_def Let_def)
  also have "\<dots> = Inr (xs @ (if left flags then shown @ replicate ?pad 32
        else replicate ?pad (if pad_zero flags then 48 else 32) @ shown),
      k + int ?pad + int (length shown))"
    using assms(3) k by (simp add: pads body)
  finally show ?thesis
    by (simp add: field_text_def Let_def shown_def [symmetric] algebra_simps)
qed

text \<open>
  A field is its text, cut at the precision when there is one, padded on the left with blanks
  or zeros or on the right with blanks to the width; the counter grows by the length of the field.
\<close>

theorem print_field_prints:
  fixes precision :: u32
  assumes "terminated value_str" and "length value_str < 2 ^ 31"
    and "0 \<le> k" and "k + int (max (unat width) (length (chars_of value_str))) < 2 ^ 31"
  shows "print_field t collect flags width precision value_str (xs, k) =
    Inr (xs @ field_text flags (unat width) (unat precision) (chars_of value_str),
      k + int (length (field_text flags (unat width) (unat precision) (chars_of value_str))))"
  using assms by (rule print_field_spec)

lemma print_field_prints_witness:
  "print_field x86_64_target collect no_flags 5 0 [104, 105, 0] ([], 0) = Inr ([32, 32, 32, 104, 105], 5)"
proof -
  have "field_text no_flags 5 0 [104, 105] = [32, 32, 32, 104, 105]" by code_simp
  then show ?thesis
    using print_field_prints [of "[104, 105, 0]" 0 5 x86_64_target no_flags 0 "[]"] by simp
qed

section \<open>Decimal numbers\<close>

lemma sint_u32: "sint w = (if uint w < 2 ^ 31 then uint w else uint w - 2 ^ 32)"
  for w :: u32
proof -
  have u: "0 \<le> uint w" "uint w < 2 ^ 32" using uint_bounded [of w] by simp_all
  have "sint w = (uint w + 2 ^ 31) mod 2 ^ 32 - 2 ^ 31"
    by (subst sint_uint, subst signed_take_bit_eq_take_bit_shift) (simp add: take_bit_eq_mod)
  moreover have "(uint w + 2 ^ 31) mod 2 ^ 32 =
      (if uint w < 2 ^ 31 then uint w + 2 ^ 31 else uint w - 2 ^ 31)"
    using u by (simp add: mod_pos_geq)
  ultimately show ?thesis by simp
qed

lemma unat_word_of_int: "0 \<le> j \<Longrightarrow> j < 2 ^ 64 \<Longrightarrow> unat (word_of_int j :: u64) = nat j"
  by (simp add: unsigned_of_int take_bit_int_eq_self)

lemma signed_value_32:
  fixes w :: u32
  assumes "\<not> bit64 flags" and "\<not> bit16 flags" and "\<not> bit8 flags"
  shows "\<exists>v. signed_value flags (ucast w) =
      (if sint w < 0 then 45 else if add_sign flags then 43 else if space flags then 32 else 0, v)
    \<and> unat v = nat \<bar>sint w\<bar>"
proof -
  have u: "0 \<le> uint w" "uint w < 2 ^ 32" using uint_bounded [of w] by simp_all
  have down: "ucast (ucast w :: u64) = w" by (simp add: ucast_up_ucast_id is_up)
  have up: "unat (ucast w :: u64) = nat (uint w)" by (simp add: unat_ucast_up)
  show ?thesis
  proof (cases "sint w < 0")
    case True
    then have hi: "\<not> uint w < 2 ^ 31" "sint w = uint w - 2 ^ 32"
      using u by (simp_all add: sint_u32 split: if_splits)
    show ?thesis
    proof (cases "(ucast w :: u64) = push_bit 31 1")
      case eq: True
      then have "unat (ucast w :: u64) = 2 ^ 31" by simp
      then have "uint w = 2 ^ 31" unfolding up using u by (metis nat_0_le of_nat_numeral of_nat_power)
      then show ?thesis using True hi eq assms up
        by (simp add: signed_value_def Let_def down del: unsigned_ucast_eq)
    next
      case False
      have "unat (word_of_int (- sint w) :: u64) = nat (- sint w)"
        using hi u by (intro unat_word_of_int) simp_all
      then show ?thesis using True False assms
        by (simp add: signed_value_def Let_def down)
    qed
  next
    case False
    then have "sint w = uint w" using u by (simp add: sint_u32 split: if_splits)
    then show ?thesis using False assms up
      by (simp add: signed_value_def Let_def down del: unsigned_ucast_eq)
  qed
qed

text \<open>The decimal notation of an integer.\<close>

definition decimal :: "int \<Rightarrow> byte list" where
  "decimal z = (if z < 0 then [45] else []) @ map (digit_char 97) (number_digits 10 0 (nat \<bar>z\<bar>))"

lemma digit_char_nonzero: "d < 10 \<Longrightarrow> digit_char a d \<noteq> 0 \<and> unat (digit_char a d) = 48 + d"
proof -
  assume d: "d < 10"
  then have "unat (of_nat d :: byte) = d" by (simp add: unat_of_nat_eq)
  then have "unat (48 + of_nat d :: byte) = 48 + d" using d by (simp add: unat_add_fits)
  then show ?thesis using d by (auto simp: digit_char_def)
qed

lemma number_digits_decimal: "\<forall>d \<in> set (number_digits 10 p n). d < 10"
  using digits_of_less [of 10 n] by (auto simp: number_digits_def)

lemma decimal_no_nul: "0 \<notin> set (decimal z)"
  using digit_char_nonzero number_digits_decimal [of 0 "nat \<bar>z\<bar>"] by (auto simp: decimal_def)

lemma decimal_length: "\<bar>z\<bar> < 10 ^ 10 \<Longrightarrow> length (decimal z) \<le> 11"
proof -
  assume "\<bar>z\<bar> < 10 ^ 10"
  then have "nat \<bar>z\<bar> < nat (10 ^ 10)" by (subst nat_less_eq_zless) simp_all
  then have "nat \<bar>z\<bar> < 10 ^ 10" by (simp only: nat_power_eq nat_numeral zero_le_numeral)
  then have d: "length (digits_of 10 (nat \<bar>z\<bar>)) \<le> 10" by (intro digits_of_length) simp_all
  have "length (number_digits 10 0 n) \<le> 10" if "length (digits_of 10 n) \<le> 10" for n
    using that by (simp add: number_digits_def)
  from this [OF d] show ?thesis by (cases "z < 0") (simp_all add: decimal_def)
qed

lemma format_loop_literal:
  assumes "0 \<notin> set pre" and "37 \<notin> set pre" and "0 \<le> k" and "k + int (length pre) < 2 ^ 31"
  shows "format_loop t collect (pre @ f) args (xs, k) =
    format_loop t collect f args (xs @ pre, k + int (length pre))"
  using assms
proof (induction pre arbitrary: xs k)
  case (Cons c pre)
  then show ?case using emit_collect [of k "char_val t c" xs] by (simp add: add.assoc)
qed simp

lemma read_flags_none: "set_flag c flags = None \<Longrightarrow> read_flags c f flags = Inr (c, f, flags)"
  by (cases f) simp_all

lemma read_number_none: "\<not> is_digit c \<Longrightarrow> read_number t c f n = Inr (c, f, n)"
  by (cases f) (simp_all add: isdigit_char)

lemma conversion_d:
  assumes "0 \<le> k" and "k + 11 < 2 ^ 31"
  shows "conversion t collect (100 # f) (Arg32 w # args) (xs, k) =
    Inr (f, args, xs @ decimal (sint w), k + int (length (decimal (sint w))))"
proof -
  let ?z = "sint w"
  have z: "\<bar>?z\<bar> < 10 ^ 10"
    using uint_bounded [of w] by (simp add: sint_u32)
  obtain v where v: "signed_value no_flags (ucast w) = (if ?z < 0 then 45 else 0, v)" "unat v = nat \<bar>?z\<bar>"
    using signed_value_32 [of no_flags w] by (auto simp: no_flags_def)
  define sign :: byte where "sign = (if ?z < 0 then 45 else 0)"
  have digits: "number_text t sign 0 10 97 v = Inr (decimal ?z @ [0])"
    using number_text_spec [of 10 0 sign t 97 v] v(2) by (simp add: decimal_def sign_def)
  have chars: "chars_of (decimal ?z @ [0]) = decimal ?z"
    by (rule chars_of_append [OF decimal_no_nul])
  have "print_field t collect no_flags 0 0 (decimal ?z @ [0]) (xs, k) =
      Inr (xs @ decimal ?z, k + int (length (decimal ?z)))"
    using print_field_spec [of "decimal ?z @ [0]" k 0 t no_flags 0 xs] assms decimal_length [OF z]
    unfolding chars by (simp add: field_text_def Let_def no_flags_def)
  then show ?thesis
    using v digits
    by (simp add: conversion_def read_flags_none set_flag_def read_field_def read_number_none read_precision_def isdigit_char
        is_digit_def number_conversion_def read_length_def load_value_def va_u32_def
        number_prefix_def sign_def Let_def MAX_FORMAT_def no_flags_def)
qed

lemma formatted_d:
  assumes "0 \<notin> set pre" and "37 \<notin> set pre" and "0 \<notin> set post" and "37 \<notin> set post"
    and "length pre + length post + 11 < 2 ^ 31"
  shows "formatted t (pre @ [37, 100] @ post @ [0]) [Arg32 w] =
    Inr (pre @ decimal (sint w) @ post, int (length (pre @ decimal (sint w) @ post)))"
proof -
  let ?d = "decimal (sint w)"
  have "\<bar>sint w\<bar> < 10 ^ 10" using uint_bounded [of w] by (simp add: sint_u32)
  then have d: "length ?d \<le> 11" by (rule decimal_length)
  have "format_loop t collect (pre @ [37, 100] @ post @ [0]) [Arg32 w] ([], 0) =
      format_loop t collect (post @ [0]) [] (pre @ ?d, int (length pre) + int (length ?d))"
    using assms(5) conversion_d [of "int (length pre)" t "post @ [0]" w "[]" pre]
    by (subst format_loop_literal [OF assms(1,2)]) simp_all
  also have "\<dots> = Inr (pre @ ?d @ post, int (length (pre @ ?d @ post)))"
    using assms(5) d by (subst format_loop_literal [OF assms(3,4)]) (simp_all add: add.assoc)
  finally show ?thesis by (simp add: formatted_def formatter_def)
qed

text \<open>
  \<open>%d\<close> prints the decimal notation of its \<open>int\<close> argument, \<open>INT_MIN\<close> included, in place, between
  the unchanged text before and behind it.
\<close>

theorem formatted_decimal:
  assumes "0 \<notin> set pre" and "37 \<notin> set pre" and "0 \<notin> set post" and "37 \<notin> set post"
    and "length pre + length post + 11 < 2 ^ 31"
  shows "formatted t (pre @ [37, 100] @ post @ [0]) [Arg32 w] =
    Inr (pre @ decimal (sint w) @ post, int (length (pre @ decimal (sint w) @ post)))"
  using assms by (rule formatted_d)

lemma formatted_decimal_witness:
  "formatted x86_64_target [120, 61, 37, 100, 59, 0] [Arg32 (- 5)] = Inr ([120, 61, 45, 53, 59], 5)"
proof -
  have "decimal (- 5) = [45, 53]" by code_simp
  then show ?thesis
    using formatted_decimal [of "[120, 61]" "[59]" x86_64_target "- 5"] by simp
qed

end
