(* ===== verification/Printf_Safety.thy ===== *)
theory Printf_Safety
  imports Printf_Spec
begin

text \<open>
  What the formatter reads and writes of its own memory: it never reads behind the terminator of
  its format or of a string argument, whatever the sink does, and the digit buffer overruns for
  exactly one precision.
\<close>

section \<open>Runs that do not read past an end\<close>

definition safe_res :: "('a \<Rightarrow> bool) \<Rightarrow> 'a res \<Rightarrow> bool" where
  "safe_res Q r = (case r of Inl e \<Rightarrow> e \<noteq> Read_Past_End | Inr x \<Rightarrow> Q x)"

definition safe_run :: "('a \<Rightarrow> bool) \<Rightarrow> 's stop + 'a \<Rightarrow> bool" where
  "safe_run Q m = (case m of
     Inr x \<Rightarrow> Q x
   | Inl (Fault e) \<Rightarrow> e \<noteq> Read_Past_End
   | Inl (Return_EOF s) \<Rightarrow> True)"

lemma safe_res_simps [simp]:
  "safe_res Q (Inr x) = Q x"
  "safe_res Q (Inl e) = (e \<noteq> Read_Past_End)"
  by (simp_all add: safe_res_def)

lemma safe_run_simps [simp]:
  "safe_run Q (Inr x) = Q x"
  "safe_run Q (Inl (Fault e)) = (e \<noteq> Read_Past_End)"
  "safe_run Q (Inl (Return_EOF s))"
  by (simp_all add: safe_run_def)

lemma safe_bind_res:
  "safe_res P r \<Longrightarrow> (\<And>x. P x \<Longrightarrow> safe_res Q (f x)) \<Longrightarrow> safe_res Q (bind_res r f)"
  by (cases r) simp_all

lemma safe_bind:
  "safe_run P m \<Longrightarrow> (\<And>x. m = Inr x \<Longrightarrow> P x \<Longrightarrow> safe_run Q (f x)) \<Longrightarrow> safe_run Q (bind_run m f)"
  by (cases m) (auto simp: safe_run_def split: stop.splits)

lemma safe_check:
  "safe_res P r \<Longrightarrow> (\<And>x. P x \<Longrightarrow> safe_run Q (f x)) \<Longrightarrow> safe_run Q (bind_run (check r) f)"
  by (cases r) simp_all

lemma safe_emit:
  "(\<And>x. emit put c sc = Inr x \<Longrightarrow> safe_run Q (f x)) \<Longrightarrow> safe_run Q (bind_run (emit put c sc) f)"
  by (cases sc) (auto simp: emit_def int32_def split: prod.split)

section \<open>Reading the format\<close>

text \<open>
  The position in the format: the last character read and what follows it, which is still
  terminated unless that character was the terminator; both are in the format \<open>F\<close>.
\<close>

definition within :: "byte set \<Rightarrow> byte \<times> byte list \<Rightarrow> bool" where
  "within F = (\<lambda>(c, f). (c = 0 \<or> terminated f) \<and> insert c (set f) \<subseteq> F)"

lemma within_simp: "within F (c, f) \<longleftrightarrow> (c = 0 \<or> terminated f) \<and> c \<in> F \<and> set f \<subseteq> F"
  by (auto simp: within_def)

lemma safe_next_char: "terminated f \<Longrightarrow> set f \<subseteq> F \<Longrightarrow> safe_res (within F) (next_char f)"
  by (cases f) (auto simp: within_def)

lemma set_flag_zero [simp]: "set_flag 0 flags = None"
  by (simp add: set_flag_def)

lemma safe_read_flags:
  "within F (c, f) \<Longrightarrow> safe_res (\<lambda>(c, f, _). within F (c, f)) (read_flags c f flags)"
  by (induction c f flags rule: read_flags.induct) (auto simp: within_simp split: option.split)

lemma safe_read_number:
  "within F (c, f) \<Longrightarrow> safe_res (\<lambda>(c, f, _). within F (c, f)) (read_number t c f n)"
proof (induction t c f n rule: read_number.induct)
  case (1 t c n)
  have "\<not> is_digit 0" by (simp add: is_digit_def)
  with 1 show ?case by (auto simp: within_simp isdigit_char)
next
  case (2 t c d f n)
  have "\<not> is_digit 0" by (simp add: is_digit_def)
  with 2 show ?case by (auto simp: within_simp isdigit_char)
qed

lemma safe_va:
  assumes "set args \<subseteq> A"
  shows "safe_res (\<lambda>(_, a). set a \<subseteq> A) (va_int args)"
    and "safe_res (\<lambda>(_, a). set a \<subseteq> A) (va_u32 args)"
    and "safe_res (\<lambda>(_, a). set a \<subseteq> A) (va_u64 args)"
    and "safe_res (\<lambda>(p, a). ArgPtr p \<in> A \<and> set a \<subseteq> A) (va_ptr args)"
  using assms
  by (auto simp: va_int_def va_u32_def va_u64_def va_ptr_def split: list.split vararg.split)

definition within_args ::
  "byte set \<Rightarrow> vararg set \<Rightarrow> byte \<times> byte list \<times> vararg list \<times> u32 \<Rightarrow> bool" where
  "within_args F A = (\<lambda>(c, f, a, _). within F (c, f) \<and> set a \<subseteq> A)"

lemma within_args_simp [simp]:
  "within_args F A (c, f, a, n) \<longleftrightarrow> within F (c, f) \<and> set a \<subseteq> A"
  by (simp add: within_args_def)

lemma safe_read_field:
  assumes "within F (c, f)" and "set args \<subseteq> A"
  shows "safe_res (within_args F A) (read_field t c f args)"
proof (cases "c = 42")
  case True
  then have f: "terminated f" "set f \<subseteq> F" using assms by (auto simp: within_simp)
  show ?thesis
    unfolding read_field_def if_P [OF True]
    by (auto intro!: safe_bind_res [OF safe_va(1) [OF assms(2)]] safe_bind_res [OF safe_next_char [OF f]])
next
  case False
  then show ?thesis
    unfolding read_field_def if_not_P [OF False]
    by (intro safe_bind_res [OF safe_read_number [OF assms(1)]]) (auto simp: assms(2))
qed

lemma safe_read_precision:
  assumes "within F (c, f)" and "set args \<subseteq> A"
  shows "safe_res (within_args F A) (read_precision t c f args)"
proof (cases "c = 46")
  case True
  then have f: "terminated f" "set f \<subseteq> F" using assms by (auto simp: within_simp)
  show ?thesis
    unfolding read_precision_def if_P [OF True]
    by (rule safe_bind_res [OF safe_next_char [OF f]]) (auto intro: safe_read_field [OF _ assms(2)])
qed (simp add: read_precision_def assms)

lemma safe_read_length:
  assumes "within F (c, f)"
  shows "safe_res (\<lambda>(c, f, _). within F (c, f)) (read_length c f flags)"
proof (cases "c = 0")
  case False
  then have f: "terminated f" "set f \<subseteq> F" using assms by (auto simp: within_simp)
  show ?thesis
    using assms unfolding read_length_def
    by (auto intro!: safe_bind_res [OF safe_next_char [of _ F]] intro: subsetD [OF f(2)]
        simp: f(1) within_simp)
qed (use assms in \<open>simp add: read_length_def\<close>)

lemma safe_load_value:
  assumes "set args \<subseteq> A"
  shows "safe_res (\<lambda>(_, a). set a \<subseteq> A) (load_value flags args)"
  unfolding load_value_def
  by (auto intro!: safe_va [OF assms] safe_bind_res [OF safe_va(2) [OF assms]] simp: Let_def)

section \<open>Output\<close>

lemma safe_pad_loop: "safe_run (\<lambda>_. True) (pad_loop put c n w sc)"
proof (induction put c n w sc rule: pad_loop.induct)
  case (1 put c n w sc)
  show ?case
  proof (cases "n < ucast w")
    case True
    show ?thesis
    proof (cases "emit put c sc")
      case (Inl st)
      then show ?thesis using True safe_emit [of put c sc "\<lambda>_. True" Inr]
        by (cases st) (simp_all add: pad_loop.simps [of _ _ n])
    next
      case (Inr sc')
      then show ?thesis using True 1 [OF True] by (simp add: pad_loop.simps [of _ _ n])
    qed
  qed (simp add: pad_loop.simps)
qed

lemma safe_text_loop: "terminated s \<Longrightarrow> safe_run (\<lambda>_. True) (text_loop t put s p sc)"
  by (induction s arbitrary: p sc) (auto intro!: safe_emit)

lemma safe_hex_loop: "unat p \<le> length s \<Longrightarrow> safe_run (\<lambda>_. True) (hex_loop t put s p sc)"
proof (induction s arbitrary: p sc)
  case (Cons c s)
  show ?case
  proof (cases "p = 0")
    case False
    then have "unat (p - 1) = unat p - 1" by (simp add: unat_sub_fits unat_gt_0 Suc_leI)
    then show ?thesis using Cons False by (auto intro!: safe_emit)
  qed simp
qed (simp add: unat_eq_zero)

lemma safe_print_field:
  "terminated s \<Longrightarrow> safe_run (\<lambda>_. True) (print_field t put flags w p s sc)"
  unfolding print_field_def Let_def
  by (auto simp: object_strlen_spec intro!: safe_bind [OF safe_pad_loop] safe_bind [OF safe_text_loop])

lemma safe_number_text:
  assumes "1 < base" and "base \<le> 16" and "\<not> precision > 67"
  shows "safe_res terminated (number_text t sign precision base hex v)"
proof -
  have p: "unat precision \<le> 67" using assms(3) by (simp add: word_less_nat_alt not_less)
  show ?thesis
  proof (cases "unat precision = 67 \<and> sign \<noteq> 0")
    case True
    then show ?thesis using number_text_overruns [OF assms(1,2)] by simp
  next
    case False
    then have "unat precision + (if sign = 0 then 0 else 1) \<le> 67" using p by auto
    from number_text_spec [OF assms(1,2) this] show ?thesis by simp
  qed
qed

section \<open>Conversions\<close>

lemma safe_number_prefix:
  "safe_run (\<lambda>(_, base, _, _). 1 < base \<and> base \<le> 16 \<and> c \<noteq> 0) (number_prefix put c flags v sc)"
  unfolding number_prefix_def by (auto intro!: safe_emit split: prod.splits)

text \<open>Going on with the format: it is terminated and part of \<open>F\<close> or of \<open>ERROR_STR\<close>.\<close>

definition goes_on :: "byte set \<Rightarrow> vararg set \<Rightarrow> byte list \<times> vararg list \<times> 's \<Rightarrow> bool" where
  "goes_on F A = (\<lambda>(f, a, _). terminated f \<and> set f \<subseteq> F \<union> set ERROR_STR \<and> set a \<subseteq> A)"

lemma goes_on_within: "within F (c, f) \<Longrightarrow> c \<noteq> 0 \<Longrightarrow> set a \<subseteq> A \<Longrightarrow> goes_on F A (f, a, sc)"
  by (simp add: goes_on_def within_simp le_supI1)

lemma ERROR_STR_terminated [simp]: "terminated ERROR_STR"
  by (simp add: ERROR_STR_def)

lemma goes_on_simp:
  "goes_on F A (f, a, sc) \<longleftrightarrow> terminated f \<and> set f \<subseteq> F \<union> set ERROR_STR \<and> set a \<subseteq> A"
  by (simp add: goes_on_def)

lemma goes_on_error: "set a \<subseteq> A \<Longrightarrow> goes_on F A (ERROR_STR, a, sc)"
  by (simp add: goes_on_def ERROR_STR_def)

lemma safe_number_conversion:
  assumes "within F (c, f)" and "set args \<subseteq> A"
  shows "safe_run (goes_on F A) (number_conversion t put c f args flags w p sc)"
  unfolding number_conversion_def
  by (auto intro!: safe_check [OF safe_read_length [OF assms(1)]] safe_check [OF safe_va(1) [OF assms(2)]]
      safe_emit safe_check [OF safe_load_value [OF assms(2)]] safe_bind [OF safe_number_prefix]
      safe_check [OF safe_number_text] safe_bind [OF safe_print_field]
      simp: goes_on_simp within_simp Let_def le_supI1)

text \<open>
  String arguments are terminated; for a hex dump, whose length is at most \<open>MAX_FORMAT\<close>, they have
  that many bytes.
\<close>

definition readable :: "byte set \<Rightarrow> vararg set \<Rightarrow> bool" where
  "readable F A \<longleftrightarrow> (\<forall>s. ArgPtr (Some s) \<in> A \<longrightarrow> terminated s \<and> (72 \<in> F \<longrightarrow> 128 \<le> length s))"

lemma readable_text:
  "readable F A \<Longrightarrow> ArgPtr p \<in> A \<Longrightarrow> terminated (case p of None \<Rightarrow> null_text | Some s \<Rightarrow> s)"
  by (auto simp: readable_def null_text_def split: option.split)

lemma readable_dump:
  assumes "readable F A" and "ArgPtr (Some s) \<in> A" and "72 \<in> F" and "\<not> MAX_FORMAT < p"
  shows "unat p \<le> length s"
proof -
  have "128 \<le> length s" using assms(1-3) by (auto simp: readable_def)
  moreover have "unat p \<le> 128" using assms(4) by (simp add: MAX_FORMAT_def word_less_nat_alt)
  ultimately show ?thesis by linarith
qed

lemma safe_conversion:
  assumes "terminated f" and "set f \<subseteq> F" and "readable F A" and "set args \<subseteq> A"
  shows "safe_run (goes_on F A) (conversion t put f args sc)"
  unfolding conversion_def Let_def
  by (auto intro!: safe_check [OF safe_next_char [OF assms(1,2)]] safe_emit
      safe_check [OF safe_read_flags [where F = F]] safe_check [OF safe_read_field [where A = A and F = F]]
      safe_check [OF safe_read_precision [where A = A and F = F]] safe_check [OF safe_va(4) [where A = A]]
      safe_bind [OF safe_print_field] safe_bind [OF safe_hex_loop] safe_number_conversion
      readable_text [OF assms(3)] assms(4)
      simp: goes_on_simp within_simp le_supI1 split: option.split)
    (blast intro: readable_dump [OF assms(3)])+

lemma safe_format_loop:
  "terminated f \<Longrightarrow> set f \<subseteq> F \<union> set ERROR_STR \<Longrightarrow> readable F A \<Longrightarrow> set args \<subseteq> A \<Longrightarrow>
    safe_run (\<lambda>_. True) (format_loop t put f args sc)"
proof (induction t put f args sc rule: format_loop.induct)
  case (2 t put c f args sc)
  show ?case
  proof (cases "c = 37")
    case True
    have r: "readable (F \<union> set ERROR_STR) A" using "2.prems"(3) by (simp add: readable_def ERROR_STR_def)
    have "terminated f" "set f \<subseteq> F \<union> set ERROR_STR" using "2.prems" True by simp_all
    from safe_conversion [OF this r "2.prems"(4), of t put sc] 2(2) True "2.prems"(3) show ?thesis
      by (auto intro!: safe_bind [of "goes_on (F \<union> set ERROR_STR) A"] simp: goes_on_simp)
  next
    case False
    show ?thesis
    proof (cases "c = 0")
      case c: False
      then have "terminated f" "set f \<subseteq> F \<union> set ERROR_STR" using "2.prems" by simp_all
      then show ?thesis
        using 2(1) [OF c False] False c "2.prems"(3,4) by (auto intro!: safe_emit)
    qed simp
  qed
qed simp

text \<open>
  C9. The formatter never reads behind the end of its format or of an argument, for every format
  with a terminator, every sink and every terminated string argument (hex dumps need the
  \<open>MAX_FORMAT\<close> bytes they may ask for), also when specifications are cut short, wrong or do not
  match the arguments.
\<close>

theorem formatter_reads_strings:
  assumes "terminated format" and "readable (set format) (set args)"
  shows "formatter t put state (Some format) args \<noteq> Inl Read_Past_End"
  using safe_format_loop [OF assms(1) _ assms(2) subset_refl, of t put "(state, 0)"]
  by (auto simp: formatter_def safe_run_def split: sum.splits stop.splits)

lemma formatter_reads_strings_witness:
  "formatter x86_64_target collect [] (Some [37, 45, 0]) [ArgPtr (Some [65, 0])] \<noteq> Inl Read_Past_End"
  using formatter_reads_strings [of "[37, 45, 0]" "[ArgPtr (Some [65, 0])]" x86_64_target collect "[]"]
  by (simp add: readable_def)

text \<open>
  C31. The digit buffer has no room for a sign in front of 67 digits: \<open>%.67d\<close> of a negative number
  writes in front of the buffer, while every smaller precision leaves room.
\<close>

theorem formatted_overruns:
  assumes "sint w < 0"
  shows "formatted t [37, 46, 54, 55, 100, 0] [Arg32 w] = Inl Buffer_Overrun"
proof -
  obtain v where v: "signed_value no_flags (ucast w) = (45, v)"
    using signed_value_32 [of no_flags w] assms by (auto simp: no_flags_def)
  have f: "isdigit 54" "isdigit 55" "\<not> isdigit 100" "char_val t 54 = 54" "char_val t 55 = 55"
      "char_val t 100 = 100"
    by (simp_all add: isdigit_def char_val_ascii)
  have p: "read_number t 54 [55, 100, 0] 0 = Inr (100, [0], 67)"
    using f by simp
  have "number_text t 45 67 10 97 v = Inl Buffer_Overrun"
    by (rule number_text_overruns) simp_all
  then show ?thesis
    using v p
    by (simp add: formatted_def formatter_def conversion_def read_flags_none set_flag_def read_field_def
        read_number_none is_digit_def read_precision_def number_conversion_def read_length_def
        load_value_def va_u32_def number_prefix_def Let_def MAX_FORMAT_def no_flags_def)
qed

lemma formatted_overruns_witness:
  "formatted aarch64_target [37, 46, 54, 55, 100, 0] [Arg32 (- 1)] = Inl Buffer_Overrun"
  using formatted_overruns [of "- 1" aarch64_target] by simp

end
