(* ===== verification/Stdio.thy ===== *)
theory Stdio
  imports Printf_Safety Memory
begin

text \<open>
  The two sinks of \<open>src/printf.c\<close> and the entry points built on them: \<open>snprintf\<close> and \<open>vsnprintf\<close>
  write to memory, \<open>printf\<close> and \<open>puts\<close> call \<open>putnstr\<close>.  \<open>putnstr\<close> belongs to the platform: its
  calls are logged with their text and what it returns is an arbitrary function of the calls before
  and the text.
\<close>

section \<open>The code\<close>

subsection \<open>Writing to a string\<close>

record snprintf_state =
  str_end :: addr
  str :: addr

definition write_str :: "mem \<times> snprintf_state \<Rightarrow> int \<Rightarrow> bool \<times> mem \<times> snprintf_state" where
  "write_str = (\<lambda>(m, ctx) c.
     if str ctx < str_end ctx
     then (True, m(str ctx := word_of_int c), ctx\<lparr>str := str ctx + 1\<rparr>)
     else (True, m, ctx))"

definition snprintf ::
  "target \<Rightarrow> mem \<Rightarrow> addr \<Rightarrow> u64 \<Rightarrow> byte list option \<Rightarrow> vararg list \<Rightarrow> (mem \<times> int) res" where
  "snprintf t m s n format args =
     (if n = 0 then Inr (m, -1)
      else
        let ctx = \<lparr>str_end = s + n - 1, str = s\<rparr> in
        bind_res (formatter t write_str (m, ctx) format args) (\<lambda>((m, ctx), res).
          let m = m(str_end ctx := 0);
              m = m(str ctx := 0)
          in Inr (m, res)))"

definition vsnprintf ::
  "target \<Rightarrow> mem \<Rightarrow> addr \<Rightarrow> u64 \<Rightarrow> byte list option \<Rightarrow> vararg list \<Rightarrow> (mem \<times> int) res" where
  "vsnprintf t m s n format args =
     (if n = 0 then Inr (m, -1)
      else
        let ctx = \<lparr>str_end = s + n - 1, str = s\<rparr> in
        bind_res (formatter t write_str (m, ctx) format args) (\<lambda>((m, ctx), res).
          let m = m(str_end ctx := 0);
              m = m(str ctx := 0)
          in Inr (m, res)))"

subsection \<open>Writing to the console\<close>

type_synonym console = "byte list list"

definition putnstr :: "(console \<Rightarrow> byte list \<Rightarrow> int) \<Rightarrow> console \<Rightarrow> byte list \<Rightarrow> console \<times> int" where
  "putnstr result log text = (log @ [text], result log text)"

text \<open>The platform's \<open>intptr_t\<close> result as an \<open>int\<close>.\<close>

definition as_int :: "int \<Rightarrow> int" where
  "as_int r = sint (word_of_int r :: u32)"

record printf_state =
  len :: u64
  buf :: "byte list"

definition write_printf ::
  "(console \<Rightarrow> byte list \<Rightarrow> int) \<Rightarrow> console \<times> printf_state \<Rightarrow> int \<Rightarrow> bool \<times> console \<times> printf_state" where
  "write_printf result = (\<lambda>(log, ctx) c.
     if len ctx < 256 then
       (True, log, ctx\<lparr>buf := (buf ctx)[unat (len ctx) := word_of_int c], len := len ctx + 1\<rparr>)
     else
       let (log, r) = putnstr result log (take 256 (buf ctx)) in
       if r < 0 then (False, log, ctx)
       else (True, log, ctx\<lparr>len := 1, buf := (buf ctx)[0 := word_of_int c]\<rparr>))"

definition printf ::
  "target \<Rightarrow> (console \<Rightarrow> byte list \<Rightarrow> int) \<Rightarrow> console \<Rightarrow> byte list option \<Rightarrow> vararg list
    \<Rightarrow> (console \<times> int) res" where
  "printf t result log format args =
     (let ctx = \<lparr>len = 0, buf = replicate 256 0\<rparr> in
      bind_res (formatter t (write_printf result) (log, ctx) format args) (\<lambda>((log, ctx), res).
        if res > 0 then
          if len ctx \<noteq> 0 then
            let (log, r) = putnstr result log (take (unat (len ctx)) (buf ctx)) in Inr (log, as_int r)
          else Inr (log, res)
        else
          let (log, r) = putnstr result log ERROR_STR in Inr (log, res)))"

definition puts ::
  "(console \<Rightarrow> byte list \<Rightarrow> int) \<Rightarrow> console \<Rightarrow> byte list option \<Rightarrow> (console \<times> int) res" where
  "puts result log s =
     (case s of
        None \<Rightarrow> Inr (log, -1)
      | Some s \<Rightarrow>
          bind_res (object_strlen s 0) (\<lambda>len.
            let (log, r) = putnstr result log (take (unat len) s);
                res = as_int r
            in if res \<ge> 0
               then let (log, r) = putnstr result log [10] in Inr (log, as_int r)
               else Inr (log, res)))"

section \<open>The string sink\<close>

text \<open>
  What the sink of \<open>snprintf\<close> holds: the first \<open>n - 1\<close> characters stand in the buffer, the rest is
  dropped, nothing else has changed.
\<close>

definition str_holds :: "mem \<Rightarrow> addr \<Rightarrow> u64 \<Rightarrow> mem \<times> snprintf_state \<Rightarrow> byte list \<Rightarrow> bool" where
  "str_holds m0 s n = (\<lambda>(m, ctx) xs.
     let k = min (length xs) (unat n - 1) in
     n \<noteq> 0 \<and> unat s + unat n \<le> 2 ^ 64 \<and> str_end ctx = s + n - 1 \<and> str ctx = s + of_nat k
     \<and> (\<forall>x. m x = (if unat (x - s) < k then xs ! unat (x - s) else m0 x)))"

lemma unat_block_end:
  fixes s n :: u64
  assumes "n \<noteq> 0" and "unat s + unat n \<le> 2 ^ 64"
  shows "unat (s + n - 1) = unat s + unat n - 1"
proof -
  have n: "0 < unat n" using assms(1) by (simp add: unat_gt_0)
  then have "unat (n - 1) = unat n - 1" by (simp add: unat_sub_fits)
  moreover have "unat s + (unat n - 1) < 2 ^ 64" using assms(2) n by linarith
  ultimately have "unat (s + (n - 1)) = unat s + (unat n - 1)" by (simp add: unat_add_fits)
  then show ?thesis using n by (simp add: add_diff_eq)
qed

lemma offset_eq: "x = s + w \<longleftrightarrow> unat (x - s) = unat w"
  for x s w :: addr
proof -
  have "x = s + w \<longleftrightarrow> x - s = w" by auto
  then show ?thesis by (simp only: word_unat_eq_iff)
qed

lemma write_str_accepts:
  assumes "write_str st c = (ok, st')" and "str_holds m0 s n st xs"
  shows "ok \<and> str_holds m0 s n st' (xs @ [word_of_int c])"
proof -
  obtain m ctx where st: "st = (m, ctx)" by (cases st)
  let ?k = "min (length xs) (unat n - 1)"
  have n: "n \<noteq> 0" "unat s + unat n \<le> 2 ^ 64" and e: "str_end ctx = s + n - 1"
    and p: "str ctx = s + of_nat ?k"
    and m: "\<And>x. m x = (if unat (x - s) < ?k then xs ! unat (x - s) else m0 x)"
    using assms(2) by (simp_all add: st str_holds_def Let_def)
  have pos: "0 < unat n" using n(1) by (simp add: unat_gt_0)
  have k: "unat (of_nat ?k :: addr) = ?k"
  proof (rule unat_of_nat_below)
    show "?k < unat n" using pos by simp
  qed
  have "unat s + ?k < 2 ^ 64" using n pos by linarith
  then have up: "unat (str ctx) = unat s + ?k" unfolding p by (simp add: unat_add_of_nat)
  have less: "str ctx < str_end ctx \<longleftrightarrow> ?k < unat n - 1"
    unfolding word_less_nat_alt up e unat_block_end [OF n] using pos by linarith
  show ?thesis
  proof (cases "?k < unat n - 1")
    case True
    then have l: "?k = length xs" "min (length (xs @ [word_of_int c])) (unat n - 1) = Suc (length xs)"
      by simp_all
    have cur: "x = str ctx \<longleftrightarrow> unat (x - s) = length xs" for x
      using offset_eq [of x s "of_nat ?k"] k unfolding p l(1) by simp
    have st': "ok" "st' = (m(str ctx := word_of_int c), ctx\<lparr>str := str ctx + 1\<rparr>)"
      using assms(1) True l(1) less by (simp_all add: st write_str_def)
    have "(m(str ctx := word_of_int c)) x =
        (if unat (x - s) < Suc (length xs) then (xs @ [word_of_int c]) ! unat (x - s) else m0 x)" for x
      using cur [of x] m [of x] l(1) by (auto simp: nth_append less_Suc_eq)
    moreover have "str ctx + 1 = s + of_nat (Suc (length xs))" unfolding p l(1) by (simp add: add.assoc)
    ultimately show ?thesis
      using st' n e unfolding st'(2) str_holds_def Let_def prod.case l(2)
      by (simp del: fun_upd_apply of_nat_Suc)
  next
    case False
    then have "min (length (xs @ [word_of_int c])) (unat n - 1) = ?k" "?k \<le> length xs" by simp_all
    then show ?thesis
      using assms(1) False less n e p m
      by (auto simp: st write_str_def str_holds_def Let_def nth_append)
  qed
qed

interpretation string_sink: sink write_str "str_holds m0 s n" "\<lambda>_. False" for m0 s n
  using write_str_accepts by unfold_locales blast+

text \<open>The memory after the terminators are stored.\<close>

lemma str_holds_terminate:
  assumes "str_holds m0 s n (m, ctx) xs"
  shows "((m(str_end ctx := 0))(str ctx := 0)) x =
    (if unat (x - s) < min (length xs) (unat n - 1) then xs ! unat (x - s)
     else if unat (x - s) = min (length xs) (unat n - 1) \<or> unat (x - s) = unat n - 1 then 0 else m0 x)"
proof -
  let ?k = "min (length xs) (unat n - 1)"
  have n: "n \<noteq> 0" "str_end ctx = s + n - 1" "str ctx = s + of_nat ?k"
    and m: "m x = (if unat (x - s) < ?k then xs ! unat (x - s) else m0 x)"
    using assms by (simp_all add: str_holds_def Let_def)
  have pos: "0 < unat n" using n(1) by (simp add: unat_gt_0)
  have "unat (of_nat ?k :: addr) = ?k" by (rule unat_of_nat_below [of _ n]) (use pos in simp)
  then have 1: "x = str ctx \<longleftrightarrow> unat (x - s) = ?k" unfolding n(3) offset_eq by simp
  have "unat (n - 1) = unat n - 1" using pos by (simp add: unat_sub_fits)
  then have 2: "x = str_end ctx \<longleftrightarrow> unat (x - s) = unat n - 1"
    using offset_eq [of x s "n - 1"] n(2) by (simp only: add_diff_eq)
  show ?thesis using 1 2 m by auto
qed

lemma snprintf_spec:
  assumes "n \<noteq> 0" and "unat s + unat n \<le> 2 ^ 64" and "formatted t format args = Inr (xs, k)"
  defines "l \<equiv> min (length xs) (unat n - 1)"
  shows "\<exists>m'. snprintf t m s n (Some format) args = Inr (m', k)
    \<and> vsnprintf t m s n (Some format) args = Inr (m', k)
    \<and> (k = -1 \<or> k = int (length xs))
    \<and> bytes_at m' s (Suc l) = take l xs @ [0]
    \<and> (\<forall>x. unat (x - s) \<ge> unat n \<longrightarrow> m' x = m x)"
proof -
  let ?ctx = "\<lparr>str_end = s + n - 1, str = s\<rparr>"
  have "str_holds m s n (m, ?ctx) []" using assms(1,2) by (simp add: str_holds_def)
  from string_sink.formatter_in_step [OF this, of t format args] assms(3)
  obtain m1 ctx where r: "formatter t write_str (m, ?ctx) (Some format) args = Inr ((m1, ctx), k)"
      and h: "str_holds m s n (m1, ctx) xs" and k: "k = -1 \<or> k = int (length xs)"
    by (auto simp: split_paired_all)
  let ?m = "(m1(str_end ctx := 0))(str ctx := 0)"
  have pos: "0 < unat n" using assms(1) by (simp add: unat_gt_0)
  have at: "?m (s + of_nat i) = (if i < l then xs ! i else if i = l \<or> i = unat n - 1 then 0 else m (s + of_nat i))"
    if "i < unat n" for i
  proof -
    have "s + of_nat i - s = (of_nat i :: addr)" by simp
    then have "unat (s + of_nat i - s) = i" using unat_of_nat_below [OF that] by (simp only:)
    then show ?thesis using str_holds_terminate [OF h, of "s + of_nat i"] by (simp only: l_def)
  qed
  have l: "l < unat n" using pos by (simp add: l_def)
  have "map (\<lambda>i. ?m (s + of_nat i)) [0..<l] = map (\<lambda>i. xs ! i) [0..<l]"
    using at l by (intro map_cong refl) (auto simp del: fun_upd_apply)
  also have "\<dots> = take l xs"
    by (rule nth_equalityI) (simp_all add: l_def)
  finally have "bytes_at ?m s (Suc l) = take l xs @ [0]"
    using at [OF l] by (simp add: bytes_at_def del: fun_upd_apply)
  moreover have "?m x = m x" if "unat n \<le> unat (x - s)" for x
    using str_holds_terminate [OF h, of x] that pos by (auto simp del: fun_upd_apply)
  ultimately show ?thesis
    using assms(1) r k unfolding snprintf_def vsnprintf_def by (auto simp: Let_def simp del: fun_upd_apply)
qed

text \<open>
  C5. \<open>snprintf\<close> into a buffer of \<open>n\<close> bytes returns the length of the full output (or \<open>EOF\<close>),
  stores as much of the output as leaves room for the terminator, terminates it, and changes no
  byte outside the buffer; \<open>vsnprintf\<close> is the same function.
\<close>

theorem snprintf_stores:
  assumes "n \<noteq> 0" and "unat s + unat n \<le> 2 ^ 64" and "formatted t format args = Inr (xs, k)"
  defines "l \<equiv> min (length xs) (unat n - 1)"
  shows "\<exists>m'. snprintf t m s n (Some format) args = Inr (m', k)
    \<and> vsnprintf t m s n (Some format) args = Inr (m', k)
    \<and> (k = -1 \<or> k = int (length xs))
    \<and> bytes_at m' s (Suc l) = take l xs @ [0]
    \<and> (\<forall>x. unat (x - s) \<ge> unat n \<longrightarrow> m' x = m x)"
  unfolding l_def using assms(1-3) by (rule snprintf_spec)

lemma snprintf_stores_witness:
  "\<exists>m'. snprintf x86_64_target (\<lambda>_. 9) 0x1000 3 (Some [104, 37, 100, 0]) [Arg32 (- 42)] = Inr (m', 4)
    \<and> bytes_at m' 0x1000 (Suc (Suc (Suc 0))) = [104, 45, 0]"
proof -
  have d: "decimal (- 42) = [45, 52, 50]" by code_simp
  have "formatted x86_64_target [104, 37, 100, 0] [Arg32 (- 42)] = Inr ([104, 45, 52, 50], 4)"
    using formatted_d [of "[104]" "[]" x86_64_target "- 42"] by (simp add: d)
  from snprintf_stores [OF _ _ this, of 3 "0x1000" "\<lambda>_. 9"] show ?thesis by auto
qed

section \<open>The console sink\<close>

text \<open>
  What the sink of \<open>printf\<close> holds: the characters are in the pieces already printed and in the
  buffer.  It gives up when the platform refuses a full buffer.
\<close>

definition printf_holds :: "console \<Rightarrow> console \<times> printf_state \<Rightarrow> byte list \<Rightarrow> bool" where
  "printf_holds log0 = (\<lambda>(log, ctx) xs.
     length (buf ctx) = 256 \<and> unat (len ctx) \<le> 256 \<and> (xs \<noteq> [] \<longrightarrow> len ctx \<noteq> 0)
     \<and> (\<exists>pieces. log = log0 @ pieces \<and> (\<forall>p \<in> set pieces. length p = 256)
          \<and> concat pieces @ take (unat (len ctx)) (buf ctx) = xs))"

definition putnstr_failed :: "(console \<Rightarrow> byte list \<Rightarrow> int) \<Rightarrow> console \<times> printf_state \<Rightarrow> bool" where
  "putnstr_failed result = (\<lambda>(log, ctx). log \<noteq> [] \<and> result (butlast log) (last log) < 0)"

interpretation console_sink: sink "write_printf result" "printf_holds log0" "putnstr_failed result"
  for result log0
proof
  fix s s' :: "console \<times> printf_state" and c xs
  assume w: "write_printf result s c = (True, s')" and h: "printf_holds log0 s xs"
  obtain log ctx where s: "s = (log, ctx)" by (cases s)
  obtain pieces where n: "length (buf ctx) = 256" "unat (len ctx) \<le> 256"
      "log = log0 @ pieces" "\<forall>p \<in> set pieces. length p = 256"
      "concat pieces @ take (unat (len ctx)) (buf ctx) = xs"
    using h by (auto simp: s printf_holds_def)
  show "printf_holds log0 s' (xs @ [word_of_int c])"
  proof (cases "len ctx < 256")
    case True
    then have l: "unat (len ctx) < 256" "unat (len ctx + 1) = Suc (unat (len ctx))"
      using unat_Suc_less [OF True] by (simp_all add: word_less_nat_alt)
    then have "len ctx + 1 \<noteq> 0" by (auto simp: unat_eq_zero [symmetric])
    then show ?thesis
      using w True n l by (auto simp: s write_printf_def printf_holds_def take_Suc_conv_app_nth)
  next
    case False
    then have "unat (len ctx) = 256" using n(2) by (simp add: word_less_nat_alt)
    moreover obtain b bs where "buf ctx = b # bs" using n(1) by (cases "buf ctx") simp_all
    ultimately show ?thesis
      using w False n
      by (auto simp: s write_printf_def printf_holds_def putnstr_def split: if_splits
          intro!: exI [of _ "pieces @ [buf ctx]"])
  qed
next
  fix s s' :: "console \<times> printf_state" and c xs
  assume "write_printf result s c = (False, s')"
  then show "putnstr_failed result s'"
    by (cases s) (auto simp: write_printf_def putnstr_failed_def putnstr_def split: if_splits)
qed

lemma printf_returns:
  assumes "formatted t format args = Inr (xs, k)" and "\<And>log text. 0 \<le> result log text"
  shows "\<exists>log' r. printf t result log (Some format) args = Inr (log', r)"
proof -
  let ?ctx = "\<lparr>len = 0, buf = replicate 256 0\<rparr>"
  have "printf_holds log (log, ?ctx) []" by (simp add: printf_holds_def)
  from console_sink.formatter_in_step [OF this, of t result format args] assms(1)
  obtain log' ctx where "formatter t (write_printf result) (log, ?ctx) (Some format) args = Inr ((log', ctx), k)"
    using assms(2) by (auto simp: putnstr_failed_def split_paired_all not_less [symmetric])
  then show ?thesis by (simp add: printf_def putnstr_def)
qed

lemma printf_pieces:
  assumes "formatted t format args = Inr (xs, k)" and "0 < k"
    and "\<And>log text. 0 \<le> result log text"
  shows "\<exists>pieces piece. printf t result log (Some format) args =
      Inr (log @ pieces @ [piece], as_int (result (log @ pieces) piece))
    \<and> concat (pieces @ [piece]) = xs \<and> (\<forall>p \<in> set (pieces @ [piece]). length p \<le> 256)"
proof -
  let ?ctx = "\<lparr>len = 0, buf = replicate 256 0\<rparr>"
  have k: "k = int (length xs)" using formatted_count [OF assms(1)] assms(2) by auto
  have "printf_holds log (log, ?ctx) []" by (simp add: printf_holds_def)
  from console_sink.formatter_in_step [OF this, of t result format args] assms(1)
  obtain log' ctx where r: "formatter t (write_printf result) (log, ?ctx) (Some format) args = Inr ((log', ctx), k)"
      and h: "printf_holds log (log', ctx) xs"
    using assms(3) by (auto simp: putnstr_failed_def split_paired_all not_less [symmetric])
  then obtain pieces where p: "log' = log @ pieces" "\<forall>p \<in> set pieces. length p = 256" "len ctx \<noteq> 0"
      "concat pieces @ take (unat (len ctx)) (buf ctx) = xs"
      "length (take (unat (len ctx)) (buf ctx)) \<le> 256"
    using k assms(2) by (auto simp: printf_holds_def)
  then have "printf t result log (Some format) args =
      Inr (log @ pieces @ [take (unat (len ctx)) (buf ctx)],
        as_int (result (log @ pieces) (take (unat (len ctx)) (buf ctx))))"
    using r assms(2) by (simp add: printf_def putnstr_def)
  moreover have "concat (pieces @ [take (unat (len ctx)) (buf ctx)]) = xs" using p(4) by simp
  ultimately show ?thesis using p(2,5) by (intro exI conjI) auto
qed

text \<open>
  C22. When the platform prints every text it is given, \<open>printf\<close> prints exactly the formatted output,
  in pieces of at most the buffer's size, and returns what the platform returned for the last one.
\<close>

theorem printf_prints:
  assumes "formatted t format args = Inr (xs, k)" and "0 < k"
    and "\<And>log text. 0 \<le> result log text"
  shows "\<exists>pieces piece. printf t result log (Some format) args =
      Inr (log @ pieces @ [piece], as_int (result (log @ pieces) piece))
    \<and> concat (pieces @ [piece]) = xs \<and> (\<forall>p \<in> set (pieces @ [piece]). length p \<le> 256)"
  using assms by (rule printf_pieces)

lemma printf_prints_witness:
  "\<exists>pieces piece. printf x86_64_target (\<lambda>_ text. int (length text)) [] (Some [104, 105, 0]) [] =
      Inr (pieces @ [piece], as_int (int (length piece))) \<and> concat (pieces @ [piece]) = [104, 105]"
proof -
  have "formatted x86_64_target [104, 105, 0] [] = Inr ([104, 105], 2)" by code_simp
  from printf_prints [OF this, of "\<lambda>_ text. int (length text)" "[]"] show ?thesis by auto
qed

text \<open>
  C32. A call of \<open>printf\<close> that formats nothing, or whose format has an unsupported conversion,
  prints \<open><ERROR>\<close> with its terminator; what the buffer already holds is not printed.
\<close>

theorem printf_error_text:
  assumes "formatted t format args = Inr (xs, k)" and "k \<le> 0" and "length xs \<le> 256"
    and "\<And>log text. 0 \<le> result log text"
  shows "printf t result log (Some format) args = Inr (log @ [ERROR_STR], k)"
proof -
  let ?ctx = "\<lparr>len = 0, buf = replicate 256 0\<rparr>"
  have "printf_holds log (log, ?ctx) []" by (simp add: printf_holds_def)
  from console_sink.formatter_in_step [OF this, of t result format args] assms(1)
  obtain log' ctx where r: "formatter t (write_printf result) (log, ?ctx) (Some format) args = Inr ((log', ctx), k)"
      and h: "printf_holds log (log', ctx) xs"
    using assms(4) by (auto simp: putnstr_failed_def split_paired_all not_less [symmetric])
  then obtain pieces where p: "log' = log @ pieces" "\<forall>p \<in> set pieces. length p = 256" "xs \<noteq> [] \<longrightarrow> len ctx \<noteq> 0"
      "concat pieces @ take (unat (len ctx)) (buf ctx) = xs" "length (buf ctx) = 256"
    by (auto simp: printf_holds_def)
  have "pieces = []"
  proof (rule ccontr)
    assume "pieces \<noteq> []"
    then obtain q qs where q: "pieces = q # qs" by (cases pieces) simp_all
    then have "length q = 256" "256 \<le> length xs" using p(2,4) by auto
    then have "xs \<noteq> []" by auto
    then have "0 < length (take (unat (len ctx)) (buf ctx))" using p(3,5) by (simp add: unat_gt_0)
    then have "256 < length xs" using p(4) q \<open>length q = 256\<close> by auto
    then show False using assms(3) by simp
  qed
  then show ?thesis using r p(1) assms(2) by (simp add: printf_def putnstr_def Let_def)
qed

lemma printf_error_text_witness:
  "printf x86_64_target (\<lambda>_ text. 1) [] (Some [97, 98, 37, 121, 0]) [Arg32 0] = Inr ([ERROR_STR], - 1)"
proof -
  have "formatted x86_64_target [97, 98, 37, 121, 0] [Arg32 0] = Inr ([97, 98], - 1)" by code_simp
  from printf_error_text [OF this, of "\<lambda>_ text. 1" "[]"] show ?thesis by simp
qed

text \<open>
  \<open>puts\<close> prints the characters of its string and then a newline, and nothing more once the
  platform has refused the string.
\<close>

theorem puts_prints:
  assumes "terminated s" and "length s < 2 ^ 64"
  shows "puts result log (Some s) =
    (if as_int (result log (chars_of s)) \<ge> 0
     then Inr (log @ [chars_of s, [10]], as_int (result (log @ [chars_of s]) [10]))
     else Inr (log @ [chars_of s], as_int (result log (chars_of s))))"
proof -
  have "length (chars_of s) < 2 ^ 64" using assms(2) chars_of_length [of s] by linarith
  then have "unat (of_nat (length (chars_of s)) :: u64) = length (chars_of s)" by (simp add: unat_of_nat_eq)
  moreover have "take (length (chars_of s)) s = chars_of s"
    by (metis chars_of_def takeWhile_eq_take)
  ultimately show ?thesis
    by (simp add: puts_def object_strlen_spec [OF assms(1)] putnstr_def Let_def)
qed

lemma puts_prints_witness:
  "puts (\<lambda>_ _. 1) [] (Some [104, 105, 0]) = Inr ([[104, 105], [10]], 1)"
  using puts_prints [of "[104, 105, 0]" "\<lambda>_ _. 1" "[]"] by (simp add: as_int_def)

end
