(* ===== verification/Linux.thy ===== *)
theory Linux
  imports MemCopy Stdio
begin

text \<open>
  The rest of \<open>platform/x86_64-pc-linux-gnu.c\<close>: system calls, what is built on them, and the code that
  runs before \<open>main\<close>.  The kernel is a parameter: it takes the registers that a wrapper sets and the
  machine, and gives the value of \<open>rax\<close> and the machine it leaves (the \<open>memory\<close> clobber of the
  assembler statements).
\<close>

section \<open>System calls\<close>

datatype reg = RAX | RDI | RSI | RDX | R10 | R8 | R9

record 'k machine =
  ram :: mem
  kernel_state :: 'k

type_synonym 'k kernel = "(reg \<rightharpoonup> u64) \<Rightarrow> 'k machine \<Rightarrow> u64 \<times> 'k machine"

definition syscall0 :: "'k kernel \<Rightarrow> u64 \<Rightarrow> 'k machine \<Rightarrow> u64 \<times> 'k machine" where
  "syscall0 sys n = sys [RAX \<mapsto> n]"

definition syscall1 :: "'k kernel \<Rightarrow> u64 \<Rightarrow> u64 \<Rightarrow> 'k machine \<Rightarrow> u64 \<times> 'k machine" where
  "syscall1 sys n a1 = sys [RAX \<mapsto> n, RDI \<mapsto> a1]"

definition syscall2 :: "'k kernel \<Rightarrow> u64 \<Rightarrow> u64 \<Rightarrow> u64 \<Rightarrow> 'k machine \<Rightarrow> u64 \<times> 'k machine" where
  "syscall2 sys n a1 a2 = sys [RAX \<mapsto> n, RDI \<mapsto> a1, RSI \<mapsto> a2]"

definition syscall3 :: "'k kernel \<Rightarrow> u64 \<Rightarrow> u64 \<Rightarrow> u64 \<Rightarrow> u64 \<Rightarrow> 'k machine \<Rightarrow> u64 \<times> 'k machine" where
  "syscall3 sys n a1 a2 a3 = sys [RAX \<mapsto> n, RDI \<mapsto> a1, RSI \<mapsto> a2, RDX \<mapsto> a3]"

definition syscall4 :: "'k kernel \<Rightarrow> u64 \<Rightarrow> u64 \<Rightarrow> u64 \<Rightarrow> u64 \<Rightarrow> u64 \<Rightarrow> 'k machine \<Rightarrow> u64 \<times> 'k machine" where
  "syscall4 sys n a1 a2 a3 a4 =
     (let r10 = a4 in sys [RAX \<mapsto> n, RDI \<mapsto> a1, RSI \<mapsto> a2, RDX \<mapsto> a3, R10 \<mapsto> r10])"

definition syscall5 ::
  "'k kernel \<Rightarrow> u64 \<Rightarrow> u64 \<Rightarrow> u64 \<Rightarrow> u64 \<Rightarrow> u64 \<Rightarrow> u64 \<Rightarrow> 'k machine \<Rightarrow> u64 \<times> 'k machine" where
  "syscall5 sys n a1 a2 a3 a4 a5 =
     (let r10 = a4; r8 = a5
      in sys [RAX \<mapsto> n, RDI \<mapsto> a1, RSI \<mapsto> a2, RDX \<mapsto> a3, R10 \<mapsto> r10, R8 \<mapsto> r8])"

definition syscall6 ::
  "'k kernel \<Rightarrow> u64 \<Rightarrow> u64 \<Rightarrow> u64 \<Rightarrow> u64 \<Rightarrow> u64 \<Rightarrow> u64 \<Rightarrow> u64 \<Rightarrow> 'k machine \<Rightarrow> u64 \<times> 'k machine" where
  "syscall6 sys n a1 a2 a3 a4 a5 a6 =
     (let r10 = a4; r8 = a5; r9 = a6
      in sys [RAX \<mapsto> n, RDI \<mapsto> a1, RSI \<mapsto> a2, RDX \<mapsto> a3, R10 \<mapsto> r10, R8 \<mapsto> r8, R9 \<mapsto> r9])"

text \<open>The numbers of the x86-64 system call table and of \<open>linux/time.h\<close>, and the size of \<open>cpu_set_t\<close>.\<close>

definition SYS_write :: u64 where "SYS_write = 1"

definition SYS_exit :: u64 where "SYS_exit = 60"

definition SYS_sched_setaffinity :: u64 where "SYS_sched_setaffinity = 203"

definition SYS_clock_gettime :: u64 where "SYS_clock_gettime = 228"

definition CLOCK_MONOTONIC :: u64 where "CLOCK_MONOTONIC = 1"

definition CPU_SET_SIZE :: u64 where "CPU_SET_SIZE = 128"

section \<open>Services\<close>

text \<open>The result of \<open>putnstr\<close> is the \<open>intptr_t\<close> that \<open>rax\<close> holds.\<close>

definition linux_putnstr :: "'k kernel \<Rightarrow> addr \<Rightarrow> u64 \<Rightarrow> 'k machine \<Rightarrow> int \<times> 'k machine" where
  "linux_putnstr sys s n st =
     (let (ret, st) = syscall3 sys SYS_write 1 s n st in (sint ret, st))"

definition linux_exit :: "'k kernel \<Rightarrow> u32 \<Rightarrow> 'k machine \<Rightarrow> 'k machine" where
  "linux_exit sys ret st = snd (syscall1 sys SYS_exit (scast ret) st)"

text \<open>\<open>t\<close> is the address of the local \<open>struct __kernel_timespec\<close>: \<open>tv_sec\<close>, then \<open>tv_nsec\<close>.\<close>

definition get_clock :: "'k kernel \<Rightarrow> addr \<Rightarrow> 'k machine \<Rightarrow> u64 \<times> 'k machine" where
  "get_clock sys t st =
     (let (_, st) = syscall2 sys SYS_clock_gettime CLOCK_MONOTONIC t st;
          tv_sec = load64 (ram st) t;
          tv_nsec = load64 (ram st) (t + 8)
      in (tv_nsec + tv_sec * 1000000000, st))"

section \<open>Start-up\<close>

text \<open>
  \<open>main\<close> belongs to the program: it may not return.  \<open>cpus\<close> is the address of the static CPU mask, the
  bounds of \<open>.bss\<close> come from the linker script.
\<close>

type_synonym 'k main = "u32 \<Rightarrow> addr \<Rightarrow> addr \<Rightarrow> 'k machine \<Rightarrow> (u32 \<times> 'k machine) option"

definition linux_start ::
  "'k kernel \<Rightarrow> 'k main \<Rightarrow> addr \<Rightarrow> addr \<Rightarrow> addr \<Rightarrow> u32 \<Rightarrow> addr \<Rightarrow> addr \<Rightarrow> 'k machine \<Rightarrow> 'k machine option" where
  "linux_start sys main bss_start bss_end cpus argc argv envp st = do {
     (m, _) \<leftarrow> memset (ram st) bss_start 0 (bss_end - bss_start);
     let (_, st) = syscall3 sys SYS_sched_setaffinity 0 CPU_SET_SIZE cpus (st\<lparr>ram := m\<rparr>) in do {
       (ret, st) \<leftarrow> main argc argv envp st;
       Some (linux_exit sys ret st)
     }
   }"

text \<open>The assembler of \<open>_start\<close>, one binding for each instruction, up to the call of \<open>__start\<close>.\<close>

record start_regs =
  rdi :: u64
  rsi :: u64
  rdx :: u64
  rsp :: addr
  rbp :: u64

definition start_asm :: "addr \<Rightarrow> mem \<Rightarrow> start_regs \<times> mem" where
  "start_asm sp m =
     (let di = load64 m sp; sp = sp + 8;
          si = sp;
          dx = si + di * 8 + 8;
          sp = sp AND - 16;
          sp = sp - 8; m = store64 m sp di;
          sp = sp - 8; m = store64 m sp si;
          bp = 0
      in (\<lparr>rdi = di, rsi = si, rdx = dx, rsp = sp, rbp = bp\<rparr>, m))"

definition linux_entry ::
  "'k kernel \<Rightarrow> 'k main \<Rightarrow> addr \<Rightarrow> addr \<Rightarrow> addr \<Rightarrow> addr \<Rightarrow> 'k machine \<Rightarrow> 'k machine option" where
  "linux_entry sys main bss_start bss_end cpus sp st =
     (let (r, m) = start_asm sp (ram st)
      in linux_start sys main bss_start bss_end cpus (ucast (rdi r)) (rsi r) (rdx r) (st\<lparr>ram := m\<rparr>))"

section \<open>The entry\<close>

lemma align16_push: "a AND - 16 = push_bit 4 (drop_bit 4 a)"
  for a :: addr
proof -
  have "a AND NOT (mask 4) = push_bit 4 (drop_bit 4 a)"
    by (intro bit_word_eqI)
      (auto simp: bit_and_iff bit_not_iff bit_mask_iff bit_push_bit_iff bit_drop_bit_eq)
  then show ?thesis by (simp add: mask_eq_exp_minus_1)
qed

lemma align16: "unat (a AND - 16) = unat a div 16 * 16"
  for a :: addr
proof -
  have "unat a div 2 ^ 4 * 2 ^ 4 < 2 ^ LENGTH(64)"
    by (rule le_less_trans [OF div_times_less_eq_dividend unat_less_exp])
  then have "unat (push_bit 4 (drop_bit 4 a)) = unat a div 2 ^ 4 * 2 ^ 4"
    by (subst unat_push_bit_fits) (simp_all only: unat_drop_bit_div)
  then show ?thesis by (simp add: align16_push)
qed

lemma align16_below: "16 dvd unat t \<Longrightarrow> 16 dvd unat (t - 16)"
  for t :: addr
  by (cases "16 \<le> unat t") (auto simp: unat_sub_if' dvd_diff_nat intro: dvd_diff_nat)

text \<open>The registers that \<open>__start\<close> receives, and what the two pushes leave alone.\<close>

lemma start_asm_regs:
  "start_asm sp m = (r, m') \<Longrightarrow> rdi r = load64 m sp \<and> rsi r = sp + 8 \<and> rdx r = sp + 8 + load64 m sp * 8 + 8
    \<and> rsp r = ((sp + 8) AND - 16) - 16 \<and> rbp r = 0"
  by (auto simp: start_asm_def Let_def)

lemma store64_below:
  assumes "unat a + 8 \<le> unat x"
  shows "store64 m a v x = m x"
  using assms by (intro store64_other) (simp add: word_less_nat_alt unat_sub_if')

lemma start_asm_frame:
  assumes "start_asm sp m = (r, m')" and "32 \<le> unat sp" and "unat sp + 8 < 2 ^ 64" and "unat sp + 8 \<le> unat x"
  shows "m' x = m x"
proof -
  let ?t = "(sp + 8) AND - 16"
  have sp: "unat (sp + 8) = unat sp + 8" using assms(3) by (subst unat_add_fits) simp_all
  have t: "unat ?t \<le> unat x" "32 \<le> unat ?t" using assms(2,4) by (simp_all add: align16 sp)
  have "unat (?t - 8) = unat ?t - 8" "unat (?t - 16) = unat ?t - 16"
    using t(2) by (simp_all add: unat_sub_if')
  moreover have "m' = store64 (store64 m (?t - 8) (load64 m sp)) (?t - 16) (sp + 8)"
    using assms(1) by (auto simp: start_asm_def Let_def)
  ultimately show ?thesis using t by (simp add: store64_below)
qed

lemma start_aligned:
  assumes "start_asm sp m = (r, m')"
  shows "unat (rsp r) mod 16 = 0"
proof -
  have "16 dvd unat ((sp + 8) AND - 16)" by (simp add: align16)
  then have "16 dvd unat (((sp + 8) AND - 16) - 16)" by (rule align16_below)
  then show ?thesis using start_asm_regs [OF assms] by (simp only: dvd_eq_mod_eq_0)
qed

text \<open>The memory \<open>main\<close> finds: \<open>.bss\<close> is zero, the rest from the argument vector on is as it was.\<close>

definition ready_memory :: "addr \<Rightarrow> addr \<Rightarrow> addr \<Rightarrow> mem \<Rightarrow> mem \<Rightarrow> bool" where
  "ready_memory bss_start bss_end sp m m' \<longleftrightarrow>
     (\<forall>x. unat (x - bss_start) < unat (bss_end - bss_start) \<longrightarrow> m' x = 0)
     \<and> (\<forall>x. unat sp + 8 \<le> unat x \<and> unat (bss_end - bss_start) \<le> unat (x - bss_start) \<longrightarrow> m' x = m x)"

lemma linux_entry_memory:
  assumes "32 \<le> unat sp" and "unat sp + 8 < 2 ^ 64" and "unat bss_start + unat (bss_end - bss_start) < 2 ^ 64"
    and "start_asm sp m = (r, m')"
  shows "\<exists>m2. memset m' bss_start 0 (bss_end - bss_start) = Some (m2, bss_start)
    \<and> ready_memory bss_start bss_end sp m m2"
  using memset_fill [OF assms(3), of m' 0] start_asm_frame [OF assms(4,1,2)]
  by (auto simp: ready_memory_def fill_def)

lemma linux_entry_runs:
  assumes "32 \<le> unat sp" and "unat sp + 8 < 2 ^ 64" and "unat bss_start + unat (bss_end - bss_start) < 2 ^ 64"
  shows "\<exists>m. ready_memory bss_start bss_end sp (ram st) m
    \<and> linux_entry sys main bss_start bss_end cpus sp st = do {
        let argc = load64 (ram st) sp;
            (_, st) = sys [RAX \<mapsto> 203, RDI \<mapsto> 0, RSI \<mapsto> 128, RDX \<mapsto> cpus] (st\<lparr>ram := m\<rparr>) in do {
          (ret, st) \<leftarrow> main (ucast argc) (sp + 8) (sp + 8 + 8 * argc + 8) st;
          Some (snd (sys [RAX \<mapsto> 60, RDI \<mapsto> scast ret] st))
        }}"
proof -
  obtain r m' where r: "start_asm sp (ram st) = (r, m')" by (cases "start_asm sp (ram st)")
  obtain m2 where m2: "memset m' bss_start 0 (bss_end - bss_start) = Some (m2, bss_start)"
      "ready_memory bss_start bss_end sp (ram st) m2"
    using linux_entry_memory [OF assms r] by blast
  have "rdi r = load64 (ram st) sp" "rsi r = sp + 8" "rdx r = sp + 8 + 8 * load64 (ram st) sp + 8"
    using start_asm_regs [OF r] by (simp_all add: mult.commute)
  then show ?thesis using m2
    by (intro exI [of _ m2])
      (simp add: linux_entry_def linux_start_def linux_exit_def syscall1_def syscall3_def r Let_def
        SYS_sched_setaffinity_def SYS_exit_def CPU_SET_SIZE_def split_beta)
qed

lemma ready_argument:
  assumes "ready_memory bss_start bss_end sp m m'" and "unat sp + 16 + 8 * i < 2 ^ 64"
    and "unat sp + 16 + 8 * i \<le> unat bss_start \<or> unat bss_end \<le> unat sp" and "unat bss_start \<le> unat bss_end"
  shows "load64 m' (sp + 8 + of_nat (8 * i)) = load64 m (sp + 8 + of_nat (8 * i))"
proof (rule load64_cong)
  fix k :: nat assume k: "k < 8"
  have x: "unat (sp + 8 + of_nat (8 * i) + of_nat k) = unat sp + 8 + 8 * i + k" (is "unat ?x = _")
  proof -
    have "?x = sp + of_nat (8 + 8 * i + k)" by simp
    then show ?thesis using k assms(2) by (simp only:) (subst unat_add_of_nat; simp)
  qed
  have "unat (bss_end - bss_start) \<le> unat (?x - bss_start)"
    using assms(3,4) k x unat_less_exp [of bss_end] by (auto simp: unat_sub_if')
  then show "m' ?x = m ?x" using assms(1) x unfolding ready_memory_def by simp
qed

section \<open>The clock\<close>

lemma get_clock_value:
  assumes "sys [RAX \<mapsto> 228, RDI \<mapsto> 1, RSI \<mapsto> t] st = (r, st')"
    and "unat (load64 (ram st') t) \<le> 18446744072" and "unat (load64 (ram st') (t + 8)) < 1000000000"
  shows "\<exists>v. get_clock sys t st = (v, st')
    \<and> unat v = unat (load64 (ram st') t) * 1000000000 + unat (load64 (ram st') (t + 8))"
proof -
  let ?s = "load64 (ram st') t" and ?n = "load64 (ram st') (t + 8)"
  have m: "unat (?s * 1000000000) = unat ?s * 1000000000"
    using assms(2) by (subst unat_mult_lem [THEN iffD1]) simp_all
  have "unat (?n + ?s * 1000000000) = unat ?n + unat ?s * 1000000000"
    using assms(2,3) by (subst unat_add_fits) (simp_all only: m, simp)
  then show ?thesis
    using assms(1) by (simp add: get_clock_def syscall2_def SYS_clock_gettime_def CLOCK_MONOTONIC_def)
qed

lemma lex_order:
  fixes s1 s2 n1 n2 k :: nat
  assumes "n1 < k" and "n2 < k"
  shows "s1 * k + n1 \<le> s2 * k + n2 \<longleftrightarrow> s1 < s2 \<or> s1 = s2 \<and> n1 \<le> n2"
proof (cases s1 s2 rule: linorder_cases)
  case less
  then have "(s1 + 1) * k \<le> s2 * k" by (intro mult_right_mono) simp_all
  then show ?thesis using less assms by simp
next
  case greater
  then have "(s2 + 1) * k \<le> s1 * k" by (intro mult_right_mono) simp_all
  then show ?thesis using greater assms by simp
qed simp

section \<open>The console\<close>

text \<open>
  What \<open>write(2)\<close> documents of the call on the standard output, \<open>out\<close> being what the kernel has written there:
  it takes a number of bytes from the front of the buffer, maybe fewer than asked for, and returns
  that number, or takes none and returns an error code between -4095 and -1; user memory stays as it is.
\<close>

definition documented_write :: "'k kernel \<Rightarrow> ('k \<Rightarrow> byte list) \<Rightarrow> bool" where
  "documented_write sys out \<longleftrightarrow>
     (\<forall>s n st. let (r, st') = sys [RAX \<mapsto> 1, RDI \<mapsto> 1, RSI \<mapsto> s, RDX \<mapsto> n] st in
        ram st' = ram st
        \<and> (r \<le> n \<and> out (kernel_state st') = out (kernel_state st) @ bytes_at (ram st) s (unat r)
           \<or> - 4095 \<le> r \<and> out (kernel_state st') = out (kernel_state st)))"

text \<open>A program's calls of \<open>putnstr\<close>, with their results, and what the results say was printed.\<close>

fun put_all :: "'k kernel \<Rightarrow> (addr \<times> u64) list \<Rightarrow> 'k machine \<Rightarrow> int list \<times> 'k machine" where
  "put_all sys [] st = ([], st)"
| "put_all sys ((s, n) # calls) st =
     (let (r, st) = linux_putnstr sys s n st; (rs, st) = put_all sys calls st in (r # rs, st))"

definition printed :: "mem \<Rightarrow> (addr \<times> u64) list \<Rightarrow> int list \<Rightarrow> byte list" where
  "printed m calls rs = concat (map2 (\<lambda>(s, n) r. bytes_at m s (nat r)) calls rs)"

lemma sint_u64: "sint w = (if uint w < 2 ^ 63 then uint w else uint w - 2 ^ 64)"
  for w :: u64
proof -
  have u: "0 \<le> uint w" "uint w < 2 ^ 64" using uint_bounded [of w] by simp_all
  have "sint w = (uint w + 2 ^ 63) mod 2 ^ 64 - 2 ^ 63"
    by (subst sint_uint, subst signed_take_bit_eq_take_bit_shift) (simp add: take_bit_eq_mod)
  moreover have "(uint w + 2 ^ 63) mod 2 ^ 64 =
      (if uint w < 2 ^ 63 then uint w + 2 ^ 63 else uint w - 2 ^ 63)"
    using u by (simp add: mod_pos_geq)
  ultimately show ?thesis by simp
qed

lemma linux_putnstr_call:
  assumes "documented_write sys out" and "unat n < 2 ^ 63"
  shows "\<exists>r st'. linux_putnstr sys s n st = (r, st') \<and> ram st' = ram st \<and> - 4095 \<le> r \<and> r \<le> int (unat n)
    \<and> out (kernel_state st') = out (kernel_state st) @ bytes_at (ram st) s (nat r)"
proof -
  obtain r st' where r: "sys [RAX \<mapsto> 1, RDI \<mapsto> 1, RSI \<mapsto> s, RDX \<mapsto> n] st = (r, st')"
    by (cases "sys [RAX \<mapsto> 1, RDI \<mapsto> 1, RSI \<mapsto> s, RDX \<mapsto> n] st")
  then have w: "ram st' = ram st" "r \<le> n \<and> out (kernel_state st') = out (kernel_state st) @ bytes_at (ram st) s (unat r)
      \<or> - 4095 \<le> r \<and> out (kernel_state st') = out (kernel_state st)"
    using assms(1) [unfolded documented_write_def, rule_format, of s n st] by simp_all
  have put: "linux_putnstr sys s n st = (sint r, st')"
    using r by (simp add: linux_putnstr_def syscall3_def SYS_write_def)
  show ?thesis using w(2)
  proof (elim disjE conjE)
    assume le: "r \<le> n" "out (kernel_state st') = out (kernel_state st) @ bytes_at (ram st) s (unat r)"
    then have "unat r \<le> unat n" by (simp add: word_le_nat_alt)
    moreover from this have s: "sint r = int (unat r)" using assms(2) by (intro sint_small) simp
    ultimately have "- 4095 \<le> sint r" "sint r \<le> int (unat n)" by linarith+
    moreover have "nat (sint r) = unat r" using s by simp
    ultimately show ?thesis using put w(1) le(2) by (intro exI [of _ "sint r"] exI [of _ st']) (simp only: simp_thms)
  next
    assume e: "- 4095 \<le> r" "out (kernel_state st') = out (kernel_state st)"
    have "uint (- 4095 :: u64) = 2 ^ 64 - 4095" by simp
    then have "2 ^ 64 - 4095 \<le> uint r" "uint r < 2 ^ 64"
      using e(1) uint_bounded [of r] by (simp_all add: word_le_def)
    then have "- 4095 \<le> sint r" and neg: "sint r < 0" by (simp_all add: sint_u64)
    moreover have "sint r \<le> int (unat n)" using neg by linarith
    moreover have "bytes_at (ram st) s (nat (sint r)) = []" using neg by (simp add: bytes_at_def)
    ultimately show ?thesis using put w(1) e(2) by (intro exI [of _ "sint r"] exI [of _ st']) simp
  qed
qed

lemma put_all_prints:
  assumes "documented_write sys out"
  shows "\<forall>(s, n) \<in> set calls. unat n < 2 ^ 63 \<Longrightarrow>
    \<exists>rs st'. put_all sys calls st = (rs, st') \<and> ram st' = ram st
      \<and> list_all2 (\<lambda>(s, n) r. - 4095 \<le> r \<and> r \<le> int (unat n)) calls rs
      \<and> out (kernel_state st') = out (kernel_state st) @ printed (ram st) calls rs"
proof (induction calls arbitrary: st)
  case (Cons call calls)
  obtain s n where call: "call = (s, n)" by (cases call)
  then have "unat n < 2 ^ 63" using Cons.prems by simp
  from linux_putnstr_call [OF assms this] obtain r st1 where 1: "linux_putnstr sys s n st = (r, st1)" "ram st1 = ram st"
      "- 4095 \<le> r" "r \<le> int (unat n)" "out (kernel_state st1) = out (kernel_state st) @ bytes_at (ram st) s (nat r)"
    by blast
  obtain rs st2 where 2: "put_all sys calls st1 = (rs, st2)" "ram st2 = ram st1"
      "list_all2 (\<lambda>(s, n) r. - 4095 \<le> r \<and> r \<le> int (unat n)) calls rs"
      "out (kernel_state st2) = out (kernel_state st1) @ printed (ram st1) calls rs"
    using Cons.IH [of st1] Cons.prems by auto
  have "put_all sys (call # calls) st = (r # rs, st2)" using 1(1) 2(1) call by simp
  then show ?case using 1(2-5) 2(2-4) call by (simp add: printed_def)
qed (simp add: printed_def)

section \<open>The properties\<close>

text \<open>
  C15. The whole start-up: with the stack the kernel hands over, \<open>main\<close> is called with the argument count,
  the vector behind it and the environment behind its null terminator, after the affinity call, on a
  memory where \<open>.bss\<close> is zero and everything else from the vector on is unchanged; the stack is aligned to
  16 bytes at the call of \<open>__start\<close>, and the result of \<open>main\<close> is the status of the exit call.
\<close>

theorem linux_entry_calls_main:
  assumes "32 \<le> unat sp" and "unat sp + 8 < 2 ^ 64" and "unat bss_start + unat (bss_end - bss_start) < 2 ^ 64"
  shows "unat (rsp (fst (start_asm sp (ram st)))) mod 16 = 0
    \<and> (\<exists>m. (\<forall>x. unat (x - bss_start) < unat (bss_end - bss_start) \<longrightarrow> m x = 0)
      \<and> (\<forall>x. unat sp + 8 \<le> unat x \<and> unat (bss_end - bss_start) \<le> unat (x - bss_start) \<longrightarrow> m x = ram st x)
      \<and> linux_entry sys main bss_start bss_end cpus sp st = do {
          let argc = load64 (ram st) sp;
              (_, st) = sys [RAX \<mapsto> 203, RDI \<mapsto> 0, RSI \<mapsto> 128, RDX \<mapsto> cpus] (st\<lparr>ram := m\<rparr>) in do {
            (ret, st) \<leftarrow> main (ucast argc) (sp + 8) (sp + 8 + 8 * argc + 8) st;
            Some (snd (sys [RAX \<mapsto> 60, RDI \<mapsto> scast ret] st))
          }})"
  using linux_entry_runs [OF assms] start_aligned [of sp "ram st" "fst (start_asm sp (ram st))" "snd (start_asm sp (ram st))"]
  by (auto simp: ready_memory_def)

text \<open>A program that returns its argument count, on a kernel that keeps the status of the exit call.\<close>

lemma linux_entry_calls_main_witness:
  "linux_entry (\<lambda>r st. (0, if r RAX = Some 60 then st\<lparr>kernel_state := the (r RDI)\<rparr> else st))
      (\<lambda>argc argv envp st. Some (argc, st)) 0x5000 0x5100 0x6000 0x7ff0
      \<lparr>ram = store64 (\<lambda>_. 7) 0x7ff0 3, kernel_state = 0\<rparr> \<noteq> None
    \<and> map_option kernel_state (linux_entry (\<lambda>r st. (0, if r RAX = Some 60 then st\<lparr>kernel_state := the (r RDI)\<rparr> else st))
      (\<lambda>argc argv envp st. Some (argc, st)) 0x5000 0x5100 0x6000 0x7ff0
      \<lparr>ram = store64 (\<lambda>_. 7) 0x7ff0 3, kernel_state = 0\<rparr>) = Some 3"
  using linux_entry_calls_main [of "0x7ff0" "0x5000" "0x5100" "\<lparr>ram = store64 (\<lambda>_. 7) 0x7ff0 3, kernel_state = 0\<rparr>"
      "\<lambda>r st. (0, if r RAX = Some 60 then st\<lparr>kernel_state := the (r RDI)\<rparr> else st)"
      "\<lambda>argc argv envp st. Some (argc, st)" "0x6000"]
  by auto

text \<open>
  \<open>get_clock\<close> orders two times as the kernel's clock does: as long as the seconds fit (until the year
  2554) the nanoseconds it returns compare as seconds and then nanoseconds do.
\<close>

theorem get_clock_ordered:
  assumes "sys1 [RAX \<mapsto> 228, RDI \<mapsto> 1, RSI \<mapsto> t1] st1 = (r1, st1')" and "sys2 [RAX \<mapsto> 228, RDI \<mapsto> 1, RSI \<mapsto> t2] st2 = (r2, st2')"
    and "unat (load64 (ram st1') t1) \<le> 18446744072" and "unat (load64 (ram st1') (t1 + 8)) < 1000000000"
    and "unat (load64 (ram st2') t2) \<le> 18446744072" and "unat (load64 (ram st2') (t2 + 8)) < 1000000000"
  shows "fst (get_clock sys1 t1 st1) \<le> fst (get_clock sys2 t2 st2) \<longleftrightarrow>
    load64 (ram st1') t1 < load64 (ram st2') t2
    \<or> load64 (ram st1') t1 = load64 (ram st2') t2 \<and> load64 (ram st1') (t1 + 8) \<le> load64 (ram st2') (t2 + 8)"
proof -
  obtain v1 where v1: "get_clock sys1 t1 st1 = (v1, st1')"
    "unat v1 = unat (load64 (ram st1') t1) * 1000000000 + unat (load64 (ram st1') (t1 + 8))"
    using get_clock_value [where sys = sys1 and t = t1 and st = st1, OF assms(1,3,4)] by blast
  obtain v2 where v2: "get_clock sys2 t2 st2 = (v2, st2')"
    "unat v2 = unat (load64 (ram st2') t2) * 1000000000 + unat (load64 (ram st2') (t2 + 8))"
    using get_clock_value [where sys = sys2 and t = t2 and st = st2, OF assms(2,5,6)] by blast
  show ?thesis
    unfolding v1(1) v2(1) fst_conv word_le_nat_alt word_less_nat_alt word_unat_eq_iff v1(2) v2(2)
    using assms(4,6) by (rule lex_order)
qed

lemma get_clock_ordered_witness:
  "fst (get_clock (\<lambda>_ st. (0, st\<lparr>ram := store64 (store64 (ram st) 0x100 5) 0x108 999999999\<rparr>)) 0x100
        \<lparr>ram = \<lambda>_. 0, kernel_state = ()\<rparr>)
    \<le> fst (get_clock (\<lambda>_ st. (0, st\<lparr>ram := store64 (store64 (ram st) 0x100 6) 0x108 0\<rparr>)) 0x100
        \<lparr>ram = \<lambda>_. 0, kernel_state = ()\<rparr>)"
  by (subst get_clock_ordered [OF refl refl])
    (simp_all add: load64_store64_apart apart64_def)

text \<open>
  C38. On every kernel that writes as \<open>write(2)\<close> documents, short and failing writes included, the results of
  a program's calls of \<open>putnstr\<close> account for the standard output: it grows by exactly the bytes the results
  count, from the front of each buffer and in the order of the calls; a negative result means that
  nothing was printed, no result exceeds the length of its call, and memory does not change.
\<close>

theorem linux_putnstr_writes:
  assumes "documented_write sys out" and "\<forall>(s, n) \<in> set calls. unat n < 2 ^ 63"
  shows "\<exists>rs st'. put_all sys calls st = (rs, st') \<and> ram st' = ram st
    \<and> list_all2 (\<lambda>(s, n) r. - 4095 \<le> r \<and> r \<le> int (unat n)) calls rs
    \<and> out (kernel_state st') = out (kernel_state st) @ concat (map2 (\<lambda>(s, n) r. bytes_at (ram st) s (nat r)) calls rs)"
  using put_all_prints [OF assms] by (simp only: printed_def)

text \<open>A kernel that writes at most two bytes at a time and does not know other calls.\<close>

definition slow_kernel :: "byte list kernel" where
  "slow_kernel regs st =
     (if regs RAX = Some 1 \<and> regs RDI = Some 1 then
        let r = min 2 (the (regs RDX))
        in (r, st\<lparr>kernel_state := kernel_state st @ bytes_at (ram st) (the (regs RSI)) (unat r)\<rparr>)
      else (- 38, st))"

lemma slow_kernel_documented: "documented_write slow_kernel (\<lambda>k. k)"
  by (simp add: documented_write_def slow_kernel_def Let_def)

lemma linux_putnstr_writes_witness:
  "\<exists>rs st'. put_all slow_kernel [(0x10, 3), (0x20, 1)] \<lparr>ram = \<lambda>_. 65, kernel_state = [9]\<rparr> = (rs, st')
    \<and> list_all2 (\<lambda>(s, n) r. - 4095 \<le> r \<and> r \<le> int (unat (n :: u64))) [(0x10 :: addr, 3), (0x20, 1)] rs
    \<and> kernel_state st' = 9 # concat (map2 (\<lambda>(s, n) r. bytes_at (\<lambda>_. 65) s (nat r)) [(0x10, 3 :: u64), (0x20, 1)] rs)"
  using linux_putnstr_writes [OF slow_kernel_documented, of "[(0x10, 3), (0x20, 1)]" "\<lparr>ram = \<lambda>_. 65, kernel_state = [9]\<rparr>"]
  by auto

end
