(* ===== verification/Errno.thy ===== *)
theory Errno
  imports Malloc_Heap
begin

text \<open>
  \<open>include/errno.h\<close>: the error codes, and what the allocator does to the variable \<open>errno\<close>, a field of
  its heap.
\<close>

section \<open>The codes\<close>

text \<open>The enumeration \<open>errno_t\<close>, in its order.\<close>

definition errno_table :: "(string \<times> int) list" where
  "errno_table =
    [(''EPERM'', 0x01), (''ENOENT'', 0x02), (''ESRCH'', 0x03), (''EINTR'', 0x04),
     (''EIO'', 0x05), (''ENXIO'', 0x06), (''E2BIG'', 0x07), (''ENOEXEC'', 0x08),
     (''EBADF'', 0x09), (''ECHILD'', 0x0a), (''EAGAIN'', 0x0b), (''ENOMEM'', 0x0c),
     (''EACCES'', 0x0d), (''EFAULT'', 0x0e), (''ENOTBLK'', 0x0f), (''EBUSY'', 0x10),
     (''EEXIST'', 0x11), (''EXDEV'', 0x12), (''ENODEV'', 0x13), (''ENOTDIR'', 0x14),
     (''EISDIR'', 0x15), (''EINVAL'', 0x16), (''ENFILE'', 0x17), (''EMFILE'', 0x18),
     (''ENOTTY'', 0x19), (''ETXTBSY'', 0x1a), (''EFBIG'', 0x1b), (''ENOSPC'', 0x1c),
     (''ESPIPE'', 0x1d), (''EROFS'', 0x1e), (''EMLINK'', 0x1f), (''EPIPE'', 0x20),
     (''EDOM'', 0x21), (''ERANGE'', 0x22), (''EDEADLOCK'', 0x23), (''ENAMETOOLONG'', 0x24),
     (''ENOLCK'', 0x25), (''ENOSYS'', 0x26), (''ENOTEMPTY'', 0x27), (''ELOOP'', 0x28),
     (''ENOMSG'', 0x2a), (''EIDRM'', 0x2b), (''ECHRNG'', 0x2c), (''EL2NSYNC'', 0x2d),
     (''EL3HLT'', 0x2e), (''EL3RST'', 0x2f), (''ELNRNG'', 0x30), (''EUNATCH'', 0x31),
     (''ENOCSI'', 0x32), (''EL2HLT'', 0x33), (''EBADE'', 0x34), (''EBADR'', 0x35),
     (''EXFULL'', 0x36), (''ENOANO'', 0x37), (''EBADRQC'', 0x38), (''EBADSLT'', 0x39),
     (''EBFONT'', 0x3b), (''ENOSTR'', 0x3c), (''ENODATA'', 0x3d), (''ETIME'', 0x3e),
     (''ENOSR'', 0x3f), (''ENONET'', 0x40), (''ENOPKG'', 0x41), (''EREMOTE'', 0x42),
     (''ENOLINK'', 0x43), (''EADV'', 0x44), (''ESRMNT'', 0x45), (''ECOMM'', 0x46),
     (''EPROTO'', 0x47), (''EMULTIHOP'', 0x48), (''EDOTDOT'', 0x49), (''EBADMSG'', 0x4a),
     (''EOVERFLOW'', 0x4b), (''ENOTUNIQ'', 0x4c), (''EBADFD'', 0x4d), (''EREMCHG'', 0x4e),
     (''ELIBACC'', 0x4f), (''ELIBBAD'', 0x50), (''ELIBSCN'', 0x51), (''ELIBMAX'', 0x52),
     (''ELIBEXEC'', 0x53), (''EILSEQ'', 0x54), (''ERESTART'', 0x55), (''ESTRPIPE'', 0x56),
     (''EUSERS'', 0x57), (''ENOTSOCK'', 0x58), (''EDESTADDRREQ'', 0x59), (''EMSGSIZE'', 0x5a),
     (''EPROTOTYPE'', 0x5b), (''ENOPROTOOPT'', 0x5c), (''EPROTONOSUPPORT'', 0x5d),
     (''ESOCKTNOSUPPORT'', 0x5e), (''EOPNOTSUPP'', 0x5f), (''EPFNOSUPPORT'', 0x60),
     (''EAFNOSUPPORT'', 0x61), (''EADDRINUSE'', 0x62), (''EADDRNOTAVAIL'', 0x63),
     (''ENETDOWN'', 0x64), (''ENETUNREACH'', 0x65), (''ENETRESET'', 0x66),
     (''ECONNABORTED'', 0x67), (''ECONNRESET'', 0x68), (''ENOBUFS'', 0x69), (''EISCONN'', 0x6a),
     (''ENOTCONN'', 0x6b), (''ESHUTDOWN'', 0x6c), (''ETOOMANYREFS'', 0x6d),
     (''ETIMEDOUT'', 0x6e), (''ECONNREFUSED'', 0x6f), (''EHOSTDOWN'', 0x70),
     (''EHOSTUNREACH'', 0x71), (''EALREADY'', 0x72), (''EINPROGRESS'', 0x73), (''ESTALE'', 0x74),
     (''EUCLEAN'', 0x75), (''ENOTNAM'', 0x76), (''ENAVAIL'', 0x77), (''EISNAM'', 0x78),
     (''EREMOTEIO'', 0x79), (''EDQUOT'', 0x7a), (''ENOMEDIUM'', 0x7b), (''EMEDIUMTYPE'', 0x7c),
     (''ECANCELED'', 0x7d), (''ENOKEY'', 0x7e), (''EKEYEXPIRED'', 0x7f), (''EKEYREVOKED'', 0x80),
     (''EKEYREJECTED'', 0x81), (''EOWNERDEAD'', 0x82), (''ENOTRECOVERABLE'', 0x83),
     (''ERFKILL'', 0x84), (''EHWPOISON'', 0x85), (''EOTHER'', 0x90)]"

text \<open>The code of a name, the two alternative names included.\<close>

definition errno_code :: "string \<Rightarrow> int option" where
  "errno_code name =
     (if name = ''EWOULDBLOCK'' then map_of errno_table ''EAGAIN''
      else if name = ''EDEADLK'' then map_of errno_table ''EDEADLOCK''
      else map_of errno_table name)"

section \<open>The codes are well-formed\<close>

text \<open>The listing is in increasing order, so that no code stands for two names.\<close>

lemma errno_codes_sorted: "sorted_wrt (<) (map snd errno_table)"
proof -
  have "successively (<) (map snd errno_table)" unfolding errno_table_def by simp
  then show ?thesis by (subst (asm) successively_conv_sorted_wrt) (auto intro: transpI)
qed

lemma errno_codes_distinct: "distinct (map snd errno_table)"
  using errno_codes_sorted by (simp add: strict_sorted_iff)

lemma errno_table_bounds: "(name, code) \<in> set errno_table \<Longrightarrow> 0 < code \<and> code < 256"
  unfolding errno_table_def by auto

section \<open>The variable\<close>

text \<open>An operation leaves \<open>errno\<close> alone or reports that memory is exhausted.\<close>

definition errno_kept :: "'e heap \<Rightarrow> 'e heap \<Rightarrow> bool" where
  "errno_kept h h' \<longleftrightarrow> errno h' = errno h \<or> errno h' = ENOMEM"

lemma errno_kept_same [simp]: "errno h' = errno h \<Longrightarrow> errno_kept h h'"
  by (simp add: errno_kept_def)

lemma errno_kept_trans [trans]: "errno_kept h1 h2 \<Longrightarrow> errno_kept h2 h3 \<Longrightarrow> errno_kept h1 h3"
  by (auto simp: errno_kept_def)

lemma errno_kept_cong: "errno h = errno h2 \<Longrightarrow> errno_kept h2 h' \<Longrightarrow> errno_kept h h'"
  by (simp add: errno_kept_def)

lemma aligned_sbrk_errno: "aligned_sbrk sbrk sz h = (p, h') \<Longrightarrow> errno_kept h h'"
  by (auto simp: aligned_sbrk_def errno_kept_def Let_def split: if_splits prod.splits)

lemma right_merge_errno [simp]: "errno (right_merge c p h) = errno h"
  by (simp add: right_merge_def Let_def)

lemma noc_free_errno: "noc_free ptr h = Some h' \<Longrightarrow> errno h' = errno h"
  by (auto simp: noc_free_def Let_def split: if_splits option.splits free_exit.splits bind_splits)

lemma insert_free_chunk_errno: "insert_free_chunk c sz h = Some h' \<Longrightarrow> errno h' = errno h"
  unfolding insert_free_chunk_def by (drule noc_free_errno) simp

lemma chunk_grow_errno:
  assumes "chunk_grow sbrk c n h = Some (b, h')"
  shows "errno_kept h h'"
proof (cases "aligned_sbrk sbrk (if n - chunk_size (memory h) c < MALLOC_MIN_SIZE then MALLOC_MIN_SIZE
    else n - chunk_size (memory h) c) h")
  case (Pair p h1)
  note k = aligned_sbrk_errno [OF Pair]
  show ?thesis
    using assms Pair k
    by (auto simp: chunk_grow_def Let_def errno_kept_def dest: insert_free_chunk_errno
        split: if_splits bind_splits)
qed

lemma noc_malloc_errno: "noc_malloc sbrk n h = Some (p, h') \<Longrightarrow> errno_kept h h'"
  by (auto simp: noc_malloc_def Let_def split: if_splits option.splits bind_splits prod.splits
      dest!: chunk_grow_errno aligned_sbrk_errno intro: errno_kept_trans)

lemma merge_adjacent_errno:
  assumes "merge_adjacent t h l c p e n = Some (h', r)"
  shows "errno h' = errno h"
proof -
  have "case (h', r) of (h', r) \<Rightarrow> errno h' = errno h"
    by (rule merge_adjacent.raw_induct [where P = "\<lambda>t h l c p e n (h', r). errno h' = errno h", OF _ assms])
      (auto simp: Let_def split: if_splits bind_splits prod.splits)
  then show ?thesis by simp
qed

lemma errno_kept_memory [simp]: "errno_kept (h\<lparr>memory := m\<rparr>) h' = errno_kept h h'"
  by (simp add: errno_kept_def)

text \<open>How \<open>noc_realloc\<close> gets the room: by growing the heap or from the neighbours of the chunk.\<close>

lemma realloc_room_errno:
  assumes "(if old < need then do {
        (grown, h) \<leftarrow> chunk_grow sbrk c need h;
        if grown then Some (h, c, p, need) else merge_adjacent t h Head c p e old
      } else Some (h, c, p, old)) = Some (h', c', p', n')"
  shows "errno_kept h h'"
  using assms
  by (auto split: if_splits bind_splits dest!: chunk_grow_errno merge_adjacent_errno
      simp: errno_kept_def)

lemma realloc_finish_errno:
  assumes "(if old \<ge> need then
        let extra = old - need in
        if extra \<ge> MALLOC_MIN_SIZE then do {
          let h = set_size c need h;
          h \<leftarrow> insert_free_chunk (chunk_end (memory h) c) extra h;
          Some (ptr, h)
        }
        else Some (ptr, h)
      else do {
        (new, h) \<leftarrow> noc_malloc sbrk sz h;
        if new \<noteq> 0 then do {
          (m, _) \<leftarrow> memcpy t (memory h) new ptr (chunk_data_size (memory h) c);
          h \<leftarrow> noc_free ptr (h\<lparr>memory := m\<rparr>);
          Some (new, h)
        }
        else Some (new, h)
      }) = Some (p', h')"
  shows "errno_kept h h'"
proof (cases "old \<ge> need")
  case True
  then show ?thesis using assms
    by (auto simp: Let_def split: if_splits bind_splits dest!: insert_free_chunk_errno)
next
  case False
  then obtain new h1 where m: "noc_malloc sbrk sz h = Some (new, h1)"
    using assms by (auto split: bind_splits)
  have "errno h' = errno h1" using assms False m
    by (auto split: if_splits bind_splits dest!: noc_free_errno)
  then show ?thesis using noc_malloc_errno [OF m] by (simp add: errno_kept_def)
qed

lemma noc_realloc_errno:
  assumes "noc_realloc t sbrk ptr sz h = Some (p, h')"
  shows "errno_kept h h'"
proof -
  let ?c = "chunk_from_data ptr"
  consider "ptr = 0" | "ptr \<noteq> 0" "sz = 0" | "ptr \<noteq> 0" "sz \<noteq> 0" "ptr < sbrk_start h \<or> ptr > sbrk_end h"
    | "ptr \<noteq> 0" "sz \<noteq> 0" "\<not> (ptr < sbrk_start h \<or> ptr > sbrk_end h)" "chunk_end (memory h) ?c > sbrk_end h"
    | (in_heap) "ptr \<noteq> 0" "sz \<noteq> 0" "\<not> (ptr < sbrk_start h \<or> ptr > sbrk_end h)"
      "\<not> chunk_end (memory h) ?c > sbrk_end h"
    by argo
  then show ?thesis
  proof cases
    case in_heap
    obtain x where x: "(if chunk_size (memory h) ?c < chunk_size_for_data sz then do {
          (grown, h') \<leftarrow> chunk_grow sbrk ?c (chunk_size_for_data sz) h;
          if grown then Some (h', ?c, ptr, chunk_size_for_data sz)
          else merge_adjacent t h' Head ?c ptr (chunk_end (memory h) ?c) (chunk_size (memory h) ?c)
        } else Some (h, ?c, ptr, chunk_size (memory h) ?c)) = Some x"
      "(case x of (h, chunk, ptr, old_size) \<Rightarrow>
          if old_size \<ge> chunk_size_for_data sz then
            let extra = old_size - chunk_size_for_data sz in
            if extra \<ge> MALLOC_MIN_SIZE then do {
              let h = set_size chunk (chunk_size_for_data sz) h;
              h \<leftarrow> insert_free_chunk (chunk_end (memory h) chunk) extra h;
              Some (ptr, h)
            }
            else Some (ptr, h)
          else do {
            (new, h) \<leftarrow> noc_malloc sbrk sz h;
            if new \<noteq> 0 then do {
              (m, _) \<leftarrow> memcpy t (memory h) new ptr (chunk_data_size (memory h) chunk);
              h \<leftarrow> noc_free ptr (h\<lparr>memory := m\<rparr>);
              Some (new, h)
            }
            else Some (new, h)
          }) = Some (p, h')"
      using assms in_heap
      by (simp only: noc_realloc_def Let_def if_False simp_thms bind_eq_Some_conv) blast
    obtain h1 c1 p1 n1 where "x = (h1, c1, p1, n1)" by (cases x)
    then have "errno_kept h h1" "errno_kept h1 h'"
      using realloc_room_errno [OF x(1) [unfolded \<open>x = _\<close>]] x(2) realloc_finish_errno by simp_all
    then show ?thesis by (rule errno_kept_trans)
  qed (use assms in \<open>auto simp: noc_realloc_def Let_def noc_malloc_errno dest: noc_free_errno split: bind_splits\<close>)
qed

lemma noc_calloc_errno: "noc_calloc sbrk k n h = Some (p, h') \<Longrightarrow> errno_kept h h'"
  by (auto simp: noc_calloc_def Let_def errno_kept_def split: if_splits bind_splits dest!: noc_malloc_errno)

text \<open>The type \<open>errno_t\<close>: a code of the table, or the zero the variable starts with.\<close>

definition errno_typed :: "'e heap \<Rightarrow> bool" where
  "errno_typed h \<longleftrightarrow> errno h = 0 \<or> errno h \<in> snd ` set errno_table"

lemma ENOMEM_code: "errno_code ''ENOMEM'' = Some ENOMEM"
  unfolding errno_code_def errno_table_def ENOMEM_def by code_simp

lemma ENOMEM_typed: "ENOMEM \<in> snd ` set errno_table"
  using ENOMEM_code map_of_SomeD [of errno_table "''ENOMEM''" ENOMEM]
  by (force simp: errno_code_def)

lemma errno_kept_typed: "errno_kept h h' \<Longrightarrow> errno_typed h \<Longrightarrow> errno_typed h'"
  using ENOMEM_typed unfolding errno_kept_def errno_typed_def by (elim disjE) simp_all

lemma errno_typed_init: "errno_typed (heap_init m e)"
  by (simp add: errno_typed_def heap_init_def)

text \<open>
  C16. \<open>errno\<close> always holds a value of its type, zero or one of the pairwise distinct codes of
  \<open>errno.h\<close>, whatever the platform's \<open>sbrk\<close> does: \<open>malloc\<close>, \<open>realloc\<close> and \<open>calloc\<close> store nothing but
  \<open>ENOMEM\<close>, \<open>free\<close> nothing at all.
\<close>

theorem errno_stays_typed:
  assumes "errno_typed h"
  shows "(malloc sbrk n h = Some (p, h') \<longrightarrow> errno_typed h' \<and> errno h' \<in> {errno h, ENOMEM})
    \<and> (realloc t sbrk q n h = Some (p, h') \<longrightarrow> errno_typed h' \<and> errno h' \<in> {errno h, ENOMEM})
    \<and> (calloc sbrk k n h = Some (p, h') \<longrightarrow> errno_typed h' \<and> errno h' \<in> {errno h, ENOMEM})
    \<and> (free q h = Some h' \<longrightarrow> errno_typed h' \<and> errno h' = errno h)
    \<and> distinct (map snd errno_table) \<and> errno_code ''ENOMEM'' = Some ENOMEM"
  using assms errno_kept_typed [of h h'] errno_codes_distinct ENOMEM_code
  by (auto simp: malloc_def realloc_def calloc_def free_def errno_kept_def
      dest: noc_malloc_errno noc_realloc_errno noc_calloc_errno noc_free_errno)

text \<open>A platform without memory: \<open>malloc\<close> fails and reports it.\<close>

lemma errno_stays_typed_witness:
  "malloc (\<lambda>_ e. (SBRK_FAILURE, e)) 100 (heap_init (\<lambda>_. 0) ())
      = Some (0, (heap_init (\<lambda>_. 0) ())\<lparr>errno := ENOMEM\<rparr>)
    \<and> errno_typed ((heap_init (\<lambda>_. 0) ())\<lparr>errno := ENOMEM\<rparr>)"
proof -
  have "malloc (\<lambda>_ e. (SBRK_FAILURE, e)) 100 (heap_init (\<lambda>_. 0) ())
      = Some (0, (heap_init (\<lambda>_. 0) ())\<lparr>errno := ENOMEM\<rparr>)"
    by (simp add: malloc_def noc_malloc_def heap_init_def best_fit.simps deref_def chunk_grow_def
        aligned_sbrk_def chunk_size_for_data_def MALLOC_ALIGN_def INTPTR_MAX_def Let_def)
  moreover note errno_stays_typed [OF errno_typed_init, of "\<lambda>_ e. (SBRK_FAILURE, e)" 100 "\<lambda>_. 0" "()" 0
      "(heap_init (\<lambda>_. 0) ())\<lparr>errno := ENOMEM\<rparr>" undefined 0 0]
  ultimately show ?thesis by simp
qed

end
