(* ===== verification/Floating.thy ===== *)
theory Floating
  imports Noc_Prelude Complex_Main "HOL-Library.Log_Nat"
begin

text \<open>
  The floating-point arithmetic of the target, IEEE 754 binary32 and binary64 with the rounding mode
  a program starts in (to nearest, ties to even): the values, the reading of a bit pattern, the
  operations the library uses, and the error bounds of the rounding.  The sign of a zero is not kept:
  no operation used here (no division) makes a value other than a zero of it.
\<close>

section \<open>Formats and values\<close>

text \<open>
  Significant bits, width of the exponent field, and the exponents of the smallest positive number
  \<open>2 ^ - smallest\<close> and of the overflow threshold \<open>2 ^ largest\<close>.
\<close>

record fp_format =
  digits :: nat
  exp_bits :: nat
  smallest :: nat
  largest :: nat

definition binary32 :: fp_format where
  "binary32 = \<lparr>digits = 24, exp_bits = 8, smallest = 149, largest = 128\<rparr>"

definition binary64 :: fp_format where
  "binary64 = \<lparr>digits = 53, exp_bits = 11, smallest = 1074, largest = 1024\<rparr>"

datatype fp =
    Fin real
  | Infinite bool
  | NaN

text \<open>The value of a bit pattern, read as a natural number.\<close>

definition fp_of_bits :: "fp_format \<Rightarrow> nat \<Rightarrow> fp" where
  "fp_of_bits fmt n =
     (let unit = 2 ^ (digits fmt - 1);
          frac = n mod unit;
          e = n div unit mod 2 ^ exp_bits fmt;
          neg = odd (n div unit div 2 ^ exp_bits fmt)
      in if e = 2 ^ exp_bits fmt - 1 then (if frac = 0 then Infinite neg else NaN)
         else Fin ((if neg then - 1 else 1)
           * (if e = 0 then real frac else real (unit + frac) * 2 ^ (e - 1)) / 2 ^ smallest fmt))"

section \<open>Rounding\<close>

definition round_even :: "real \<Rightarrow> int" where
  "round_even x =
     (let n = \<lfloor>x\<rfloor>; d = x - of_int n
      in if d < 1 / 2 \<or> d = 1 / 2 \<and> even n then n else n + 1)"

definition rounded :: "fp_format \<Rightarrow> real \<Rightarrow> fp" where
  "rounded fmt x =
     (let scaled = x * 2 ^ smallest fmt;
          step = 2 ^ (floorlog 2 (nat \<lfloor>\<bar>scaled\<bar>\<rfloor>) - digits fmt);
          v = of_int (round_even (scaled / step)) * step / 2 ^ smallest fmt
      in if \<bar>v\<bar> < 2 ^ largest fmt then Fin v else Infinite (v < 0))"

definition fp_round :: "fp_format \<Rightarrow> fp \<Rightarrow> fp" where
  "fp_round fmt a = (case a of Fin x \<Rightarrow> rounded fmt x | Infinite s \<Rightarrow> Infinite s | NaN \<Rightarrow> NaN)"

section \<open>Operations\<close>

text \<open>The exact results, before they are rounded.\<close>

fun exact_neg :: "fp \<Rightarrow> fp" where
  "exact_neg (Fin x) = Fin (- x)"
| "exact_neg (Infinite s) = Infinite (\<not> s)"
| "exact_neg NaN = NaN"

fun exact_mul :: "fp \<Rightarrow> fp \<Rightarrow> fp" where
  "exact_mul (Fin x) (Fin y) = Fin (x * y)"
| "exact_mul (Infinite s) (Fin y) = (if y = 0 then NaN else Infinite (s \<noteq> (y < 0)))"
| "exact_mul (Fin x) (Infinite t) = (if x = 0 then NaN else Infinite (t \<noteq> (x < 0)))"
| "exact_mul (Infinite s) (Infinite t) = Infinite (s \<noteq> t)"
| "exact_mul NaN b = NaN"
| "exact_mul a NaN = NaN"

fun exact_add :: "fp \<Rightarrow> fp \<Rightarrow> fp" where
  "exact_add (Fin x) (Fin y) = Fin (x + y)"
| "exact_add (Infinite s) (Fin y) = Infinite s"
| "exact_add (Fin x) (Infinite t) = Infinite t"
| "exact_add (Infinite s) (Infinite t) = (if s = t then Infinite s else NaN)"
| "exact_add NaN b = NaN"
| "exact_add a NaN = NaN"

definition fp_mul :: "fp_format \<Rightarrow> fp \<Rightarrow> fp \<Rightarrow> fp" where
  "fp_mul fmt a b = fp_round fmt (exact_mul a b)"

definition fp_add :: "fp_format \<Rightarrow> fp \<Rightarrow> fp \<Rightarrow> fp" where
  "fp_add fmt a b = fp_round fmt (exact_add a b)"

definition fp_sub :: "fp_format \<Rightarrow> fp \<Rightarrow> fp \<Rightarrow> fp" where
  "fp_sub fmt a b = fp_round fmt (exact_add a (exact_neg b))"

text \<open>
  C lets a compiler contract \<open>a * b + c\<close> and \<open>c - a * b\<close> within one expression into a fused
  multiply-add, which rounds once; the Makefile's \<open>-march=native\<close> makes that depend on the machine.
  \<open>fused\<close> says which of the two it is.
\<close>

definition fp_mul_add :: "bool \<Rightarrow> fp_format \<Rightarrow> fp \<Rightarrow> fp \<Rightarrow> fp \<Rightarrow> fp" where
  "fp_mul_add fused fmt a b c =
     fp_add fmt (if fused then exact_mul a b else fp_mul fmt a b) c"

definition fp_sub_mul :: "bool \<Rightarrow> fp_format \<Rightarrow> fp \<Rightarrow> fp \<Rightarrow> fp \<Rightarrow> fp" where
  "fp_sub_mul fused fmt c a b =
     fp_sub fmt c (if fused then exact_mul a b else fp_mul fmt a b)"

section \<open>Reading a bit pattern\<close>

lemma fp_of_bits_normal:
  assumes "digits fmt = Suc p" and "1 \<le> e" and "e < 2 ^ exp_bits fmt - 1" and "f < 2 ^ p"
  shows "fp_of_bits fmt (e * 2 ^ p + f) = Fin (real (2 ^ p + f) * 2 ^ (e - 1) / 2 ^ smallest fmt)"
proof -
  have "(e * 2 ^ p + f) div 2 ^ p = e" and "(e * 2 ^ p + f) mod 2 ^ p = f"
    using assms(4) by simp_all
  moreover have "e < 2 ^ exp_bits fmt" using assms(3) by linarith
  ultimately show ?thesis using assms(1,2,3) by (simp add: fp_of_bits_def Let_def)
qed

section \<open>Error bounds of the rounding\<close>

lemma round_even_error: "\<bar>of_int (round_even x) - x\<bar> \<le> 1 / 2"
proof -
  have "of_int \<lfloor>x\<rfloor> \<le> x" and "x < of_int \<lfloor>x\<rfloor> + 1" by linarith+
  then show ?thesis by (auto simp: round_even_def Let_def)
qed

lemma round_even_of_int [simp]: "round_even (of_int n) = n"
  by (simp add: round_even_def)

lemma round_even_of_nat [simp]: "round_even (of_nat n) = int n"
  using round_even_of_int [of "int n"] by simp

text \<open>The value \<open>rounded\<close> makes of \<open>x\<close> when it does not overflow.\<close>

definition nearest :: "nat \<Rightarrow> nat \<Rightarrow> real \<Rightarrow> real" where
  "nearest p q x =
     (let scaled = x * 2 ^ q; step = 2 ^ (floorlog 2 (nat \<lfloor>\<bar>scaled\<bar>\<rfloor>) - p)
      in of_int (round_even (scaled / step)) * step / 2 ^ q)"

lemma rounded_nearest:
  "rounded fmt x = (let v = nearest (digits fmt) (smallest fmt) x
     in if \<bar>v\<bar> < 2 ^ largest fmt then Fin v else Infinite (v < 0))"
  by (simp add: rounded_def nearest_def Let_def)

lemma nearest_error_step:
  "\<bar>nearest p q x - x\<bar> \<le> 2 ^ (floorlog 2 (nat \<lfloor>\<bar>x * 2 ^ q\<bar>\<rfloor>) - p) / 2 / 2 ^ q"
proof -
  define s :: real where "s = 2 ^ (floorlog 2 (nat \<lfloor>\<bar>x * 2 ^ q\<bar>\<rfloor>) - p)"
  have s: "0 < s" by (simp add: s_def)
  have eq: "nearest p q x - x = (of_int (round_even (x * 2 ^ q / s)) - x * 2 ^ q / s) * (s / 2 ^ q)"
    using s by (simp add: nearest_def Let_def s_def [symmetric] field_simps)
  have "\<bar>nearest p q x - x\<bar>
    = \<bar>of_int (round_even (x * 2 ^ q / s)) - x * 2 ^ q / s\<bar> * (s / 2 ^ q)"
    unfolding eq abs_mult using s by simp
  also have "\<dots> \<le> 1 / 2 * (s / 2 ^ q)"
    using s by (intro mult_right_mono round_even_error) simp
  finally show ?thesis by (simp add: s_def)
qed

lemma floorlog_step:
  assumes "p < floorlog 2 (nat \<lfloor>\<bar>y\<bar>\<rfloor>)"
  shows "2 ^ (floorlog 2 (nat \<lfloor>\<bar>y\<bar>\<rfloor>) - p) * 2 ^ p \<le> 2 * \<bar>y :: real\<bar>"
proof -
  let ?n = "nat \<lfloor>\<bar>y\<bar>\<rfloor>"
  have "?n \<noteq> 0" using assms by (auto simp: floorlog_def)
  then have "2 ^ (floorlog 2 ?n - 1) \<le> ?n" using floorlog_bounds [of ?n 2] by simp
  then have "real (2 ^ (floorlog 2 ?n - 1)) \<le> real ?n" by (simp only: of_nat_le_iff)
  also have "\<dots> \<le> \<bar>y\<bar>" by simp
  finally have "2 * 2 ^ (floorlog 2 ?n - 1) \<le> 2 * \<bar>y\<bar>" by simp
  moreover have "(2 :: real) * 2 ^ (floorlog 2 ?n - 1) = 2 ^ (floorlog 2 ?n - p) * 2 ^ p"
    using assms by (simp add: power_add [symmetric] power_Suc [symmetric])
  ultimately show ?thesis by simp
qed

lemma nearest_error:
  assumes "0 < p"
  shows "\<bar>nearest p q x - x\<bar> \<le> max (\<bar>x\<bar> / 2 ^ p) (1 / 2 ^ Suc q)"
proof (cases "p < floorlog 2 (nat \<lfloor>\<bar>x * 2 ^ q\<bar>\<rfloor>)")
  case True
  have "2 ^ (floorlog 2 (nat \<lfloor>\<bar>x * 2 ^ q\<bar>\<rfloor>) - p) * 2 ^ p \<le> 2 * (\<bar>x\<bar> * 2 ^ q)"
    using floorlog_step [OF True] by (simp add: abs_mult)
  then have "2 ^ (floorlog 2 (nat \<lfloor>\<bar>x * 2 ^ q\<bar>\<rfloor>) - p) / 2 / 2 ^ q \<le> \<bar>x\<bar> / 2 ^ p"
    by (simp add: field_simps)
  then show ?thesis using nearest_error_step [of p q x] by linarith
next
  case False
  then show ?thesis using nearest_error_step [of p q x] by simp
qed

lemma rounded_error:
  assumes "0 < digits fmt" and "0 < largest fmt" and x: "\<bar>x\<bar> < 2 ^ (largest fmt - 1)"
  shows "rounded fmt x = Fin (nearest (digits fmt) (smallest fmt) x)"
    and "\<bar>nearest (digits fmt) (smallest fmt) x - x\<bar>
      \<le> max (\<bar>x\<bar> / 2 ^ digits fmt) (1 / 2 ^ Suc (smallest fmt))"
proof -
  let ?v = "nearest (digits fmt) (smallest fmt) x"
  show err: "\<bar>?v - x\<bar> \<le> max (\<bar>x\<bar> / 2 ^ digits fmt) (1 / 2 ^ Suc (smallest fmt))"
    using assms(1) by (rule nearest_error)
  have "(2 :: real) ^ 1 \<le> 2 ^ digits fmt" "(2 :: real) ^ 1 \<le> 2 ^ Suc (smallest fmt)"
    using assms(1) by (intro power_increasing; simp)+
  then have "\<bar>x\<bar> / 2 ^ digits fmt \<le> \<bar>x\<bar> / 2" "(1 :: real) / 2 ^ Suc (smallest fmt) \<le> 1 / 2"
    by (intro divide_left_mono mult_pos_pos; simp)+
  moreover have "(2 :: real) ^ largest fmt = 2 * 2 ^ (largest fmt - 1)"
    using assms(2) by (cases "largest fmt") simp_all
  moreover have "(1 :: real) \<le> 2 ^ (largest fmt - 1)" by simp
  ultimately have "\<bar>?v\<bar> < 2 ^ largest fmt" using err x by linarith
  then show "rounded fmt x = Fin ?v" by (simp add: rounded_nearest)
qed

lemma rounded_error_sum:
  assumes "0 < digits fmt" and "0 < largest fmt" and "\<bar>x\<bar> < 2 ^ (largest fmt - 1)"
  shows "\<exists>v. rounded fmt x = Fin v \<and> \<bar>v - x\<bar> \<le> 1 / 2 ^ digits fmt * \<bar>x\<bar> + 1 / 2 ^ Suc (smallest fmt)"
proof -
  have "max (\<bar>x\<bar> / 2 ^ digits fmt) (1 / 2 ^ Suc (smallest fmt))
      \<le> 1 / 2 ^ digits fmt * \<bar>x\<bar> + 1 / 2 ^ Suc (smallest fmt)" by simp
  then show ?thesis using rounded_error [OF assms] by (meson order_trans)
qed

lemma binary32_sel:
  "0 < digits binary32" "0 < largest binary32" "largest binary32 - 1 = 127" "digits binary32 = 24"
  "Suc (smallest binary32) = 150"
  by (simp_all add: binary32_def)

lemma binary64_sel:
  "0 < digits binary64" "0 < largest binary64" "largest binary64 - 1 = 1023" "digits binary64 = 53"
  "Suc (smallest binary64) = 1075"
  by (simp_all add: binary64_def)

section \<open>Numbers that rounding keeps\<close>

definition representable :: "nat \<Rightarrow> nat \<Rightarrow> real \<Rightarrow> bool" where
  "representable p q x = (\<exists>k j. x = real k * 2 ^ j / 2 ^ q \<and> k < 2 ^ p)"

lemma representableI: "x = real k * 2 ^ j / 2 ^ q \<Longrightarrow> k < 2 ^ p \<Longrightarrow> representable p q x"
  unfolding representable_def by blast

lemma floorlog_shift_le: "k < 2 ^ p \<Longrightarrow> floorlog 2 (k * 2 ^ j) \<le> p + j"
  by (rule floorlog_leI) (simp_all add: power_add)

lemma nearest_representable:
  assumes "representable p q x"
  shows "nearest p q x = x"
proof -
  obtain k j where x: "x = real k * 2 ^ j / 2 ^ q" and k: "k < 2 ^ p"
    using assms by (auto simp: representable_def)
  define d where "d = floorlog 2 (k * 2 ^ j) - p"
  have "d \<le> j" using floorlog_shift_le [OF k, of j] by (simp add: d_def)
  then have split: "(2 :: real) ^ j = 2 ^ (j - d) * 2 ^ d" by (simp flip: power_add)
  have "x * 2 ^ q = real (k * 2 ^ j)" by (simp add: x)
  then have "nearest p q x = of_int (round_even (real (k * 2 ^ j) / 2 ^ d)) * 2 ^ d / 2 ^ q"
    by (simp add: nearest_def Let_def d_def del: of_nat_mult)
  also have "real (k * 2 ^ j) / 2 ^ d = real (k * 2 ^ (j - d))" by (simp add: split)
  also have "of_int (round_even (real (k * 2 ^ (j - d)))) = real (k * 2 ^ (j - d))"
    by (simp only: round_even_of_nat of_int_of_nat_eq)
  also have "real (k * 2 ^ (j - d)) * 2 ^ d / 2 ^ q = x" by (simp add: x split)
  finally show ?thesis .
qed

lemma round_even_nonneg: "0 \<le> x \<Longrightarrow> 0 \<le> round_even x"
  by (simp add: round_even_def Let_def)

lemma round_even_le: "x \<le> of_int n \<Longrightarrow> round_even x \<le> n"
proof -
  assume x: "x \<le> of_int n"
  then have "\<lfloor>x\<rfloor> \<le> n" by (simp add: floor_le_iff)
  moreover have "x - of_int \<lfloor>x\<rfloor> \<le> 0" if "\<lfloor>x\<rfloor> = n" using x that by simp
  ultimately show "round_even x \<le> n" by (cases "\<lfloor>x\<rfloor> = n") (simp_all add: round_even_def Let_def)
qed

lemma representable_nearest:
  assumes "0 < p" and "0 \<le> x"
  shows "representable p q (nearest p q x)"
proof -
  let ?n = "nat \<lfloor>\<bar>x * 2 ^ q\<bar>\<rfloor>"
  define d where "d = floorlog 2 ?n - p"
  define k where "k = nat (round_even (x * 2 ^ q / 2 ^ d))"
  have pos: "0 \<le> round_even (x * 2 ^ q / 2 ^ d)" using assms by (intro round_even_nonneg) simp
  have v: "nearest p q x = real k * 2 ^ d / 2 ^ q"
    using pos by (simp add: nearest_def Let_def d_def k_def)
  have "?n < 2 ^ (p + d)"
  proof (rule floorlog_leD)
    show "floorlog 2 ?n \<le> p + d" by (simp add: d_def)
  qed simp_all
  then have "Suc ?n \<le> 2 ^ (p + d)" by (rule Suc_leI)
  then have "real (Suc ?n) \<le> real (2 ^ (p + d))" by (simp only: of_nat_le_iff)
  moreover have "x * 2 ^ q \<le> real (Suc ?n)" using assms by simp linarith
  ultimately have "x * 2 ^ q \<le> 2 ^ (p + d)" by simp
  then have "x * 2 ^ q / 2 ^ d \<le> of_int (2 ^ p)" by (simp add: power_add field_simps)
  then have "k \<le> 2 ^ p" by (simp add: k_def round_even_le nat_le_iff)
  then consider "k < 2 ^ p" | "k = 2 ^ p" by linarith
  then show ?thesis
  proof cases
    case 1
    then show ?thesis using v by (auto simp: representable_def)
  next
    case 2
    then have "nearest p q x = real (2 ^ (p - 1)) * 2 ^ Suc d / 2 ^ q"
      using v assms(1) by (cases p) simp_all
    moreover have "(2 :: nat) ^ (p - 1) < 2 ^ p" using assms(1) by simp
    ultimately show ?thesis unfolding representable_def by blast
  qed
qed

lemma rounded_double:
  assumes "0 < digits fmt" and "0 < largest fmt" and "rounded fmt x = Fin v" and "0 \<le> x"
    and "\<bar>v\<bar> < 2 ^ (largest fmt - 1)"
  shows "rounded fmt (2 * v) = Fin (2 * v)"
proof -
  have "v = nearest (digits fmt) (smallest fmt) x"
    using assms(3) by (simp add: rounded_nearest Let_def split: if_splits)
  then have "representable (digits fmt) (smallest fmt) v"
    using representable_nearest assms(1,4) by simp
  then obtain k j where "v = real k * 2 ^ j / 2 ^ smallest fmt" "k < 2 ^ digits fmt"
    by (auto simp: representable_def)
  then have "representable (digits fmt) (smallest fmt) (2 * v)"
    unfolding representable_def by (intro exI [of _ k] exI [of _ "Suc j"]) simp
  then have "nearest (digits fmt) (smallest fmt) (2 * v) = 2 * v" by (rule nearest_representable)
  moreover have "(2 :: real) ^ largest fmt = 2 * 2 ^ (largest fmt - 1)"
    using assms(2) by (cases "largest fmt") simp_all
  ultimately show ?thesis using assms(5) by (simp add: rounded_nearest Let_def abs_mult)
qed

end
