(* ===== verification/Sqrt_Approx.thy ===== *)
theory Sqrt_Approx
  imports Noc_Prelude Complex_Main
begin

text \<open>
  The real analysis behind \<open>src/math/sqrt.c\<close>: how far the first guess from the exponent trick is
  from the inverse square root, and what the iterations make of it.  With \<open>c = x * y * y\<close> for a guess
  \<open>y\<close>, the first step multiplies \<open>y\<close> by \<open>k1 - c * (k2 - c)\<close>.
\<close>

section \<open>The first iteration\<close>

definition gain :: "real \<Rightarrow> real" where
  "gain c = 2.2825186 - c * (2.2533049 - c)"

text \<open>Bounds of a polynomial in Horner form around a point.\<close>

lemma horner_step: "\<bar>d\<bar> \<le> (h :: real) \<Longrightarrow> \<bar>b\<bar> \<le> B \<Longrightarrow> \<bar>a + d * b\<bar> \<le> \<bar>a\<bar> + h * B"
  by (rule order_trans [OF abs_triangle_ineq]) (simp add: abs_mult mult_mono)

lemma gain_around:
  fixes c m :: real
  defines "A \<equiv> 2.2825186" and "B \<equiv> 2.2533049"
  defines "q0 \<equiv> A - B * m + m * m" and "q1 \<equiv> 2 * m - B"
  assumes "\<bar>c - m\<bar> \<le> h"
  shows "\<bar>c * (gain c)\<^sup>2 - 1\<bar> \<le> \<bar>m * q0 * q0 - 1\<bar> + h * (\<bar>q0 * q0 + 2 * m * q0 * q1\<bar>
    + h * (\<bar>2 * q0 * q1 + m * (q1 * q1 + 2 * q0)\<bar> + h * (\<bar>q1 * q1 + 2 * q0 + 2 * m * q1\<bar>
    + h * (\<bar>2 * q1 + m\<bar> + h * 1))))"
proof -
  define d where "d = c - m"
  have d: "\<bar>d\<bar> \<le> h" "c = m + d" using assms by (simp_all add: d_def)
  have g: "gain c = q0 + d * (q1 + d)" by (simp add: gain_def q0_def q1_def A_def B_def d(2) algebra_simps)
  have "c * (gain c)\<^sup>2 - 1 = (m * q0 * q0 - 1) + d * ((q0 * q0 + 2 * m * q0 * q1)
      + d * ((2 * q0 * q1 + m * (q1 * q1 + 2 * q0)) + d * ((q1 * q1 + 2 * q0 + 2 * m * q1)
      + d * ((2 * q1 + m) + d * 1))))"
    unfolding g by (simp add: d(2) power2_eq_square algebra_simps)
  then show ?thesis by (simp only:) (intro horner_step d(1), simp)
qed

lemma gain_bound:
  assumes "0.6332 \<le> c" and "c \<le> 0.7193"
  shows "\<bar>c * (gain c)\<^sup>2 - 1\<bar> \<le> 0.00006"
proof -
  consider "\<bar>c - 0.6404\<bar> \<le> 0.0072" | "\<bar>c - 0.6548\<bar> \<le> 0.0072" | "\<bar>c - 0.6692\<bar> \<le> 0.0072"
    | "\<bar>c - 0.6836\<bar> \<le> 0.0072" | "\<bar>c - 0.6980\<bar> \<le> 0.0072" | "\<bar>c - 0.7124\<bar> \<le> 0.0072"
    using assms by argo
  then show ?thesis by cases (rule order_trans [OF gain_around], assumption, simp)+
qed

lemma gain_root:
  assumes "0.6332 \<le> p\<^sup>2" and "p\<^sup>2 \<le> 0.7193" and "0 < p"
  shows "\<bar>p * gain (p\<^sup>2) - 1\<bar> \<le> 0.000031"
proof -
  define z where "z = p * gain (p\<^sup>2)"
  have "gain (p\<^sup>2) \<ge> 2.2825186 - 0.7193 * (2.2533049 - 0.6332)"
    unfolding gain_def using assms(1,2) by (intro diff_mono mult_mono) auto
  then have z0: "0 < z" using assms(3) by (simp add: z_def)
  have "z\<^sup>2 = p\<^sup>2 * (gain (p\<^sup>2))\<^sup>2" by (simp add: z_def power_mult_distrib)
  then have z: "\<bar>z\<^sup>2 - 1\<bar> \<le> 0.00006" using gain_bound [OF assms(1,2)] by simp
  have "0.999 < z"
  proof (rule ccontr)
    assume "\<not> 0.999 < z"
    then have "z\<^sup>2 \<le> 0.999\<^sup>2" using z0 by (intro power_mono) auto
    then show False using z by (simp add: power2_eq_square)
  qed
  moreover have "\<bar>z - 1\<bar> * (z + 1) = \<bar>z\<^sup>2 - 1\<bar>"
  proof -
    have "z\<^sup>2 - 1 = (z - 1) * (z + 1)" by (simp add: power2_eq_square algebra_simps)
    then show ?thesis using z0 by (simp add: abs_mult)
  qed
  moreover from \<open>0.999 < z\<close> have "\<bar>z - 1\<bar> * 1.999 \<le> \<bar>z - 1\<bar> * (z + 1)"
    by (intro mult_left_mono) simp_all
  ultimately have "\<bar>z - 1\<bar> * 1.999 \<le> 0.00006" using z by linarith
  then have "\<bar>z - 1\<bar> \<le> 0.000031" by (simp add: field_simps)
  then show ?thesis by (simp add: z_def)
qed

section \<open>The first guess\<close>

lemma cubic_upper:
  fixes a b :: real
  assumes "0 \<le> a" and "0 \<le> b" and "a + 2 * b \<le> 3 * t"
  shows "a * b\<^sup>2 \<le> t ^ 3"
proof -
  define u where "u = (a + 2 * b) / 3"
  have "0 \<le> (u - b)\<^sup>2 * (u + 2 * b)" using assms by (simp add: u_def)
  also have "\<dots> = u ^ 3 - (3 * u - 2 * b) * b\<^sup>2"
    by (simp add: power2_eq_square power3_eq_cube algebra_simps)
  also have "3 * u - 2 * b = a" by (simp add: u_def field_simps)
  finally have "a * b\<^sup>2 \<le> u ^ 3" by simp
  also have "u ^ 3 \<le> t ^ 3" using assms by (intro power_mono) (auto simp: u_def)
  finally show ?thesis .
qed

lemma cubic_lower:
  fixes m K :: real
  defines "f \<equiv> \<lambda>m. (1 + m) * (K - m / 2)\<^sup>2"
  assumes "m0 \<le> m" and "m \<le> m1" and "m0 < m1" and "m + m0 + m1 \<le> 4 * K - 1"
    and "L \<le> f m0" and "L \<le> f m1"
  shows "L \<le> f m"
proof -
  have "0 \<le> (m - m0) * (m1 - m) * (K - 1 / 4 - (m + m0 + m1) / 4) * (m1 - m0)"
    using assms by (intro mult_nonneg_nonneg) auto
  also have "\<dots> = (m1 - m0) * f m - (m1 - m) * f m0 - (m - m0) * f m1"
    unfolding f_def by (simp add: power2_eq_square field_simps)
  finally have "(m1 - m) * f m0 + (m - m0) * f m1 \<le> (m1 - m0) * f m" by simp
  moreover have "(m1 - m) * L \<le> (m1 - m) * f m0" "(m - m0) * L \<le> (m - m0) * f m1"
    using assms by (auto intro: mult_left_mono)
  moreover have "(m1 - m0) * L = (m1 - m) * L + (m - m0) * L" by (simp add: left_diff_distrib)
  ultimately have "(m1 - m0) * L \<le> (m1 - m0) * f m" by linarith
  then show ?thesis using assms(4) by simp
qed

text \<open>
  The mantissa of the guess is that of the magic constant, \<open>r\<close>, less half of the argument's, \<open>m\<close>,
  with or without a borrow from the exponent.
\<close>

lemma guess_bound:
  fixes m h r :: real
  assumes m: "0 \<le> m" "m < 1" and h: "m / 2 - 0.0000001 \<le> h" "h \<le> m / 2"
    and r: "0.13331 \<le> r" "r \<le> 0.13333"
  shows "0.6332 \<le> (1 + m) * (3 / 2 + r - h)\<^sup>2 / 4 \<and> (1 + m) * (3 / 2 + r - h)\<^sup>2 / 4 \<le> 0.7193"
    and "h \<le> r \<Longrightarrow> 0.6332 \<le> (1 + m) * (1 + r - h)\<^sup>2 / 2 \<and> (1 + m) * (1 + r - h)\<^sup>2 / 2 \<le> 0.7193"
    and "r < h \<Longrightarrow> 0.6332 \<le> (1 + m) * (2 + r - h)\<^sup>2 / 8 \<and> (1 + m) * (2 + r - h)\<^sup>2 / 8 \<le> 0.7193"
proof -
  have low: "(1 + m) * (K - m / 2)\<^sup>2 \<le> (1 + m) * (k + r - h)\<^sup>2" if K: "K = k + 0.13331" "1 \<le> k" for K k
  proof (intro mult_left_mono power_mono)
    show "K - m / 2 \<le> k + r - h" "0 \<le> K - m / 2" "0 \<le> 1 + m" using K m h r by linarith+
  qed
  have up: "(1 + m) * (k + r - h)\<^sup>2 \<le> t ^ 3" if k: "1 \<le> k" "1 + 2 * (k + 0.1333301) \<le> 3 * t" for k t
  proof (rule cubic_upper)
    show "0 \<le> 1 + m" using m by simp
    show "0 \<le> k + r - h" using k m h r by linarith
    show "1 + m + 2 * (k + r - h) \<le> 3 * t" using k h r by (simp add: field_simps)
  qed
  have "2.5328 \<le> (1 + m) * (1.63331 - m / 2)\<^sup>2"
    by (rule cubic_lower [of 0 m 1 "1.63331"]) (use m in \<open>simp_all add: power2_eq_square\<close>)
  then show "0.6332 \<le> (1 + m) * (3 / 2 + r - h)\<^sup>2 / 4 \<and> (1 + m) * (3 / 2 + r - h)\<^sup>2 / 4 \<le> 0.7193"
    using low [of "1.63331" "3 / 2"] up [of "3 / 2" "1.42223"] by (simp add: power3_eq_cube)
  {
    assume "h \<le> r"
    then have "m \<le> 0.26667" using h r by simp
    then have "1.2664 \<le> (1 + m) * (1.13331 - m / 2)\<^sup>2"
      by (intro cubic_lower [of 0 m "0.26667" "1.13331"]) (use m in \<open>simp_all add: power2_eq_square\<close>)
    then show "0.6332 \<le> (1 + m) * (1 + r - h)\<^sup>2 / 2 \<and> (1 + m) * (1 + r - h)\<^sup>2 / 2 \<le> 0.7193"
      using low [of "1.13331" 1] up [of 1 "1.0889"] by (simp add: power3_eq_cube)
  next
    assume "r < h"
    then have "0.26662 \<le> m" using h r by simp
    then have "5.0656 \<le> (1 + m) * (2.13331 - m / 2)\<^sup>2"
      by (intro cubic_lower [of "0.26662" m 1 "2.13331"]) (use m in \<open>simp_all add: power2_eq_square\<close>)
    then show "0.6332 \<le> (1 + m) * (2 + r - h)\<^sup>2 / 8 \<and> (1 + m) * (2 + r - h)\<^sup>2 / 8 \<le> 0.7193"
      using low [of "2.13331" 2] up [of 2 "1.7556"] by (simp add: power3_eq_cube)
  }
qed

section \<open>Rounded steps\<close>

text \<open>
  \<open>near u z w\<close>: \<open>w\<close> is \<open>z\<close> rounded with relative error \<open>u\<close>, with room for the absolute error of a
  subnormal result.
\<close>

definition near :: "real \<Rightarrow> real \<Rightarrow> real \<Rightarrow> bool" where
  "near u z w = (\<bar>w - z\<bar> \<le> u * (\<bar>z\<bar> + 0.000001))"

lemma near_dist: "near u z w \<Longrightarrow> 0 \<le> u \<Longrightarrow> \<bar>z\<bar> \<le> b \<Longrightarrow> \<bar>w - z\<bar> \<le> u * (b + 0.000001)"
  unfolding near_def by (erule order_trans) (intro mult_left_mono; simp)

lemma mult_dist:
  fixes a b c d :: real
  assumes "\<bar>a - c\<bar> \<le> e" and "\<bar>b - d\<bar> \<le> f" and "\<bar>b\<bar> \<le> B" and "\<bar>c\<bar> \<le> C"
  shows "\<bar>a * b - c * d\<bar> \<le> e * B + C * f"
proof -
  have "a * b - c * d = (a - c) * b + c * (b - d)" by (simp add: algebra_simps)
  then have "\<bar>a * b - c * d\<bar> \<le> \<bar>a - c\<bar> * \<bar>b\<bar> + \<bar>c\<bar> * \<bar>b - d\<bar>"
    by (metis abs_mult abs_triangle_ineq)
  also have "\<dots> \<le> e * B + C * f" using assms by (intro add_mono mult_mono) auto
  finally show ?thesis .
qed

lemma abs_mult_le: "\<bar>a\<bar> \<le> A \<Longrightarrow> \<bar>b\<bar> \<le> B \<Longrightarrow> A * B \<le> C \<Longrightarrow> \<bar>a * b :: real\<bar> \<le> C"
  unfolding abs_mult by (rule order_trans [OF mult_mono]) auto

lemma dist_trans: "\<bar>x - y\<bar> \<le> a \<Longrightarrow> \<bar>y - z\<bar> \<le> b \<Longrightarrow> a + b \<le> c \<Longrightarrow> \<bar>x - z :: real\<bar> \<le> c"
  by linarith

lemma diff_dist: "\<bar>a - c\<bar> \<le> e \<Longrightarrow> \<bar>b - d\<bar> \<le> f \<Longrightarrow> e + f \<le> g \<Longrightarrow> \<bar>(a - b) - (c - d) :: real\<bar> \<le> g"
  by linarith

lemma diff_le: "\<bar>a\<bar> \<le> A \<Longrightarrow> \<bar>b\<bar> \<le> B \<Longrightarrow> A + B \<le> C \<Longrightarrow> \<bar>a - b :: real\<bar> \<le> C"
  by linarith

lemma near_le: "\<bar>x - y\<bar> \<le> e \<Longrightarrow> \<bar>y\<bar> + e \<le> b \<Longrightarrow> \<bar>x :: real\<bar> \<le> b"
  by linarith

text \<open>A rounded step adds its error to the one its operand brings.\<close>

lemma near_step:
  assumes "near u z w" and "0 \<le> u" and "u \<le> U" and "\<bar>z - z0\<bar> \<le> e" and "\<bar>z\<bar> \<le> b"
    and "e + U * (b + 0.000001) \<le> f"
  shows "\<bar>w - z0\<bar> \<le> f"
proof -
  have "\<bar>w - z\<bar> \<le> u * (b + 0.000001)" using near_dist assms by blast
  also have "\<dots> \<le> U * (b + 0.000001)" using assms by (intro mult_right_mono) auto
  finally show ?thesis using assms by linarith
qed

lemma first_step_error:
  assumes u: "0 \<le> u" "u \<le> 0.00000006"
    and p: "0 < p" "0.6332 \<le> p\<^sup>2" "p\<^sup>2 \<le> 0.7193"
    and k: "\<bar>k1 - 2.2825186\<bar> \<le> 0.0000002" "\<bar>k2 - 2.2533049\<bar> \<le> 0.0000002"
    and ops: "near u p a" "near u (a * p) c" "near u (k2 - c) d" "near u (c * d) q"
      "near u (k1 - q) g" "near u (p * g) v"
  shows "\<bar>v - 1\<bar> \<le> 0.000033"
proof -
  have pb: "\<bar>p\<bar> \<le> 0.85"
  proof (rule ccontr)
    assume "\<not> \<bar>p\<bar> \<le> 0.85"
    then have "0.85\<^sup>2 < p\<^sup>2" using p(1) by (intro power_strict_mono) auto
    then show False using p(3) by (simp add: power2_eq_square)
  qed
  have a: "\<bar>a - p\<bar> \<le> 0.00000006"
    by (rule near_step [OF ops(1) u, where e = 0 and b = "0.85"]) (use pb in simp_all)
  have ap: "\<bar>a * p - p\<^sup>2\<bar> \<le> 0.00000006"
    using mult_dist [OF a, of p p 0 "0.85" "0.85"] pb by (simp add: power2_eq_square)
  have ap': "\<bar>a * p\<bar> \<le> 0.72" by (rule near_le [OF ap]) (use p in simp_all)
  have c: "\<bar>c - p\<^sup>2\<bar> \<le> 0.00000012"
    by (rule near_step [OF ops(2) u ap ap']) simp
  have c': "\<bar>c\<bar> \<le> 0.72" by (rule near_le [OF c]) (use p in simp_all)
  have kc: "\<bar>(k2 - c) - (2.2533049 - p\<^sup>2)\<bar> \<le> 0.00000032"
    by (rule diff_dist [OF k(2) c]) simp
  have kc': "\<bar>k2 - c\<bar> \<le> 1.7" by (rule near_le [OF kc]) (use p in simp)
  have d: "\<bar>d - (2.2533049 - p\<^sup>2)\<bar> \<le> 0.00000045"
    by (rule near_step [OF ops(3) u kc kc']) simp
  have d': "\<bar>d\<bar> \<le> 1.7" by (rule near_le [OF d]) (use p in simp)
  have cd: "\<bar>c * d - p\<^sup>2 * (2.2533049 - p\<^sup>2)\<bar> \<le> 0.00000055"
    by (rule order_trans [OF mult_dist [OF c d d', of "0.72"]]) (use p in simp_all)
  have cd': "\<bar>c * d\<bar> \<le> 1.3" by (rule abs_mult_le [OF c' d']) simp
  have q: "\<bar>q - p\<^sup>2 * (2.2533049 - p\<^sup>2)\<bar> \<le> 0.00000065"
    by (rule near_step [OF ops(4) u cd cd']) simp
  have pp: "0 \<le> p\<^sup>2 * (2.2533049 - p\<^sup>2)" "p\<^sup>2 * (2.2533049 - p\<^sup>2) \<le> 0.72 * 1.7"
    using p by (simp, intro mult_mono) simp_all
  have kq: "\<bar>(k1 - q) - gain (p\<^sup>2)\<bar> \<le> 0.00000085"
    unfolding gain_def by (rule diff_dist [OF k(1) q]) simp
  have kq': "\<bar>k1 - q\<bar> \<le> 2.29" by (rule near_le [OF kq]) (use pp in \<open>simp add: gain_def\<close>)
  have g: "\<bar>g - gain (p\<^sup>2)\<bar> \<le> 0.000001"
    by (rule near_step [OF ops(5) u kq kq']) simp
  have g': "\<bar>g\<bar> \<le> 2.3" by (rule near_le [OF g]) (use pp in \<open>simp add: gain_def\<close>)
  have pg: "\<bar>p * g - p * gain (p\<^sup>2)\<bar> \<le> 0.00000085"
    using mult_dist [of p p 0, OF _ g g' pb] by simp
  have pg': "\<bar>p * g\<bar> \<le> 2" by (rule abs_mult_le [OF pb g']) simp
  have "\<bar>v - p * gain (p\<^sup>2)\<bar> \<le> 0.0000015"
    by (rule near_step [OF ops(6) u pg pg']) simp
  then show ?thesis by (rule dist_trans [OF _ gain_root [OF p(2,3,1)]]) simp
qed

text \<open>One step \<open>v * (3 - v\<^sup>2) / 2\<close> of the last iterations squares the error.\<close>

lemma halley_step:
  fixes v :: real
  assumes "\<bar>v - 1\<bar> \<le> e" and "e \<le> 0.0001"
  shows "\<bar>v * (3 - v\<^sup>2) / 2 - 1\<bar> \<le> 1.501 * e\<^sup>2"
proof -
  have "v * (3 - v\<^sup>2) / 2 - 1 = - ((v - 1)\<^sup>2 * ((v + 2) / 2))"
    by (simp add: power2_eq_square field_simps)
  then have "\<bar>v * (3 - v\<^sup>2) / 2 - 1\<bar> = \<bar>v - 1\<bar>\<^sup>2 * (\<bar>v + 2\<bar> / 2)" by (simp add: abs_mult)
  also have "\<dots> \<le> e\<^sup>2 * 1.501"
    using assms by (intro mult_mono power_mono) simp_all
  finally show ?thesis by simp
qed

lemma second_step_error:
  assumes u: "0 \<le> u" "u \<le> 0.0000000000001"
    and v: "\<bar>v - 1\<bar> \<le> 0.000033" and k3: "\<bar>k3 - 1.500000000304\<bar> \<le> 0.000000000001"
    and ops: "near u (v / 2) a" "near u (a * v) q" "near u (k3 - q) g" "near u (v * g) w"
  shows "\<bar>w - 1\<bar> \<le> 0.000000002"
proof -
  have v': "\<bar>v\<bar> \<le> 1.0001" by (rule near_le [OF v]) simp
  have a: "\<bar>a - v / 2\<bar> \<le> 0.0000000000001"
    by (rule near_step [OF ops(1) u, where e = 0 and b = "0.6"]) (use v' in simp_all)
  have av: "\<bar>a * v - v / 2 * v\<bar> \<le> 0.0000000000002"
    by (rule order_trans [OF mult_dist [OF a, of v v 0 "1.0001" "0.6"]]) (use v' in simp_all)
  have v2: "\<bar>v / 2\<bar> \<le> 0.51" using v' by simp
  have vv: "\<bar>v / 2 * v\<bar> \<le> 0.6" by (rule abs_mult_le [OF v2 v']) simp
  have av': "\<bar>a * v\<bar> \<le> 1" by (rule near_le [OF av, OF order_trans [OF add_right_mono [OF vv]]]) simp
  have q: "\<bar>q - v / 2 * v\<bar> \<le> 0.0000000000004" by (rule near_step [OF ops(2) u av av']) simp
  have kq: "\<bar>(k3 - q) - (1.500000000304 - v / 2 * v)\<bar> \<le> 0.0000000000015"
    by (rule diff_dist [OF k3 q]) simp
  have kq': "\<bar>k3 - q\<bar> \<le> 2.2"
    by (rule near_le [OF kq, OF order_trans [OF add_right_mono [OF
            order_trans [OF abs_triangle_ineq4 add_left_mono [OF vv]]]]]) simp
  have g0: "\<bar>g - (1.500000000304 - v / 2 * v)\<bar> \<le> 0.000000000002"
    by (rule near_step [OF ops(3) u kq kq']) simp
  have g: "\<bar>g - (3 - v\<^sup>2) / 2\<bar> \<le> 0.00000000031"
    by (rule dist_trans [OF g0, of _ "0.000000000304"]) (simp_all add: power2_eq_square field_simps)
  have g': "\<bar>g\<bar> \<le> 3" by (rule near_le [of _ "k3 - q" "0.000000000001", OF near_step [OF ops(3) u, of _ 0 "2.2"]])
    (use kq' in simp_all)
  have vg: "\<bar>v * g - v * ((3 - v\<^sup>2) / 2)\<bar> \<le> 0.00000000032"
    by (rule order_trans [OF mult_dist [of v v 0, OF _ g g' v']]) simp_all
  have vg': "\<bar>v * g\<bar> \<le> 4" by (rule abs_mult_le [OF v' g']) simp
  have "\<bar>w - v * ((3 - v\<^sup>2) / 2)\<bar> \<le> 0.00000000033"
    by (rule near_step [OF ops(4) u vg vg']) simp
  then have "\<bar>w - v * (3 - v\<^sup>2) / 2\<bar> \<le> 0.00000000033" by simp
  then show ?thesis
    by (rule dist_trans [OF _ halley_step [OF v]]) (simp_all add: power2_eq_square)
qed

lemma final_step_error:
  assumes u: "0 \<le> u" "u \<le> 0.00000006" and v: "\<bar>v - 1\<bar> \<le> e" "e \<le> 0.000033"
    and ops: "near u v c" "near u (v * c) q" "near u (1 - q) d" "near u (h + c) r"
    and h: "\<bar>d\<bar> \<le> 0.0001 \<Longrightarrow> \<bar>c\<bar> \<le> 1.001 \<Longrightarrow> \<bar>h - c * d / 2\<bar> \<le> u * 0.0002"
  shows "\<bar>r - 1\<bar> \<le> 2.01 * u + 1.501 * (e + 2 * u)\<^sup>2"
proof -
  have v': "\<bar>v\<bar> \<le> 1.0001" by (rule near_le [OF v(1)]) (use v(2) in \<open>simp; linarith\<close>)
  have c: "\<bar>c - v\<bar> \<le> u * 1.0002"
    by (rule order_trans [OF near_dist [OF ops(1) u(1) v']]) (use u in \<open>simp add: mult_left_mono\<close>)
  have c1: "\<bar>c - 1\<bar> \<le> e + 2 * u" by (rule dist_trans [OF c v(1)]) (use u in simp)
  have c': "\<bar>c\<bar> \<le> 1.0001" using c1 v u by simp
  have vc: "\<bar>v * c\<bar> \<le> 1.0003" by (rule abs_mult_le [OF v' c']) simp
  have q1: "\<bar>q - v * c\<bar> \<le> u * 1.0004"
    by (rule order_trans [OF near_dist [OF ops(2) u(1) vc]]) (use u in \<open>simp add: mult_left_mono\<close>)
  have q2: "\<bar>v * c - c * c\<bar> \<le> u * 1.0004"
    using mult_dist [of v c "u * 1.0002" c c 0 "1.0001" "1.0001"] c c' u
    by (simp add: abs_minus_commute)
  have q: "\<bar>q - c * c\<bar> \<le> u * 2.001"
    by (rule dist_trans [OF q1 q2]) (use u in simp)
  have "\<bar>c - 1\<bar> \<le> 0.000034" using c1 v u by simp
  then have cc: "\<bar>c * c - 1\<bar> \<le> 0.00008"
    using mult_dist [of c 1 "0.000034" c 1 "0.000034" "1.0001" 1] c' by simp
  have "\<bar>q - 1\<bar> \<le> 0.00009" by (rule dist_trans [OF q cc]) (use u in simp)
  then have q9: "\<bar>1 - q\<bar> \<le> 0.00009" by (simp only: abs_minus_commute)
  have d: "\<bar>d - (1 - q)\<bar> \<le> u * 0.0001"
    by (intro order_trans [OF near_dist [OF ops(3) u(1) q9]]) (use u in \<open>simp add: mult_left_mono\<close>)
  have d': "\<bar>d\<bar> \<le> 0.0001" by (rule near_le [OF d]) (use q9 u in simp)
  have "\<bar>(1 - q) - (1 - c * c)\<bar> \<le> u * 2.001"
    by (rule diff_dist [OF _ q, where e = 0]) simp_all
  with d have dd: "\<bar>d - (1 - c * c)\<bar> \<le> u * 2.002" by (rule dist_trans) (use u in simp)
  have hd: "\<bar>h - c * d / 2\<bar> \<le> u * 0.0002" using d' c' by (intro h) simp_all
  have "\<bar>c / 2 * d - c / 2 * (1 - c * c)\<bar> \<le> u * 1.002"
    using mult_dist [of "c / 2" "c / 2" 0, OF _ dd, of 1 "0.50005"] d' c' u by simp
  then have "\<bar>c * d / 2 - c / 2 * (1 - c * c)\<bar> \<le> u * 1.002" by simp
  with hd have "\<bar>h - c / 2 * (1 - c * c)\<bar> \<le> u * 1.003" by (rule dist_trans) (use u in simp)
  moreover have "h + c - c * (3 - c\<^sup>2) / 2 = h - c / 2 * (1 - c * c)"
    by (simp add: power2_eq_square field_simps)
  ultimately have hc: "\<bar>h + c - c * (3 - c\<^sup>2) / 2\<bar> \<le> u * 1.003" by (simp only:)
  have "\<bar>c * (3 - c\<^sup>2) / 2 - 1\<bar> \<le> 1.501 * (e + 2 * u)\<^sup>2"
    by (rule halley_step [OF c1]) (use v u in simp)
  then have h1: "\<bar>h + c - 1\<bar> \<le> u * 1.003 + 1.501 * (e + 2 * u)\<^sup>2"
    by (rule dist_trans [OF hc]) simp
  have "(e + 2 * u)\<^sup>2 \<le> 0.00004\<^sup>2" using v u by (intro power_mono) simp_all
  then have h2: "\<bar>h + c\<bar> \<le> 1.001"
    by (intro near_le [OF h1]) (use u in \<open>simp add: power2_eq_square\<close>)
  have "\<bar>r - (h + c)\<bar> \<le> u * 1.002"
    by (rule order_trans [OF near_dist [OF ops(4) u(1) h2]]) (use u in \<open>simp add: mult_left_mono\<close>)
  then show ?thesis by (rule dist_trans [OF _ h1]) (use u in simp)
qed

end
