(* ===== verification/Sqrt.thy ===== *)
theory Sqrt
  imports Floating Sqrt_Approx
begin

text \<open>
  \<open>src/math/sqrt.c\<close>: the square roots from the exponent trick and Householder iterations.  An
  argument is the bit pattern of the parameter, as the code's unions read it; a result is the value
  returned.
\<close>

section \<open>The code\<close>

definition sqrtf :: "bool \<Rightarrow> u32 \<Rightarrow> fp" where
  "sqrtf fused x =
     (let fmt = binary32;
          mk = 0x5f1110a0;
          k1 = rounded fmt 2.2825186;
          k2 = rounded fmt 2.2533049;
          i = x;
          x = fp_of_bits fmt (unat x);
          i = mk - drop_bit 1 i;
          y = fp_of_bits fmt (unat i);
          c = fp_mul fmt (fp_mul fmt x y) y;
          y = fp_mul fmt y (fp_sub_mul fused fmt k1 c (fp_sub fmt k2 c));
          c = fp_mul fmt x y;
          y = fp_sub_mul fused fmt (Fin 1) y c;
          y = fp_mul_add fused fmt (fp_mul fmt (Fin 0.5) c) y c
      in y)"

definition sqrt_double :: "bool \<Rightarrow> u64 \<Rightarrow> fp" where
  "sqrt_double fused x =
     (let fmt = binary64;
          mk = 0x5fe222142565d5c2;
          k1 = rounded fmt 2.28251863069107890;
          k2 = rounded fmt 2.25330495841181303;
          k3 = rounded fmt 1.500000000304;
          i = x;
          x = fp_of_bits fmt (unat x);
          i = mk - drop_bit 1 i;
          y = fp_of_bits fmt (unat i);
          c = fp_mul fmt (fp_mul fmt x y) y;
          y = fp_mul fmt y (fp_sub_mul fused fmt k1 c (fp_sub fmt k2 c));
          xh = fp_mul fmt (Fin 0.5) x;
          y = fp_mul fmt y (fp_sub_mul fused fmt k3 (fp_mul fmt xh y) y);
          c = fp_mul fmt xh y;
          y = fp_sub_mul fused fmt (Fin 0.5) y c;
          y = fp_mul fmt (Fin 2) (fp_mul_add fused fmt c y c)
      in y)"

section \<open>Arithmetic with a bounded error\<close>

text \<open>
  What the accuracy of the square roots needs of a format: below the overflow threshold an operation
  is wrong by at most a relative \<open>u\<close> and an absolute \<open>tiny\<close>.
\<close>

definition wide :: "real \<Rightarrow> real \<Rightarrow> real \<Rightarrow> real \<Rightarrow> bool" where
  "wide u tiny big k \<longleftrightarrow> 0 < k \<and> tiny \<le> k * (u * 0.000001) \<and> 8 * k < big"

locale fp_arith =
  fixes fmt :: fp_format and u tiny big :: real
  assumes round_error: "\<bar>x\<bar> < big \<Longrightarrow> \<exists>v. rounded fmt x = Fin v \<and> \<bar>v - x\<bar> \<le> u * \<bar>x\<bar> + tiny"
    and u_bounds: "0 \<le> u" "u \<le> 0.00000006"
begin

lemma near_abs: "near u z w \<Longrightarrow> \<bar>w\<bar> \<le> 1.0001 * \<bar>z\<bar> + 0.0001"
proof -
  assume "near u z w"
  then have "\<bar>w - z\<bar> \<le> u * (\<bar>z\<bar> + 0.000001)" by (simp add: near_def)
  also have "\<dots> \<le> 0.00000006 * (\<bar>z\<bar> + 0.000001)" using u_bounds by (intro mult_right_mono) simp_all
  finally have "\<bar>w\<bar> - \<bar>z\<bar> \<le> 0.00000006 * (\<bar>z\<bar> + 0.000001)"
    using abs_triangle_ineq2 [of w z] by (rule order_trans [rotated])
  moreover have "0 \<le> \<bar>z\<bar>" by simp
  ultimately show ?thesis by (simp add: field_simps)
qed

lemma near_refl [simp]: "near u z z"
  using u_bounds by (simp add: near_def)

lemma round_scaled:
  assumes "wide u tiny big k" and "\<bar>z\<bar> \<le> 8"
  shows "\<exists>w. rounded fmt (k * z) = Fin (k * w) \<and> near u z w"
proof -
  have k: "0 < k" "tiny \<le> k * (u * 0.000001)" "8 * k < big" using assms(1) by (simp_all add: wide_def)
  have "k * \<bar>z\<bar> \<le> k * 8" using k assms(2) by (intro mult_left_mono) simp_all
  then have "k * \<bar>z\<bar> < big" using k(3) by linarith
  then have "\<bar>k * z\<bar> < big" using k(1) by (simp add: abs_mult)
  then obtain v where v: "rounded fmt (k * z) = Fin v" "\<bar>v - k * z\<bar> \<le> u * \<bar>k * z\<bar> + tiny"
    using round_error by blast
  have "k * \<bar>v / k - z\<bar> = \<bar>k * (v / k - z)\<bar>" using k by (simp add: abs_mult)
  also have "\<dots> = \<bar>v - k * z\<bar>" using k by (simp add: right_diff_distrib)
  also have "\<dots> \<le> k * (u * (\<bar>z\<bar> + 0.000001))" using v(2) k by (simp add: abs_mult algebra_simps)
  finally have "\<bar>v / k - z\<bar> \<le> u * (\<bar>z\<bar> + 0.000001)" using k by (simp only: mult_le_cancel_left_pos)
  then show ?thesis using v k by (intro exI [of _ "v / k"]) (simp add: near_def)
qed

lemma mul_scaled:
  assumes "wide u tiny big k" and "x * y = k * z" and "\<bar>z\<bar> \<le> 8"
  shows "\<exists>w. fp_mul fmt (Fin x) (Fin y) = Fin (k * w) \<and> near u z w"
  using round_scaled [OF assms(1,3)] assms(2) by (simp add: fp_mul_def fp_round_def)

lemma sub_scaled:
  assumes "wide u tiny big k" and "x - y = k * z" and "\<bar>z\<bar> \<le> 8"
  shows "\<exists>w. fp_sub fmt (Fin x) (Fin y) = Fin (k * w) \<and> near u z w"
  using round_scaled [OF assms(1,3)] assms(2) by (simp add: fp_sub_def fp_round_def)

lemma product_scaled:
  assumes "wide u tiny big k" and "x * y = k * z" and "\<bar>z\<bar> \<le> 4"
  shows "\<exists>q. (if fused then exact_mul (Fin x) (Fin y) else fp_mul fmt (Fin x) (Fin y)) = Fin (k * q)
    \<and> near u z q \<and> \<bar>q\<bar> \<le> 4.001"
proof -
  obtain q where q: "fp_mul fmt (Fin x) (Fin y) = Fin (k * q)" "near u z q"
    using mul_scaled [OF assms(1,2)] assms(3) by fastforce
  have "\<bar>q\<bar> \<le> 4.001" using near_abs [OF q(2)] assms(3) by simp
  with q show ?thesis
    by (cases fused) (use assms in \<open>auto intro: exI [of _ z] exI [of _ q]\<close>)
qed

lemma sub_mul_scaled:
  assumes "wide u tiny big k" and "c = k * e" and "x * y = k * z" and "\<bar>z\<bar> \<le> 4" and "\<bar>e\<bar> \<le> 3"
  shows "\<exists>q w. fp_sub_mul fused fmt (Fin c) (Fin x) (Fin y) = Fin (k * w)
    \<and> near u z q \<and> near u (e - q) w"
proof -
  obtain q where q: "(if fused then exact_mul (Fin x) (Fin y) else fp_mul fmt (Fin x) (Fin y))
      = Fin (k * q)" "near u z q" "\<bar>q\<bar> \<le> 4.001"
    using product_scaled [OF assms(1,3,4)] by blast
  have "\<bar>e - q\<bar> \<le> 8" using q(3) assms(5) by simp
  then obtain w where "fp_sub fmt (Fin c) (Fin (k * q)) = Fin (k * w)" "near u (e - q) w"
    using sub_scaled [OF assms(1), of c "k * q" "e - q"] assms(2) by (auto simp: right_diff_distrib)
  then show ?thesis using q by (auto simp: fp_sub_mul_def)
qed

lemma mul_add_scaled:
  assumes "wide u tiny big k" and "c = k * e" and "x * y = k * z" and "\<bar>z\<bar> \<le> 4" and "\<bar>e\<bar> \<le> 3"
  shows "\<exists>q w. fp_mul_add fused fmt (Fin x) (Fin y) (Fin c) = Fin (k * w)
    \<and> rounded fmt (k * (q + e)) = Fin (k * w) \<and> near u z q \<and> near u (q + e) w"
proof -
  obtain q where q: "(if fused then exact_mul (Fin x) (Fin y) else fp_mul fmt (Fin x) (Fin y))
      = Fin (k * q)" "near u z q" "\<bar>q\<bar> \<le> 4.001"
    using product_scaled [OF assms(1,3,4)] by blast
  have "\<bar>q + e\<bar> \<le> 8" using q(3) assms(5) by simp
  then obtain w where "rounded fmt (k * (q + e)) = Fin (k * w)" "near u (q + e) w"
    using round_scaled [OF assms(1)] by blast
  then show ?thesis using q assms(2)
    by (auto simp: fp_mul_add_def fp_add_def fp_round_def distrib_left)
qed

text \<open>The first iteration, for the square root \<open>s\<close> and a guess \<open>p / s\<close> of its inverse.\<close>

lemma first_step:
  assumes w: "wide u tiny big s" "wide u tiny big 1" "wide u tiny big (1 / s)"
    and p: "0 < p" "0.6332 \<le> p\<^sup>2" "p\<^sup>2 \<le> 0.7193"
    and k: "\<bar>k1 - 2.2825186\<bar> \<le> 0.0000002" "\<bar>k2 - 2.2533049\<bar> \<le> 0.0000002"
  defines "c \<equiv> fp_mul fmt (fp_mul fmt (Fin (s\<^sup>2)) (Fin (p / s))) (Fin (p / s))"
  shows "\<exists>v. fp_mul fmt (Fin (p / s)) (fp_sub_mul fused fmt (Fin k1) c (fp_sub fmt (Fin k2) c))
      = Fin (v / s) \<and> \<bar>v - 1\<bar> \<le> 0.000033"
proof -
  have s: "0 < s" using w(1) by (simp add: wide_def)
  have "p \<le> 1"
  proof (rule ccontr)
    assume "\<not> p \<le> 1"
    then have "1\<^sup>2 < p\<^sup>2" by (intro power_strict_mono) auto
    then show False using p(3) by simp
  qed
  then have p1: "\<bar>p\<bar> \<le> 1" using p(1) by simp
  obtain a where a: "fp_mul fmt (Fin (s\<^sup>2)) (Fin (p / s)) = Fin (s * a)" "near u p a"
    using mul_scaled [OF w(1), of "s\<^sup>2" "p / s" p] s p1 by (auto simp: power2_eq_square)
  have a1: "\<bar>a\<bar> \<le> 1.01" using near_abs [OF a(2)] p1 by simp
  have ap: "\<bar>a * p\<bar> \<le> 1.01" by (rule abs_mult_le [OF a1 p1]) simp
  obtain d where d: "c = Fin d" "near u (a * p) d"
    using mul_scaled [OF w(2), of "s * a" "p / s" "a * p"] s ap unfolding c_def a(1) by auto
  have d1: "\<bar>d\<bar> \<le> 1.02" using near_abs [OF d(2)] ap by simp
  have k1: "\<bar>k1\<bar> \<le> 3" "\<bar>k2\<bar> \<le> 2.26"
    by (rule near_le [OF k(1)], simp) (rule near_le [OF k(2)], simp)
  have kd: "\<bar>k2 - d\<bar> \<le> 3.3"
    by (rule diff_le [OF k1(2) d1]) simp
  obtain e where e: "fp_sub fmt (Fin k2) (Fin d) = Fin e" "near u (k2 - d) e"
    using sub_scaled [OF w(2), of k2 d "k2 - d"] kd by auto
  have e1: "\<bar>e\<bar> \<le> 3.4" using near_abs [OF e(2)] kd by simp
  have de: "\<bar>d * e\<bar> \<le> 4" by (rule abs_mult_le [OF d1 e1]) simp
  obtain q g where g: "fp_sub_mul fused fmt (Fin k1) (Fin d) (Fin e) = Fin g"
      "near u (d * e) q" "near u (k1 - q) g"
    using sub_mul_scaled [OF w(2), of k1 k1 d e "d * e" fused] de k1 by auto
  have "\<bar>q\<bar> \<le> 4.1" using near_abs [OF g(2)] de by simp
  then have "\<bar>k1 - q\<bar> \<le> 7.2" by (rule diff_le [OF k1(1)]) simp
  then have g1: "\<bar>g\<bar> \<le> 7.4" using near_abs [OF g(3)] by simp
  have "\<bar>p * g\<bar> \<le> 8" by (rule abs_mult_le [OF p1 g1]) simp
  then obtain v where v: "fp_mul fmt (Fin (p / s)) (Fin g) = Fin (v / s)" "near u (p * g) v"
    using mul_scaled [OF w(3), of "p / s" g "p * g"] by auto
  have "\<bar>v - 1\<bar> \<le> 0.000033"
    by (rule first_step_error [OF u_bounds p k a(2) d(2) e(2) g(2,3) v(2)])
  then show ?thesis using v(1) by (auto simp: d(1) e(1) g(1))
qed

text \<open>The second iteration of the \<open>double\<close> code, on the half \<open>xh\<close> of the argument.\<close>

lemma second_step:
  assumes w: "wide u tiny big s" "wide u tiny big 1" "wide u tiny big (1 / s)"
    and u: "u \<le> 0.0000000000001"
    and v: "\<bar>v - 1\<bar> \<le> 0.000033" and k3: "\<bar>k3 - 1.500000000304\<bar> \<le> 0.000000000001"
  shows "\<exists>v'. fp_mul fmt (Fin (v / s))
        (fp_sub_mul fused fmt (Fin k3) (fp_mul fmt (Fin (s\<^sup>2 / 2)) (Fin (v / s))) (Fin (v / s)))
      = Fin (v' / s) \<and> \<bar>v' - 1\<bar> \<le> 0.000000002"
proof -
  have s: "0 < s" using w(1) by (simp add: wide_def)
  have v1: "\<bar>v\<bar> \<le> 1.01" by (rule near_le [OF v]) simp
  obtain a where a: "fp_mul fmt (Fin (s\<^sup>2 / 2)) (Fin (v / s)) = Fin (s * a)" "near u (v / 2) a"
    using mul_scaled [OF w(1), of "s\<^sup>2 / 2" "v / s" "v / 2"] s v1
    by (auto simp: power2_eq_square)
  have a1: "\<bar>a\<bar> \<le> 1.02" using near_abs [OF a(2)] v1 by simp
  have av: "\<bar>a * v\<bar> \<le> 2" by (rule abs_mult_le [OF a1 v1]) simp
  have k31: "\<bar>k3\<bar> \<le> 1.6" by (rule near_le [OF k3]) simp
  obtain q g where g: "fp_sub_mul fused fmt (Fin k3) (Fin (s * a)) (Fin (v / s)) = Fin g"
      "near u (a * v) q" "near u (k3 - q) g"
    using sub_mul_scaled [OF w(2), of k3 k3 "s * a" "v / s" "a * v" fused] av k31 s by auto
  have "\<bar>q\<bar> \<le> 2.1" using near_abs [OF g(2)] av by simp
  then have "\<bar>k3 - q\<bar> \<le> 4" by (rule diff_le [OF k31]) simp
  then have g1: "\<bar>g\<bar> \<le> 4.1" using near_abs [OF g(3)] by simp
  have "\<bar>v * g\<bar> \<le> 8" by (rule abs_mult_le [OF v1 g1]) simp
  then obtain v' where v': "fp_mul fmt (Fin (v / s)) (Fin g) = Fin (v' / s)" "near u (v * g) v'"
    using mul_scaled [OF w(3), of "v / s" g "v * g"] by auto
  have "\<bar>v' - 1\<bar> \<le> 0.000000002"
    by (rule second_step_error [OF u_bounds(1) u v k3 a(2) g(2,3) v'(2)])
  then show ?thesis using v'(1) by (auto simp: a(1) g(1))
qed

end

text \<open>The last iteration: \<open>sqrtf\<close>.\<close>

context fp_arith
begin

lemma last_step_half:
  assumes "near u (c / 2) h" and "near u (h * d) q" and "\<bar>d\<bar> \<le> 0.0001" and "\<bar>c\<bar> \<le> 1.001"
  shows "\<bar>q - c * d / 2\<bar> \<le> u * 0.0002"
proof -
  have c2: "\<bar>c / 2\<bar> \<le> 0.501" using assms(4) by simp
  then have h1: "\<bar>h\<bar> \<le> 0.502" using near_abs [OF assms(1)] by simp
  have h: "\<bar>h - c / 2\<bar> \<le> u * 0.51"
    by (rule order_trans [OF near_dist [OF assms(1) u_bounds(1) c2]])
      (use u_bounds in \<open>simp add: mult_left_mono\<close>)
  have hd: "\<bar>h * d\<bar> \<le> 0.0001" by (rule abs_mult_le [OF h1 assms(3)]) simp
  have "\<bar>q - h * d\<bar> \<le> u * 0.00011"
    by (rule order_trans [OF near_dist [OF assms(2) u_bounds(1) hd]])
      (use u_bounds in \<open>simp add: mult_left_mono\<close>)
  moreover have "\<bar>h * d - c / 2 * d\<bar> \<le> u * 0.51 * 0.0001 + 0.501 * 0"
    by (rule mult_dist [OF h _ assms(3) c2]) simp
  ultimately have "\<bar>q - c / 2 * d\<bar> \<le> u * 0.0002"
    by (rule dist_trans) (use u_bounds in simp)
  then show ?thesis by simp
qed

lemma last_step_bounds:
  assumes v: "\<bar>v - 1\<bar> \<le> e" "e \<le> 0.000033" and c: "near u v c" and q: "near u (v * c) q"
    and d: "near u (1 - q) d"
  shows "\<bar>v\<bar> \<le> 1.01" "\<bar>c\<bar> \<le> 1.02" "\<bar>v * c\<bar> \<le> 1.1" "\<bar>d\<bar> \<le> 2.4"
proof -
  show v1: "\<bar>v\<bar> \<le> 1.01" by (rule near_le [OF v(1)]) (use v(2) in simp)
  show c1: "\<bar>c\<bar> \<le> 1.02" using near_abs [OF c] v1 by simp
  show vc: "\<bar>v * c\<bar> \<le> 1.1" by (rule abs_mult_le [OF v1 c1]) simp
  have "\<bar>q\<bar> \<le> 1.2" using near_abs [OF q] vc by simp
  then have "\<bar>1 - q\<bar> \<le> 2.2" using diff_le [of 1 1 q "1.2" "2.2"] by simp
  then show "\<bar>d\<bar> \<le> 2.4" using near_abs [OF d] by simp
qed

lemma last_step_single:
  assumes w: "wide u tiny big s" "wide u tiny big 1"
    and v: "\<bar>v - 1\<bar> \<le> e" "e \<le> 0.000033"
  defines "c \<equiv> fp_mul fmt (Fin (s\<^sup>2)) (Fin (v / s))"
  shows "\<exists>r. fp_mul_add fused fmt (fp_mul fmt (Fin 0.5) c)
        (fp_sub_mul fused fmt (Fin 1) (Fin (v / s)) c) c
      = Fin (s * r) \<and> \<bar>r - 1\<bar> \<le> 2.01 * u + 1.501 * (e + 2 * u)\<^sup>2"
proof -
  have s: "0 < s" using w(1) by (simp add: wide_def)
  have v1: "\<bar>v\<bar> \<le> 1.01" by (rule near_le [OF v(1)]) (use v(2) in simp)
  obtain a where a: "c = Fin (s * a)" "near u v a"
    using mul_scaled [OF w(1), of "s\<^sup>2" "v / s" v] s v1
    by (auto simp: c_def power2_eq_square)
  have a1: "\<bar>a\<bar> \<le> 1.02" using near_abs [OF a(2)] v1 by simp
  have va: "\<bar>v * a\<bar> \<le> 1.1" by (rule abs_mult_le [OF v1 a1]) simp
  obtain q d where d: "fp_sub_mul fused fmt (Fin 1) (Fin (v / s)) (Fin (s * a)) = Fin d"
      "near u (v * a) q" "near u (1 - q) d"
    using sub_mul_scaled [OF w(2), of 1 1 "v / s" "s * a" "v * a" fused] s va by auto
  note b = last_step_bounds [OF v a(2) d(2,3)]
  obtain h where h: "fp_mul fmt (Fin 0.5) (Fin (s * a)) = Fin (s * h)" "near u (a / 2) h"
    using mul_scaled [OF w(1), of "0.5" "s * a" "a / 2"] b(2) by auto
  have h1: "\<bar>h\<bar> \<le> 0.6" using near_abs [OF h(2)] b(2) by simp
  have hd: "\<bar>h * d\<bar> \<le> 4" by (rule abs_mult_le [OF h1 b(4)]) simp
  obtain g r where r: "fp_mul_add fused fmt (Fin (s * h)) (Fin d) (Fin (s * a)) = Fin (s * r)"
      "near u (h * d) g" "near u (g + a) r"
    using mul_add_scaled [OF w(1), of "s * a" a "s * h" d "h * d" fused] hd b(2) by auto
  have "\<bar>r - 1\<bar> \<le> 2.01 * u + 1.501 * (e + 2 * u)\<^sup>2"
    by (rule final_step_error [OF u_bounds v a(2) d(2,3) r(3)])
      (rule last_step_half [OF h(2) r(2)])
  then show ?thesis unfolding a(1) d(1) h(1) using r(1) by blast
qed

lemma near_pos:
  assumes "near u z w" and "0.5 \<le> w"
  shows "0 \<le> z"
proof (rule ccontr)
  assume "\<not> 0 \<le> z"
  then have z: "\<bar>z\<bar> = - z" by simp
  have "w - z \<le> u * (\<bar>z\<bar> + 0.000001)" using assms(1) unfolding near_def by simp
  also have "\<dots> \<le> 1 * (\<bar>z\<bar> + 0.000001)" using u_bounds by (intro mult_right_mono) simp_all
  finally show False using assms(2) z by simp
qed

lemma last_step_small:
  assumes "\<bar>r - 1\<bar> \<le> 2.01 * u + 1.501 * (e + 2 * u)\<^sup>2" and "0 \<le> e" and "e \<le> 0.000033"
  shows "0.5 \<le> r" "r \<le> 2"
proof -
  have "(e + 2 * u)\<^sup>2 \<le> 0.00004\<^sup>2" using assms(2,3) u_bounds by (intro power_mono) simp_all
  then have "2.01 * u + 1.501 * (e + 2 * u)\<^sup>2 \<le> 0.5" using u_bounds by (simp add: power2_eq_square)
  with assms(1) have "\<bar>r - 1\<bar> \<le> 0.5" by linarith
  then have "- 0.5 \<le> r - 1" "r - 1 \<le> 0.5" unfolding abs_le_iff by simp_all
  then show "0.5 \<le> r" "r \<le> 2" by simp_all
qed

end

text \<open>The last iteration of \<open>sqrt\<close> doubles its result, which a binary format does exactly.\<close>

locale fp_binary = fp_arith +
  assumes double_exact: "rounded fmt x = Fin v \<Longrightarrow> 0 \<le> x \<Longrightarrow> \<bar>v\<bar> < big \<Longrightarrow> rounded fmt (2 * v) = Fin (2 * v)"
begin

lemma last_step_double:
  assumes w: "wide u tiny big (s / 2)" "wide u tiny big (1 / 2)"
    and v: "\<bar>v - 1\<bar> \<le> e" "e \<le> 0.000033"
  defines "c \<equiv> fp_mul fmt (Fin (s\<^sup>2 / 2)) (Fin (v / s))"
  shows "\<exists>r. fp_mul fmt (Fin 2)
        (fp_mul_add fused fmt c (fp_sub_mul fused fmt (Fin 0.5) (Fin (v / s)) c) c)
      = Fin (s * r) \<and> \<bar>r - 1\<bar> \<le> 2.01 * u + 1.501 * (e + 2 * u)\<^sup>2"
proof -
  have s: "0 < s" using w(1) by (simp add: wide_def)
  have v1: "\<bar>v\<bar> \<le> 1.01" by (rule near_le [OF v(1)]) (use v(2) in simp)
  obtain a where a: "c = Fin (s / 2 * a)" "near u v a"
    using mul_scaled [OF w(1), of "s\<^sup>2 / 2" "v / s" v] s v1
    by (auto simp: c_def power2_eq_square)
  have a1: "\<bar>a\<bar> \<le> 1.02" using near_abs [OF a(2)] v1 by simp
  have va: "\<bar>v * a\<bar> \<le> 1.1" by (rule abs_mult_le [OF v1 a1]) simp
  obtain q d where d: "fp_sub_mul fused fmt (Fin 0.5) (Fin (v / s)) (Fin (s / 2 * a)) = Fin (1 / 2 * d)"
      "near u (v * a) q" "near u (1 - q) d"
    using sub_mul_scaled [OF w(2), of "0.5" 1 "v / s" "s / 2 * a" "v * a" fused] s va by auto
  note b = last_step_bounds [OF v a(2) d(2,3)]
  have ad: "\<bar>a * d / 2\<bar> \<le> 4" using abs_mult_le [OF b(2,4), of 4] by simp
  obtain g r where r: "fp_mul_add fused fmt (Fin (s / 2 * a)) (Fin (1 / 2 * d)) (Fin (s / 2 * a))
        = Fin (s / 2 * r)" "rounded fmt (s / 2 * (g + a)) = Fin (s / 2 * r)"
      "near u (a * d / 2) g" "near u (g + a) r"
    using mul_add_scaled [OF w(1), of "s / 2 * a" a "s / 2 * a" "1 / 2 * d" "a * d / 2" fused] ad b(2)
    by auto
  have half: "\<bar>g - a * d / 2\<bar> \<le> u * 0.0002" if "\<bar>d\<bar> \<le> 0.0001" "\<bar>a\<bar> \<le> 1.001"
  proof -
    have "\<bar>a * d\<bar> \<le> 0.0002" by (rule abs_mult_le [OF that(2,1)]) simp
    then have ad2: "\<bar>a * d / 2\<bar> \<le> 0.0001" by simp
    show ?thesis
      by (rule order_trans [OF near_dist [OF r(3) u_bounds(1) ad2]])
        (use u_bounds in \<open>simp add: mult_left_mono\<close>)
  qed
  have err: "\<bar>r - 1\<bar> \<le> 2.01 * u + 1.501 * (e + 2 * u)\<^sup>2"
    by (rule final_step_error [OF u_bounds v a(2) d(2,3) r(4) half])
  have "0 \<le> e" using v(1) by (rule order_trans [OF abs_ge_zero])
  note r1 = last_step_small [OF err this v(2)]
  have "0 \<le> s / 2 * (g + a)" using near_pos [OF r(4) r1(1)] s by simp
  moreover have "\<bar>s / 2 * r\<bar> \<le> s / 2 * 2" by (rule abs_mult_le [of _ "s / 2" _ 2]) (use s r1 in simp_all)
  then have "\<bar>s / 2 * r\<bar> < big" using s w(1) unfolding wide_def by linarith
  ultimately have "rounded fmt (2 * (s / 2 * r)) = Fin (2 * (s / 2 * r))"
    by (rule double_exact [OF r(2)])
  then have "fp_mul fmt (Fin 2) (Fin (s / 2 * r)) = Fin (s * r)"
    by (simp add: fp_mul_def fp_round_def)
  then show ?thesis using err unfolding a(1) d(1) r(1) by blast
qed

end

section \<open>The two formats\<close>

interpretation f32: fp_binary binary32 "1 / 2 ^ 24" "1 / 2 ^ 150" "2 ^ 127"
proof (unfold_locales, goal_cases)
  case (1 x)
  then show ?case
    using rounded_error_sum [of binary32 x] binary32_sel(1,2) by (simp only: binary32_sel)
next
  case (4 x v)
  then show ?case
    using rounded_double [of binary32 x v] binary32_sel(1,2) by (simp only: binary32_sel)
qed simp_all

interpretation f64: fp_binary binary64 "1 / 2 ^ 53" "1 / 2 ^ 1075" "2 ^ 1023"
proof (unfold_locales, goal_cases)
  case (1 x)
  then show ?case
    using rounded_error_sum [of binary64 x] binary64_sel(1,2) by (simp only: binary64_sel)
next
  case (4 x v)
  then show ?case
    using rounded_double [of binary64 x v] binary64_sel(1,2) by (simp only: binary64_sel)
qed simp_all

section \<open>The guess from the bit pattern\<close>

lemma product_scale:
  assumes "i + 2 * k + 3 * p + t = 3 * q"
  shows "real a * 2 ^ i / 2 ^ q * (real b * 2 ^ k / 2 ^ q)\<^sup>2
    = real a / 2 ^ p * (real b / 2 ^ p)\<^sup>2 / 2 ^ t"
proof -
  have "(2 :: real) ^ (i + 2 * k + 3 * p + t) = 2 ^ (3 * q)" using assms by simp
  then have "(2 :: real) ^ i * (2 ^ k)\<^sup>2 * (2 ^ p) ^ 3 * 2 ^ t = (2 ^ q) ^ 3"
    by (simp add: power_add power_mult [symmetric] mult.commute)
  then have "(2 :: real) ^ i * (2 ^ k)\<^sup>2 / (2 ^ q) ^ 3 = 1 / ((2 ^ p) ^ 3 * 2 ^ t)"
    by (simp add: field_simps)
  moreover have "real a * 2 ^ i / 2 ^ q * (real b * 2 ^ k / 2 ^ q)\<^sup>2
      = real a * (real b)\<^sup>2 * (2 ^ i * (2 ^ k)\<^sup>2 / (2 ^ q) ^ 3)"
    by (simp add: power2_eq_square power3_eq_cube ac_simps)
  ultimately show ?thesis by (simp add: power2_eq_square power3_eq_cube)
qed

text \<open>What the subtraction from the magic constant \<open>hi * 2 ^ p + rest\<close> does to the fields.\<close>

lemma magic_odd:
  assumes "f < 2 ^ p" "0 < p" "2 * rest < 2 ^ p" "j < hi"
  shows "hi * 2 ^ p + rest - ((2 * j + 1) * 2 ^ p + f) div 2
    = (hi - j - 1) * 2 ^ p + (2 ^ (p - 1) + rest - f div 2 :: nat)"
proof -
  obtain g :: nat where g: "2 ^ p = 2 * g" "2 ^ (p - 1) = g" using assms(2) by (cases p) auto
  obtain t where t: "hi = j + 1 + t" using assms(4) by (metis Suc_eq_plus1 add.assoc less_iff_Suc_add plus_1_eq_Suc)
  have "((2 * j + 1) * (2 * g) + f) div 2 = (2 * j + 1) * g + f div 2" by simp
  then show ?thesis using assms unfolding g by (simp add: t algebra_simps)
qed

lemma magic_even:
  assumes "f < 2 ^ p" "0 < p" "f div 2 \<le> rest" "j < hi"
  shows "hi * 2 ^ p + rest - (2 * j * 2 ^ p + f) div 2 = (hi - j) * 2 ^ p + (rest - f div 2 :: nat)"
proof -
  obtain t where t: "hi = j + t" using assms(4) less_imp_add_positive by blast
  have "(2 * j * 2 ^ p + f) div 2 = j * 2 ^ p + f div 2" by simp
  then show ?thesis using assms by (simp add: t algebra_simps)
qed

lemma magic_even_borrow:
  assumes "f < 2 ^ p" "0 < p" "rest < f div 2" "j < hi"
  shows "hi * 2 ^ p + rest - (2 * j * 2 ^ p + f) div 2
    = (hi - j - 1) * 2 ^ p + (2 ^ p + rest - f div 2 :: nat)"
proof -
  obtain t where t: "hi = j + 1 + t" using assms(4) by (metis Suc_eq_plus1 add.assoc less_iff_Suc_add plus_1_eq_Suc)
  have "(2 * j * 2 ^ p + f) div 2 = j * 2 ^ p + f div 2" by simp
  then show ?thesis using assms by (simp add: t algebra_simps)
qed

lemma half_slack: "a \<le> 2 * b + c \<Longrightarrow> c \<le> 0.0000002 \<Longrightarrow> a / 2 - 0.0000001 \<le> (b :: real)"
  by (simp add: field_simps)

lemma half_fraction:
  assumes "23 \<le> p"
  shows "real f / 2 ^ p / 2 - 0.0000001 \<le> real (f div 2) / 2 ^ p"
    and "real (f div 2) / 2 ^ p \<le> real f / 2 ^ p / 2"
proof -
  have "f \<le> 2 * (f div 2) + 1" "2 * (f div 2) \<le> f" by simp_all
  then have f: "real f \<le> 2 * real (f div 2) + 1" "2 * real (f div 2) \<le> real f" by linarith+
  then show "real (f div 2) / 2 ^ p \<le> real f / 2 ^ p / 2" by (simp add: field_simps)
  have "(2 :: real) ^ 23 \<le> 2 ^ p" using assms by (intro power_increasing) simp_all
  then have p: "1 / 2 ^ p \<le> (0.0000002 :: real)" by (simp add: field_simps)
  have "real f / 2 ^ p \<le> (2 * real (f div 2) + 1) / 2 ^ p"
    using f(1) by (intro divide_right_mono) simp_all
  also have "\<dots> = 2 * (real (f div 2) / 2 ^ p) + 1 / 2 ^ p" by (simp add: add_divide_distrib)
  finally show "real f / 2 ^ p / 2 - 0.0000001 \<le> real (f div 2) / 2 ^ p" using p by (rule half_slack)
qed

text \<open>
  The bit pattern of the guess, whatever the parity of the exponent and with or without a borrow,
  is that of a normal number \<open>y\<close> close to the inverse root of the argument \<open>x\<close>.
\<close>

lemma magic_guess:
  assumes fmt: "digits fmt = Suc p" "smallest fmt = q" "23 \<le> p" "3 * p + 2 * hi = 3 * q + 2"
    and hi: "e < 2 * hi - 3" "hi < 2 ^ exp_bits fmt - 1"
    and rest: "0.13331 * 2 ^ p \<le> real rest" "real rest \<le> 0.13333 * 2 ^ p"
    and x: "f < 2 ^ p" "1 \<le> e"
  shows "\<exists>y. fp_of_bits fmt (hi * 2 ^ p + rest - (e * 2 ^ p + f) div 2) = Fin y \<and> 0 < y
    \<and> 0.6332 \<le> real (2 ^ p + f) * 2 ^ (e - 1) / 2 ^ q * y\<^sup>2
    \<and> real (2 ^ p + f) * 2 ^ (e - 1) / 2 ^ q * y\<^sup>2 \<le> 0.7193"
proof -
  define m h r where "m = real f / 2 ^ p" and "h = real (f div 2) / 2 ^ p" and "r = real rest / 2 ^ p"
  have mp: "real (2 ^ p + f) / 2 ^ p = 1 + m" by (simp add: m_def add_divide_distrib)
  have m: "0 \<le> m" "m < 1" using x(1) by (simp_all add: m_def)
  have h: "m / 2 - 0.0000001 \<le> h" "h \<le> m / 2"
    using half_fraction [OF fmt(3)] by (simp_all only: m_def h_def)
  have r: "0.13331 \<le> r" "r \<le> 0.13333" using rest by (simp_all add: r_def field_simps)
  note bounds = guess_bound [OF m h r]
  have goal: ?thesis if y: "hi * 2 ^ p + rest - (e * 2 ^ p + f) div 2 = e' * 2 ^ p + f'" "f' < 2 ^ p"
      "1 \<le> e'" "e' < 2 ^ exp_bits fmt - 1" and t: "(e - 1) + 2 * (e' - 1) + 3 * p + t = 3 * q"
      and b: "0.6332 \<le> (1 + m) * (real (2 ^ p + f') / 2 ^ p)\<^sup>2 / 2 ^ t \<and>
        (1 + m) * (real (2 ^ p + f') / 2 ^ p)\<^sup>2 / 2 ^ t \<le> 0.7193" for e' f' t
  proof -
    have "fp_of_bits fmt (hi * 2 ^ p + rest - (e * 2 ^ p + f) div 2)
        = Fin (real (2 ^ p + f') * 2 ^ (e' - 1) / 2 ^ q)"
      using fp_of_bits_normal [OF fmt(1) y(3,4,2)] fmt(2) y(1) by simp
    moreover have "0 < real (2 ^ p + f') * 2 ^ (e' - 1) / 2 ^ q" by (simp add: add_pos_nonneg)
    moreover have "real (2 ^ p + f) * 2 ^ (e - 1) / 2 ^ q * (real (2 ^ p + f') * 2 ^ (e' - 1) / 2 ^ q)\<^sup>2
        = (1 + m) * (real (2 ^ p + f') / 2 ^ p)\<^sup>2 / 2 ^ t"
      unfolding mp [symmetric] by (rule product_scale [OF t])
    ultimately show ?thesis using b by (intro exI conjI) (assumption | simp only:)+
  qed
  have "real rest * 100000 \<le> 2 ^ p * 13333" using rest(2) by (simp add: field_simps)
  moreover have "(0 :: real) < 2 ^ p" by simp
  ultimately have "2 * real rest < 2 ^ p" by linarith
  then have rest': "2 * rest < 2 ^ p" by (simp flip: of_nat_less_iff [where 'a = real])
  have p: "2 ^ p = 2 * (2 :: nat) ^ (p - 1)" "2 ^ p = 2 * (2 :: real) ^ (p - 1)"
    using fmt(3) by (cases p, simp_all)+
  have f2: "f div 2 < 2 ^ (p - 1)" using x(1) p(1) by linarith
  consider (odd) j where "e = 2 * j + 1" | (even) j where "e = 2 * j" "f div 2 \<le> rest"
    | (borrow) j where "e = 2 * j" "rest < f div 2"
    by (metis evenE not_le oddE)
  then show ?thesis
  proof cases
    case odd
    have "real (2 ^ p + (2 ^ (p - 1) + rest - f div 2)) = 2 ^ p + (2 ^ (p - 1) + real rest - real (f div 2))"
      using f2 by (simp add: of_nat_diff)
    then have "real (2 ^ p + (2 ^ (p - 1) + rest - f div 2)) / 2 ^ p = 1 + (2 ^ (p - 1) / 2 ^ p + r - h)"
      by (simp add: r_def h_def add_divide_distrib diff_divide_distrib)
    then have "real (2 ^ p + (2 ^ (p - 1) + rest - f div 2)) / 2 ^ p = 3 / 2 + r - h"
      using p(2) by simp
    then have eq: "real (2 ^ p + (2 ^ (p - 1) + rest - f div 2)) / 2 ^ p = 3 / 2 + r - h" .
    show ?thesis
    proof (rule goal)
      show "hi * 2 ^ p + rest - (e * 2 ^ p + f) div 2 = (hi - j - 1) * 2 ^ p + (2 ^ (p - 1) + rest - f div 2)"
        unfolding odd(1) by (rule magic_odd) (use x fmt rest' hi odd in auto)
      show "(2 ^ (p - 1) + rest - f div 2) < 2 ^ p" using rest' f2 p(1) odd by simp
      show "1 \<le> (hi - j - 1)" "(hi - j - 1) < 2 ^ exp_bits fmt - 1" "e - 1 + 2 * ((hi - j - 1) - 1) + 3 * p + 2 = 3 * q"
        using fmt hi x odd(1) by simp_all
    qed (use bounds(1) eq in simp)
  next
    case even
    have eq: "real (2 ^ p + (rest - f div 2)) / 2 ^ p = 1 + r - h"
      using even(2) by (simp add: r_def h_def add_divide_distrib diff_divide_distrib of_nat_diff)
    have "h \<le> r" using even(2) by (simp add: h_def r_def divide_right_mono)
    note b = bounds(2) [OF this]
    show ?thesis
    proof (rule goal)
      show "hi * 2 ^ p + rest - (e * 2 ^ p + f) div 2 = (hi - j) * 2 ^ p + (rest - f div 2)"
        unfolding even(1) by (rule magic_even) (use x fmt rest' hi even in auto)
      show "(rest - f div 2) < 2 ^ p" using rest' f2 p(1) even by simp
      show "1 \<le> (hi - j)" "(hi - j) < 2 ^ exp_bits fmt - 1" "e - 1 + 2 * ((hi - j) - 1) + 3 * p + 1 = 3 * q"
        using fmt hi x even(1) by simp_all
    qed (use b eq in simp)
  next
    case borrow
    have f3: "f div 2 \<le> 2 ^ p + rest" using f2 p(1) by simp
    have "real (2 ^ p + (2 ^ p + rest - f div 2)) = 2 ^ p + (2 ^ p + real rest - real (f div 2))"
      using f3 by (simp add: of_nat_diff)
    then have eq: "real (2 ^ p + (2 ^ p + rest - f div 2)) / 2 ^ p = 2 + r - h"
      by (simp add: r_def h_def add_divide_distrib diff_divide_distrib)
    have "r < h" using borrow(2) by (simp add: h_def r_def divide_strict_right_mono)
    note b = bounds(3) [OF this]
    show ?thesis
    proof (rule goal)
      show "hi * 2 ^ p + rest - (e * 2 ^ p + f) div 2 = (hi - j - 1) * 2 ^ p + (2 ^ p + rest - f div 2)"
        unfolding borrow(1) by (rule magic_even_borrow) (use x fmt rest' hi borrow in auto)
      show "(2 ^ p + rest - f div 2) < 2 ^ p" using rest' f2 p(1) borrow by simp
      show "1 \<le> (hi - j - 1)" "(hi - j - 1) < 2 ^ exp_bits fmt - 1" "e - 1 + 2 * ((hi - j - 1) - 1) + 3 * p + 3 = 3 * q"
        using fmt hi x borrow(1) by simp_all
    qed (use b eq in simp)
  qed
qed

end
