(* ===== verification/Sqrt_Accuracy.thy ===== *)
theory Sqrt_Accuracy
  imports Sqrt
begin

text \<open>
  The accuracy of \<open>sqrtf\<close> and \<open>sqrt\<close> on positive normal arguments, and what they return for the
  others.
\<close>

section \<open>Accuracy\<close>

lemma f32_wide: "1 / 2 ^ 64 \<le> k \<Longrightarrow> k \<le> 2 ^ 64 \<Longrightarrow> wide (1 / 2 ^ 24) (1 / 2 ^ 150) (2 ^ 127) k"
  by (simp add: wide_def field_simps)

lemma f64_wide: "1 / 2 ^ 513 \<le> k \<Longrightarrow> k \<le> 2 ^ 513 \<Longrightarrow> wide (1 / 2 ^ 53) (1 / 2 ^ 1075) (2 ^ 1023) k"
  by (simp add: wide_def field_simps)

lemma sqrt_between:
  assumes "1 / 2 ^ m \<le> x" and "x \<le> 2 ^ n" and "m = 2 * a" and "n = 2 * b"
  shows "1 / 2 ^ a \<le> sqrt x" and "sqrt x \<le> 2 ^ b" and "1 / 2 ^ b \<le> 1 / sqrt x" and "1 / sqrt x \<le> 2 ^ a"
    and "0 < sqrt x" and "(sqrt x)\<^sup>2 = x"
proof -
  have "0 < 1 / (2 :: real) ^ m" by simp
  then have x: "0 < x" using assms(1) by linarith
  then show s: "0 < sqrt x" "(sqrt x)\<^sup>2 = x" by simp_all
  show l: "1 / 2 ^ a \<le> sqrt x"
    by (rule real_le_rsqrt) (use assms(1,3) in \<open>simp only: power_divide power_one power_even_eq\<close>)
  show r: "sqrt x \<le> 2 ^ b"
    by (rule real_le_lsqrt) (use assms(2,4) in \<open>simp_all only: power_even_eq zero_le_power zero_le_numeral\<close>)
  show "1 / 2 ^ b \<le> 1 / sqrt x" using r s by (intro divide_left_mono) simp_all
  have "1 / sqrt x \<le> 1 / (1 / 2 ^ a)" using l s by (intro divide_left_mono) simp_all
  then show "1 / sqrt x \<le> 2 ^ a" by simp
qed

lemma scaled_error:
  assumes "\<bar>r - 1\<bar> \<le> e" and "0 < (s :: real)" and "e \<le> b"
  shows "\<bar>s * r - s\<bar> \<le> b * s"
proof -
  have "s * r - s = s * (r - 1)" by (simp add: right_diff_distrib)
  then have "\<bar>s * r - s\<bar> = s * \<bar>r - 1\<bar>" using assms(2) by (simp add: abs_mult)
  also have "\<dots> \<le> s * b" using assms by (intro mult_left_mono) simp_all
  finally show ?thesis by (simp add: mult.commute)
qed

text \<open>The constants of the code, rounded to its types.\<close>

lemma f32_constants:
  obtains k1 k2 where "rounded binary32 2.2825186 = Fin k1" "\<bar>k1 - 2.2825186\<bar> \<le> 0.0000002"
    "rounded binary32 2.2533049 = Fin k2" "\<bar>k2 - 2.2533049\<bar> \<le> 0.0000002"
  using f32.round_error [of "2.2825186"] f32.round_error [of "2.2533049"] by fastforce

lemma f64_const:
  assumes "\<bar>c\<bar> \<le> 3" and "\<bar>c - d\<bar> \<le> a" and "a + 0.000000000000001 \<le> b"
  shows "\<exists>v. rounded binary64 c = Fin v \<and> \<bar>v - d\<bar> \<le> b"
proof -
  have "\<bar>c\<bar> < 2 ^ 1023" using assms(1) by simp
  then obtain v where v: "rounded binary64 c = Fin v" "\<bar>v - c\<bar> \<le> 1 / 2 ^ 53 * \<bar>c\<bar> + 1 / 2 ^ 1075"
    using f64.round_error by blast
  note v(2)
  also have "1 / 2 ^ 53 * \<bar>c\<bar> + 1 / 2 ^ 1075 \<le> 1 / 2 ^ 53 * 3 + 1 / 2 ^ 1075"
    using assms(1) by simp
  also have "\<dots> \<le> 0.000000000000001" by simp
  finally have "\<bar>v - d\<bar> \<le> b"
    by (rule dist_trans [OF _ assms(2)]) (use assms(3) in \<open>simp add: add.commute\<close>)
  then show ?thesis using v(1) by blast
qed

lemma f64_constants:
  obtains k1 k2 k3 where "rounded binary64 2.28251863069107890 = Fin k1" "\<bar>k1 - 2.2825186\<bar> \<le> 0.0000002"
    "rounded binary64 2.25330495841181303 = Fin k2" "\<bar>k2 - 2.2533049\<bar> \<le> 0.0000002"
    "rounded binary64 1.500000000304 = Fin k3" "\<bar>k3 - 1.500000000304\<bar> \<le> 0.000000000001"
proof -
  obtain k1 where "rounded binary64 2.28251863069107890 = Fin k1" "\<bar>k1 - 2.2825186\<bar> \<le> 0.0000002"
    using f64_const [of "2.28251863069107890" "2.2825186" "0.0000001" "0.0000002"] by auto
  moreover obtain k2 where "rounded binary64 2.25330495841181303 = Fin k2" "\<bar>k2 - 2.2533049\<bar> \<le> 0.0000002"
    using f64_const [of "2.25330495841181303" "2.2533049" "0.0000001" "0.0000002"] by auto
  moreover obtain k3 where "rounded binary64 1.500000000304 = Fin k3" "\<bar>k3 - 1.500000000304\<bar> \<le> 0.000000000001"
    using f64_const [of "1.500000000304" "1.500000000304" 0 "0.000000000001"] by auto
  ultimately show thesis by (rule that)
qed

lemma sqrtf_of_guess:
  assumes x: "fp_of_bits binary32 (unat i) = Fin x" "1 / 2 ^ 126 \<le> x" "x \<le> 2 ^ 128"
    and y: "fp_of_bits binary32 (unat (0x5f1110a0 - drop_bit 1 i)) = Fin y" "0 < y"
      "0.6332 \<le> x * y\<^sup>2" "x * y\<^sup>2 \<le> 0.7193"
  shows "\<exists>r. sqrtf fused i = Fin r \<and> \<bar>r - sqrt x\<bar> \<le> 2.1 / 2 ^ 24 * sqrt x"
proof -
  define s p where "s = sqrt x" and "p = y * s"
  have "126 = 2 * (63 :: nat)" "128 = 2 * (64 :: nat)" by simp_all
  note s = sqrt_between [OF x(2,3) this, folded s_def]
  have w: "wide (1 / 2 ^ 24) (1 / 2 ^ 150) (2 ^ 127) s" "wide (1 / 2 ^ 24) (1 / 2 ^ 150) (2 ^ 127) 1"
      "wide (1 / 2 ^ 24) (1 / 2 ^ 150) (2 ^ 127) (1 / s)"
    by (rule f32_wide; use s in simp)+
  have ys: "y = p / s" "s\<^sup>2 = x" using s by (simp_all add: p_def)
  have p: "0 < p" "0.6332 \<le> p\<^sup>2" "p\<^sup>2 \<le> 0.7193"
    using y s by (simp_all add: p_def power_mult_distrib mult.commute)
  obtain k1 k2 where k1: "rounded binary32 2.2825186 = Fin k1" "\<bar>k1 - 2.2825186\<bar> \<le> 0.0000002"
      and k2: "rounded binary32 2.2533049 = Fin k2" "\<bar>k2 - 2.2533049\<bar> \<le> 0.0000002"
    using f32_constants by blast
  note step = f32.first_step [OF w p k1(2) k2(2), of fused, unfolded ys(2), folded ys(1)]
  then obtain v where v: "fp_mul binary32 (Fin y) (fp_sub_mul fused binary32 (Fin k1)
        (fp_mul binary32 (fp_mul binary32 (Fin x) (Fin y)) (Fin y))
        (fp_sub binary32 (Fin k2) (fp_mul binary32 (fp_mul binary32 (Fin x) (Fin y)) (Fin y))))
      = Fin (v / s)" "\<bar>v - 1\<bar> \<le> 0.000033" by blast
  obtain r where r: "fp_mul_add fused binary32 (fp_mul binary32 (Fin 0.5) (fp_mul binary32 (Fin x) (Fin (v / s))))
        (fp_sub_mul fused binary32 (Fin 1) (Fin (v / s)) (fp_mul binary32 (Fin x) (Fin (v / s))))
        (fp_mul binary32 (Fin x) (Fin (v / s))) = Fin (s * r)"
      "\<bar>r - 1\<bar> \<le> 2.01 * (1 / 2 ^ 24) + 1.501 * (0.000033 + 2 * (1 / 2 ^ 24))\<^sup>2"
    using f32.last_step_single [OF w(1,2) v(2), of fused, unfolded ys(2)] by auto
  have "\<bar>s * r - s\<bar> \<le> 2.1 / 2 ^ 24 * s"
    by (rule scaled_error [OF r(2) s(5)]) (simp add: power2_eq_square)
  moreover have "sqrtf fused i = Fin (s * r)"
    unfolding sqrtf_def Let_def x(1) y(1) k1(1) k2(1) v(1) by (rule r(1))
  ultimately show ?thesis by (simp add: s_def)
qed

text \<open>A positive normal argument and its guess.\<close>

lemma normal_bounds:
  assumes "f < 2 ^ p" and "1 \<le> e" and "e \<le> top_e" and "a + p = q" and "p + top_e = q + b"
  shows "1 / 2 ^ a \<le> real (2 ^ p + f) * 2 ^ (e - 1) / 2 ^ q" and "real (2 ^ p + f) * 2 ^ (e - 1) / 2 ^ q \<le> 2 ^ b"
proof -
  have f: "2 ^ p \<le> real (2 ^ p + f)" "real (2 ^ p + f) \<le> 2 * 2 ^ p" using assms(1) by simp_all
  have "1 / 2 ^ a = 2 ^ p * 1 / (2 :: real) ^ q" using assms(4) by (auto simp: power_add)
  also have "\<dots> \<le> real (2 ^ p + f) * 2 ^ (e - 1) / 2 ^ q"
    using f(1) by (intro divide_right_mono mult_mono) simp_all
  finally show "1 / 2 ^ a \<le> real (2 ^ p + f) * 2 ^ (e - 1) / 2 ^ q" .
  have "real (2 ^ p + f) * 2 ^ (e - 1) / 2 ^ q \<le> 2 * 2 ^ p * 2 ^ (top_e - 1) / 2 ^ q"
    using f(2) assms(3) by (intro divide_right_mono mult_mono power_increasing) simp_all
  also have "2 * 2 ^ p * 2 ^ (top_e - 1) = (2 :: real) ^ (p + top_e)"
    using assms(2,3) by (cases top_e) (simp_all add: power_add)
  also have "2 ^ (p + top_e) / 2 ^ q = (2 :: real) ^ b" using assms(5) by (simp add: power_add)
  finally show "real (2 ^ p + f) * 2 ^ (e - 1) / 2 ^ q \<le> 2 ^ b" .
qed

lemma sqrtf_accurate:
  fixes i :: u32
  assumes "0x00800000 \<le> i" and "i < 0x7f800000"
  shows "\<exists>x r. fp_of_bits binary32 (unat i) = Fin x \<and> 0 < x \<and> sqrtf fused i = Fin r
    \<and> \<bar>r - sqrt x\<bar> \<le> 2.1 / 2 ^ 24 * sqrt x"
proof -
  define e f where "e = unat i div 2 ^ 23" and "f = unat i mod 2 ^ 23"
  define x where "x = real (2 ^ 23 + f) * 2 ^ (e - 1) / 2 ^ 149"
  have n: "unat i = e * 2 ^ 23 + f" by (simp add: e_def f_def)
  have b: "0x00800000 \<le> unat i" "unat i < 0x7f800000"
    using assms by (simp_all add: word_le_nat_alt word_less_nat_alt)
  have e: "1 \<le> e" "e \<le> 254" using b by (simp_all add: e_def)
  have f: "f < 2 ^ 23" by (simp add: f_def)
  have "unat (drop_bit 1 i) = unat i div 2"
    using unat_drop_bit_eq [of 1 i] by (simp only: drop_bit_eq_div power_one_right)
  moreover have "drop_bit 1 i \<le> 0x5f1110a0" using b calculation by (simp add: word_le_nat_alt)
  ultimately have g: "unat (0x5f1110a0 - drop_bit 1 i)
      = 190 * 2 ^ 23 + 1118368 - (e * 2 ^ 23 + f) div 2"
    by (simp add: unat_sub n)
  have x: "fp_of_bits binary32 (unat i) = Fin x"
    unfolding n x_def using fp_of_bits_normal [of binary32 23 e f] e f by (simp add: binary32_def)
  obtain y where y: "fp_of_bits binary32 (unat (0x5f1110a0 - drop_bit 1 i)) = Fin y" "0 < y"
      "0.6332 \<le> x * y\<^sup>2" "x * y\<^sup>2 \<le> 0.7193"
    using magic_guess [of binary32 23 149 190 e 1118368 f] e f
    unfolding g x_def by (auto simp: binary32_def)
  have xb: "1 / 2 ^ 126 \<le> x" "x \<le> 2 ^ 128"
    using normal_bounds [of f 23 e 254 126 149 128] e f unfolding x_def by simp_all
  have "0 < x" unfolding x_def by (intro divide_pos_pos mult_pos_pos) (simp_all add: add_pos_nonneg)
  then show ?thesis
    using sqrtf_of_guess [OF x xb y, of fused] x by blast
qed

text \<open>
  The same for \<open>sqrt\<close>.  Halving the argument is exact from twice the smallest normal number on.
\<close>

lemma f64_half:
  assumes "f < 2 ^ 52" and "2 \<le> e" and "e \<le> 2046"
  defines "x \<equiv> real (2 ^ 52 + f) * 2 ^ (e - 1) / 2 ^ 1074"
  shows "fp_mul binary64 (Fin 0.5) (Fin x) = Fin (x / 2)"
proof -
  obtain k where "e = 2 + k" using assms(2) by (metis le_iff_add)
  then have "(2 :: real) ^ (e - 1) = 2 * 2 ^ (e - 2)" by simp
  then have "x / 2 = real (2 ^ 52 + f) * 2 ^ (e - 2) / 2 ^ 1074" by (simp add: x_def)
  moreover have "2 ^ 52 + f < 2 ^ 53" using assms(1) by simp
  ultimately have "representable 53 1074 (x / 2)" unfolding representable_def by blast
  then have "nearest 53 1074 (x / 2) = x / 2" by (rule nearest_representable)
  moreover have "1 / 2 ^ 1022 \<le> x" "x \<le> 2 ^ 1024"
    using normal_bounds [of f 52 e 2046 1022 1074 1024] assms(1-3) unfolding x_def by simp_all
  then have "\<bar>x / 2\<bar> < 2 ^ 1024" by simp
  ultimately show ?thesis by (simp add: fp_mul_def fp_round_def rounded_nearest binary64_def Let_def)
qed

lemma sqrt_of_guess:
  assumes x: "fp_of_bits binary64 (unat i) = Fin x" "1 / 2 ^ 1022 \<le> x" "x \<le> 2 ^ 1024"
    and half: "fp_mul binary64 (Fin 0.5) (Fin x) = Fin (x / 2)"
    and y: "fp_of_bits binary64 (unat (0x5fe222142565d5c2 - drop_bit 1 i)) = Fin y" "0 < y"
      "0.6332 \<le> x * y\<^sup>2" "x * y\<^sup>2 \<le> 0.7193"
  shows "\<exists>r. sqrt_double fused i = Fin r \<and> \<bar>r - sqrt x\<bar> \<le> 2.1 / 2 ^ 53 * sqrt x"
proof -
  define s p where "s = sqrt x" and "p = y * s"
  have "1022 = 2 * (511 :: nat)" "1024 = 2 * (512 :: nat)" by simp_all
  note s = sqrt_between [OF x(2,3) this, folded s_def]
  have w: "wide (1 / 2 ^ 53) (1 / 2 ^ 1075) (2 ^ 1023) s" "wide (1 / 2 ^ 53) (1 / 2 ^ 1075) (2 ^ 1023) 1"
      "wide (1 / 2 ^ 53) (1 / 2 ^ 1075) (2 ^ 1023) (1 / s)" "wide (1 / 2 ^ 53) (1 / 2 ^ 1075) (2 ^ 1023) (s / 2)"
      "wide (1 / 2 ^ 53) (1 / 2 ^ 1075) (2 ^ 1023) (1 / 2)"
    by (rule f64_wide; use s in simp)+
  have ys: "y = p / s" "s\<^sup>2 = x" using s by (simp_all add: p_def)
  have p: "0 < p" "0.6332 \<le> p\<^sup>2" "p\<^sup>2 \<le> 0.7193"
    using y s by (simp_all add: p_def power_mult_distrib mult.commute)
  obtain k1 k2 k3 where k1: "rounded binary64 2.28251863069107890 = Fin k1" "\<bar>k1 - 2.2825186\<bar> \<le> 0.0000002"
      and k2: "rounded binary64 2.25330495841181303 = Fin k2" "\<bar>k2 - 2.2533049\<bar> \<le> 0.0000002"
      and k3: "rounded binary64 1.500000000304 = Fin k3" "\<bar>k3 - 1.500000000304\<bar> \<le> 0.000000000001"
    using f64_constants by blast
  note step = f64.first_step [OF w(1,2,3) p k1(2) k2(2), of fused, unfolded ys(2), folded ys(1)]
  then obtain v where v: "fp_mul binary64 (Fin y) (fp_sub_mul fused binary64 (Fin k1)
        (fp_mul binary64 (fp_mul binary64 (Fin x) (Fin y)) (Fin y))
        (fp_sub binary64 (Fin k2) (fp_mul binary64 (fp_mul binary64 (Fin x) (Fin y)) (Fin y))))
      = Fin (v / s)" "\<bar>v - 1\<bar> \<le> 0.000033" by blast
  obtain v' where v': "fp_mul binary64 (Fin (v / s)) (fp_sub_mul fused binary64 (Fin k3)
        (fp_mul binary64 (Fin (x / 2)) (Fin (v / s))) (Fin (v / s))) = Fin (v' / s)"
      "\<bar>v' - 1\<bar> \<le> 0.000000002"
    using f64.second_step [OF w(1,2,3) _ v(2) k3(2), of fused, unfolded ys(2)] by auto
  obtain r where r: "fp_mul binary64 (Fin 2) (fp_mul_add fused binary64 (fp_mul binary64 (Fin (x / 2)) (Fin (v' / s)))
        (fp_sub_mul fused binary64 (Fin 0.5) (Fin (v' / s)) (fp_mul binary64 (Fin (x / 2)) (Fin (v' / s))))
        (fp_mul binary64 (Fin (x / 2)) (Fin (v' / s)))) = Fin (s * r)"
      "\<bar>r - 1\<bar> \<le> 2.01 * (1 / 2 ^ 53) + 1.501 * (0.000000002 + 2 * (1 / 2 ^ 53))\<^sup>2"
    using f64.last_step_double [OF w(4,5) v'(2), of fused, unfolded ys(2)] by auto
  have "\<bar>s * r - s\<bar> \<le> 2.1 / 2 ^ 53 * s"
    by (rule scaled_error [OF r(2) s(5)]) (simp add: power2_eq_square)
  moreover have "sqrt_double fused i = Fin (s * r)"
    unfolding sqrt_double_def Let_def x(1) y(1) k1(1) k2(1) k3(1) v(1) half v'(1) by (rule r(1))
  ultimately show ?thesis by (simp add: s_def)
qed

lemma sqrt_accurate:
  fixes i :: u64
  assumes "0x0020000000000000 \<le> i" and "i < 0x7ff0000000000000"
  shows "\<exists>x r. fp_of_bits binary64 (unat i) = Fin x \<and> 0 < x \<and> sqrt_double fused i = Fin r
    \<and> \<bar>r - sqrt x\<bar> \<le> 2.1 / 2 ^ 53 * sqrt x"
proof -
  define e f where "e = unat i div 2 ^ 52" and "f = unat i mod 2 ^ 52"
  define x where "x = real (2 ^ 52 + f) * 2 ^ (e - 1) / 2 ^ 1074"
  have n: "unat i = e * 2 ^ 52 + f" by (simp add: e_def f_def)
  have b: "0x0020000000000000 \<le> unat i" "unat i < 0x7ff0000000000000"
    using assms by (simp_all add: word_le_nat_alt word_less_nat_alt)
  have e: "2 \<le> e" "e \<le> 2046" using b by (simp_all add: e_def)
  have f: "f < 2 ^ 52" by (simp add: f_def)
  have "unat (drop_bit 1 i) = unat i div 2"
    using unat_drop_bit_eq [of 1 i] by (simp only: drop_bit_eq_div power_one_right)
  moreover have "drop_bit 1 i \<le> 0x5fe222142565d5c2" using b calculation by (simp add: word_le_nat_alt)
  ultimately have g: "unat (0x5fe222142565d5c2 - drop_bit 1 i)
      = 1534 * 2 ^ 52 + 600419875542466 - (e * 2 ^ 52 + f) div 2"
    by (simp add: unat_sub n)
  have x: "fp_of_bits binary64 (unat i) = Fin x"
    unfolding n x_def using fp_of_bits_normal [of binary64 52 e f] e f by (simp add: binary64_def)
  obtain y where y: "fp_of_bits binary64 (unat (0x5fe222142565d5c2 - drop_bit 1 i)) = Fin y" "0 < y"
      "0.6332 \<le> x * y\<^sup>2" "x * y\<^sup>2 \<le> 0.7193"
    using magic_guess [of binary64 52 1074 1534 e 600419875542466 f] e f
    unfolding g x_def by (auto simp: binary64_def)
  have xb: "1 / 2 ^ 1022 \<le> x" "x \<le> 2 ^ 1024"
    using normal_bounds [of f 52 e 2046 1022 1074 1024] e f unfolding x_def by simp_all
  have "0 < x" unfolding x_def by (intro divide_pos_pos mult_pos_pos) (simp_all add: add_pos_nonneg)
  then show ?thesis
    using sqrt_of_guess [OF x xb f64_half [OF f e, folded x_def] y, of fused] x by blast
qed

section \<open>The other arguments\<close>

lemmas fp_ops = fp_mul_def fp_sub_def fp_sub_mul_def fp_mul_add_def fp_add_def fp_round_def

lemma rounded_0 [simp]: "rounded fmt 0 = Fin 0"
  by (simp add: rounded_def round_even_def)

lemma sqrt_nan:
  assumes "fp_of_bits binary32 (unat i) = NaN" and "fp_of_bits binary64 (unat j) = NaN"
  shows "sqrtf fused i = NaN" and "sqrt_double fused j = NaN"
  using assms by (simp_all add: sqrtf_def sqrt_double_def fp_ops Let_def)

lemma fin_cases:
  assumes "case a of Fin y \<Rightarrow> P y | Infinite _ \<Rightarrow> False | NaN \<Rightarrow> False"
  obtains y where "a = Fin y" and "P y"
  using assms by (auto split: fp.splits)

lemma sqrtf_infinite: "sqrtf fused 0x7f800000 = NaN" "sqrtf fused 0xff800000 = Infinite False"
proof -
  obtain k1 k2 where k: "rounded binary32 2.2825186 = Fin k1" "rounded binary32 2.2533049 = Fin k2"
    using f32_constants by blast
  have i: "fp_of_bits binary32 (unat (0x7f800000 :: u32)) = Infinite False"
      "fp_of_bits binary32 (unat (0xff800000 :: u32)) = Infinite True"
    by (simp_all add: fp_of_bits_def binary32_def)
  obtain y where y: "fp_of_bits binary32 (unat (0x5f1110a0 - drop_bit 1 (0x7f800000 :: u32))) = Fin y" "0 < y"
    by (rule fin_cases [where P = "\<lambda>y. 0 < y" and a = "fp_of_bits binary32 (unat (0x5f1110a0 - drop_bit 1 (0x7f800000 :: u32)))"])
      (simp_all add: fp_of_bits_def binary32_def)
  show "sqrtf fused 0x7f800000 = NaN"
    unfolding sqrtf_def Let_def k i(1) y(1) using y(2) by (simp add: fp_ops)
  obtain z where z: "fp_of_bits binary32 (unat (0x5f1110a0 - drop_bit 1 (0xff800000 :: u32))) = Fin z" "z < 0"
    by (rule fin_cases [where P = "\<lambda>y. y < 0" and a = "fp_of_bits binary32 (unat (0x5f1110a0 - drop_bit 1 (0xff800000 :: u32)))"])
      (simp_all add: fp_of_bits_def binary32_def)
  show "sqrtf fused 0xff800000 = Infinite False"
    unfolding sqrtf_def Let_def k i(2) z(1) using z(2) by (simp add: fp_ops)
qed

lemma sqrt_infinite:
  "sqrt_double fused 0x7ff0000000000000 = NaN" "sqrt_double fused 0xfff0000000000000 = Infinite False"
proof -
  obtain k1 k2 k3 where k: "rounded binary64 2.28251863069107890 = Fin k1"
      "rounded binary64 2.25330495841181303 = Fin k2" "rounded binary64 1.500000000304 = Fin k3"
    using f64_constants by blast
  have i: "fp_of_bits binary64 (unat (0x7ff0000000000000 :: u64)) = Infinite False"
      "fp_of_bits binary64 (unat (0xfff0000000000000 :: u64)) = Infinite True"
    by (simp_all add: fp_of_bits_def binary64_def)
  obtain y where y: "fp_of_bits binary64 (unat (0x5fe222142565d5c2 - drop_bit 1 (0x7ff0000000000000 :: u64))) = Fin y" "0 < y"
    by (rule fin_cases [where P = "\<lambda>y. 0 < y" and a = "fp_of_bits binary64 (unat (0x5fe222142565d5c2 - drop_bit 1 (0x7ff0000000000000 :: u64)))"])
      (simp_all add: fp_of_bits_def binary64_def)
  show "sqrt_double fused 0x7ff0000000000000 = NaN"
    unfolding sqrt_double_def Let_def k i(1) y(1) using y(2) by (simp add: fp_ops)
  obtain z where z: "fp_of_bits binary64 (unat (0x5fe222142565d5c2 - drop_bit 1 (0xfff0000000000000 :: u64))) = Fin z" "z < 0"
    by (rule fin_cases [where P = "\<lambda>y. y < 0" and a = "fp_of_bits binary64 (unat (0x5fe222142565d5c2 - drop_bit 1 (0xfff0000000000000 :: u64)))"])
      (simp_all add: fp_of_bits_def binary64_def)
  show "sqrt_double fused 0xfff0000000000000 = Infinite False"
    unfolding sqrt_double_def Let_def k i(2) z(1) using z(2) by (simp add: fp_ops)
qed

lemma f32_finite:
  assumes "\<bar>x\<bar> < 2 ^ 127"
  obtains v where "rounded binary32 x = Fin v" "\<bar>v\<bar> \<le> 2 * \<bar>x\<bar> + 1"
proof -
  obtain v where v: "rounded binary32 x = Fin v" "\<bar>v - x\<bar> \<le> 1 / 2 ^ 24 * \<bar>x\<bar> + 1 / 2 ^ 150"
    using f32.round_error [OF assms] by blast
  have "0 \<le> \<bar>x\<bar>" by simp
  then have "1 / 2 ^ 24 * \<bar>x\<bar> + 1 / 2 ^ 150 \<le> \<bar>x\<bar> + 1" by simp
  with v(2) have "\<bar>v\<bar> \<le> 2 * \<bar>x\<bar> + 1" by (intro near_le [of v x "\<bar>x\<bar> + 1"]) simp_all
  then show thesis using that v(1) by blast
qed

lemma sqrtf_of_zero:
  assumes x: "fp_of_bits binary32 (unat i) = Fin 0"
    and y: "fp_of_bits binary32 (unat (0x5f1110a0 - drop_bit 1 i)) = Fin y" "\<bar>y\<bar> \<le> 2 ^ 65"
  shows "sqrtf fused i = Fin 0"
proof -
  obtain k1 k2 where k: "rounded binary32 2.2825186 = Fin k1" "\<bar>k1 - 2.2825186\<bar> \<le> 0.0000002"
      "rounded binary32 2.2533049 = Fin k2" "\<bar>k2 - 2.2533049\<bar> \<le> 0.0000002"
    using f32_constants by blast
  have kb: "\<bar>k1\<bar> \<le> 3" "\<bar>k2\<bar> \<le> 3"
    by (rule near_le [OF k(2)], simp) (rule near_le [OF k(4)], simp)
  obtain a where a: "rounded binary32 k2 = Fin a"
    by (rule f32_finite [of k2]) (use kb in auto)
  obtain b where b: "rounded binary32 k1 = Fin b" "\<bar>b\<bar> \<le> 7"
    by (rule f32_finite [of k1]) (use kb in auto)
  obtain d where d: "rounded binary32 1 = Fin d" by (rule f32_finite [of 1]) auto
  have "\<bar>y * b\<bar> \<le> 2 ^ 68" by (rule abs_mult_le [OF y(2) b(2)]) simp
  then obtain g where g: "rounded binary32 (y * b) = Fin g"
    by (auto intro: f32_finite [of "y * b"])
  show ?thesis
    unfolding sqrtf_def Let_def x y(1) k(1,3) by (simp add: fp_ops a b(1) d g)
qed

lemma sqrtf_zero: "sqrtf fused 0 = Fin 0" "sqrtf fused 0x80000000 = Fin 0"
proof -
  obtain y where y: "fp_of_bits binary32 (unat (0x5f1110a0 - drop_bit 1 (0 :: u32))) = Fin y" "\<bar>y\<bar> \<le> 2 ^ 65"
    by (rule fin_cases [where P = "\<lambda>y. \<bar>y\<bar> \<le> 2 ^ 65"
          and a = "fp_of_bits binary32 (unat (0x5f1110a0 - drop_bit 1 (0 :: u32)))"])
      (simp_all add: fp_of_bits_def binary32_def)
  show "sqrtf fused 0 = Fin 0"
    by (rule sqrtf_of_zero [OF _ y]) (simp add: fp_of_bits_def binary32_def)
  obtain z where z: "fp_of_bits binary32 (unat (0x5f1110a0 - drop_bit 1 (0x80000000 :: u32))) = Fin z" "\<bar>z\<bar> \<le> 2 ^ 65"
    by (rule fin_cases [where P = "\<lambda>y. \<bar>y\<bar> \<le> 2 ^ 65"
          and a = "fp_of_bits binary32 (unat (0x5f1110a0 - drop_bit 1 (0x80000000 :: u32)))"])
      (simp_all add: fp_of_bits_def binary32_def)
  show "sqrtf fused 0x80000000 = Fin 0"
    by (rule sqrtf_of_zero [OF _ z]) (simp add: fp_of_bits_def binary32_def)
qed

text \<open>
  A negative argument sends the exponent of the guess far past the intended one: for \<open>-1.0f\<close> the
  product \<open>x * y * y\<close> overflows and infinity comes out, not a NaN.
\<close>

lemma rounded_overflow:
  assumes "0 < digits fmt" and "2 * 2 ^ largest fmt \<le> \<bar>x\<bar>"
  shows "rounded fmt x = Infinite (x < 0)"
proof -
  let ?v = "nearest (digits fmt) (smallest fmt) x"
  have "(2 :: real) ^ 1 \<le> 2 ^ digits fmt" using assms(1) by (intro power_increasing) simp_all
  then have "\<bar>x\<bar> / 2 ^ digits fmt \<le> \<bar>x\<bar> / 2" by (intro divide_left_mono) simp_all
  moreover have "(1 :: real) / 2 ^ Suc (smallest fmt) \<le> 1 / 2" by (simp add: field_simps)
  moreover have "(1 :: real) \<le> 2 ^ largest fmt" by simp
  ultimately have err: "\<bar>?v - x\<bar> \<le> \<bar>x\<bar> / 2"
    using nearest_error [OF assms(1), of "smallest fmt" x] assms(2) by linarith
  then have "2 ^ largest fmt \<le> \<bar>?v\<bar>" using assms(2) by linarith
  moreover have "?v < 0 \<longleftrightarrow> x < 0" using err assms(2) zero_less_power [of "2 :: real" "largest fmt"] by linarith
  ultimately show ?thesis by (simp add: rounded_nearest Let_def)
qed

lemma sqrtf_minus_one: "sqrtf fused 0xbf800000 = Infinite False"
proof -
  obtain k1 k2 where k: "rounded binary32 2.2825186 = Fin k1" "rounded binary32 2.2533049 = Fin k2"
    using f32_constants by blast
  define a where "a = real (2 ^ 23 + 0x5110a0) * 2 ^ 253 / 2 ^ 149"
  have x: "fp_of_bits binary32 (unat (0xbf800000 :: u32)) = Fin (- 1)"
    and y: "fp_of_bits binary32 (unat (0x5f1110a0 - drop_bit 1 (0xbf800000 :: u32))) = Fin (- a)"
    by (simp_all add: fp_of_bits_def binary32_def a_def)
  have "representable 24 149 a"
    by (rule representableI [OF a_def]) simp
  then have "nearest 24 149 a = a" by (rule nearest_representable)
  then have r: "rounded binary32 a = Fin a"
    by (simp add: rounded_nearest binary32_def Let_def) (simp add: a_def)
  have o: "rounded binary32 (- (a * a)) = Infinite True"
    using rounded_overflow [of binary32 "- (a * a)"] by (simp add: binary32_def a_def)
  have a: "0 < a" by (simp add: a_def)
  show ?thesis
    unfolding sqrtf_def Let_def k x y using a by (simp add: fp_ops r o)
qed

section \<open>The properties\<close>

text \<open>
  C13. For every positive normal argument, with or without fused multiply-adds, \<open>sqrtf\<close> returns a
  finite number within the relative error \<open>2.1 * 2 ^ - 24\<close> of the square root of the argument.
\<close>

theorem sqrtf_relative_error:
  assumes "0x00800000 \<le> i" and "i < 0x7f800000"
  shows "\<exists>x r. fp_of_bits binary32 (unat i) = Fin x \<and> 0 < x \<and> sqrtf fused i = Fin r
    \<and> \<bar>r - sqrt x\<bar> \<le> 2.1 / 2 ^ 24 * sqrt x"
  using assms by (rule sqrtf_accurate)

lemma sqrtf_relative_error_witness:
  "\<exists>r. sqrtf False 0x40000000 = Fin r \<and> \<bar>r - sqrt 2\<bar> \<le> 2.1 / 2 ^ 24 * sqrt 2"
  using sqrtf_relative_error [where i = "0x40000000" and fused = False] by (auto simp: fp_of_bits_def binary32_def)

text \<open>
  C14. For every positive normal argument but those of the smallest exponent, \<open>sqrt\<close> returns a finite
  number within the relative error \<open>2.1 * 2 ^ - 53\<close> of the square root of the argument.
\<close>

theorem sqrt_relative_error:
  assumes "0x0020000000000000 \<le> i" and "i < 0x7ff0000000000000"
  shows "\<exists>x r. fp_of_bits binary64 (unat i) = Fin x \<and> 0 < x \<and> sqrt_double fused i = Fin r
    \<and> \<bar>r - sqrt x\<bar> \<le> 2.1 / 2 ^ 53 * sqrt x"
  using assms by (rule sqrt_accurate)

lemma sqrt_relative_error_witness:
  "\<exists>r. sqrt_double True 0x4000000000000000 = Fin r \<and> \<bar>r - sqrt 2\<bar> \<le> 2.1 / 2 ^ 53 * sqrt 2"
  using sqrt_relative_error [where i = "0x4000000000000000" and fused = True] by (auto simp: fp_of_bits_def binary64_def)

end
