(* ===== verification/Printf_Directives.thy ===== *)
theory Printf_Directives
  imports Printf_Spec
begin

text \<open>
  A format as data: a list of directives with flags, width, precision, length modifier and
  conversion, its concrete text, and what it stands for; and that the parser of the formatter reads
  the parts of a directive back from its text.
\<close>

section \<open>Abstract formats\<close>

datatype flag = Minus | Plus | Zero | Hash | Blank

datatype amount = Absent | Digits nat | Star

datatype length_mod = No_length | Mod_hh | Mod_h | Mod_l | Mod_ll | Mod_z | Mod_j | Mod_t

datatype conv = Dec | Uns | Hex_low | Hex_up | Octal | Binary | Pointer | String_arg | Char_arg | Dump

datatype directive =
    Plain byte
  | Percent
  | Conv "flag list" amount "amount option" length_mod conv

text \<open>The text of a format.\<close>

fun flag_char :: "flag \<Rightarrow> byte" where
  "flag_char Minus = 45" | "flag_char Plus = 43" | "flag_char Zero = 48" | "flag_char Hash = 35"
| "flag_char Blank = 32"

fun amount_text :: "amount \<Rightarrow> byte list" where
  "amount_text Absent = []"
| "amount_text (Digits n) = map (digit_char 97) (number_digits 10 0 n)"
| "amount_text Star = [42]"

fun precision_text :: "amount option \<Rightarrow> byte list" where
  "precision_text None = []"
| "precision_text (Some a) = 46 # amount_text a"

fun length_text :: "length_mod \<Rightarrow> byte list" where
  "length_text No_length = []" | "length_text Mod_hh = [104, 104]" | "length_text Mod_h = [104]"
| "length_text Mod_l = [108]" | "length_text Mod_ll = [108, 108]" | "length_text Mod_z = [122]"
| "length_text Mod_j = [106]" | "length_text Mod_t = [116]"

fun conv_char :: "conv \<Rightarrow> byte" where
  "conv_char Dec = 100" | "conv_char Uns = 117" | "conv_char Hex_low = 120" | "conv_char Hex_up = 88"
| "conv_char Octal = 111" | "conv_char Binary = 98" | "conv_char Pointer = 112"
| "conv_char String_arg = 115" | "conv_char Char_arg = 99" | "conv_char Dump = 72"

fun directive_text :: "directive \<Rightarrow> byte list" where
  "directive_text (Plain c) = [c]"
| "directive_text Percent = [37, 37]"
| "directive_text (Conv fs w p l c) =
     37 # map flag_char fs @ amount_text w @ precision_text p @ length_text l @ [conv_char c]"

definition format_text :: "directive list \<Rightarrow> byte list" where
  "format_text ds = concat (map directive_text ds) @ [0]"

text \<open>
  The directives of the language: a literal is neither the terminator nor a percent sign, a width
  does not begin with a zero (that would be the flag), and strings, dumps and pointers have no
  length modifier.
\<close>

fun well_formed :: "directive \<Rightarrow> bool" where
  "well_formed (Plain c) \<longleftrightarrow> c \<noteq> 0 \<and> c \<noteq> 37"
| "well_formed Percent \<longleftrightarrow> True"
| "well_formed (Conv fs w p l c) \<longleftrightarrow> w \<noteq> Digits 0
     \<and> (c \<in> {String_arg, Dump, Pointer} \<longrightarrow> l = No_length)"

section \<open>What the formatter makes of them\<close>

definition flags_of :: "flag list \<Rightarrow> fmt_flags" where
  "flags_of fs = \<lparr>left = Minus \<in> set fs, pad_zero = Zero \<in> set fs, add_sign = Plus \<in> set fs,
     bit64 = False, bit16 = False, bit8 = False, alt = Hash \<in> set fs, space = Blank \<in> set fs\<rparr>"

text \<open>A width or a precision; the formatter takes a negative argument as zero.\<close>

fun amount_value :: "amount \<Rightarrow> vararg list \<Rightarrow> (nat \<times> vararg list) option" where
  "amount_value Absent args = Some (0, args)"
| "amount_value (Digits n) args = Some (n, args)"
| "amount_value Star (Arg32 w # args) = Some (nat (sint w), args)"
| "amount_value Star _ = None"

text \<open>The number an integer conversion prints.\<close>

definition wide_arg :: "length_mod \<Rightarrow> conv \<Rightarrow> bool" where
  "wide_arg l c \<longleftrightarrow> l \<in> {Mod_l, Mod_ll, Mod_z, Mod_j, Mod_t} \<or> c = Pointer"

fun narrow_value :: "length_mod \<Rightarrow> conv \<Rightarrow> u32 \<Rightarrow> int" where
  "narrow_value Mod_h c w = (if c = Dec then sint (ucast w :: u16) else uint w mod 2 ^ 16)"
| "narrow_value Mod_hh c w = (if c = Dec then sint (ucast w :: byte) else uint w mod 2 ^ 8)"
| "narrow_value _ c w = (if c = Dec then sint w else uint w)"

fun number_value :: "length_mod \<Rightarrow> conv \<Rightarrow> vararg list \<Rightarrow> (int \<times> vararg list) option" where
  "number_value l c (Arg64 v # args) = (if wide_arg l c then Some (if c = Dec then sint v else uint v, args) else None)"
| "number_value l c (Arg32 w # args) = (if wide_arg l c then None else Some (narrow_value l c w, args))"
| "number_value l c _ = None"

definition base_of :: "conv \<Rightarrow> nat" where
  "base_of c = (if c \<in> {Hex_low, Hex_up, Pointer} then 16 else if c = Octal then 8
     else if c = Binary then 2 else 10)"

definition prefix_of :: "conv \<Rightarrow> byte list" where
  "prefix_of c = (if c = Pointer then [48, 120] else if c = Octal then [48] else [])"

definition sign_of :: "flag list \<Rightarrow> length_mod \<Rightarrow> conv \<Rightarrow> int \<Rightarrow> byte list" where
  "sign_of fs l c z =
     (if z < 0 then [45]
      else if c \<noteq> Dec then []
      else if Plus \<in> set fs \<and> l \<notin> {Mod_h, Mod_hh} then [43]
      else if Blank \<in> set fs then [32]
      else [])"

definition letters_of :: "flag list \<Rightarrow> conv \<Rightarrow> byte" where
  "letters_of fs c = (if c \<in> {Hex_up, Pointer} \<or> Hash \<in> set fs then 65 else 97)"

definition hex_pair :: "byte \<Rightarrow> byte list" where
  "hex_pair b = [digit_char 97 (unat b div 16), digit_char 97 (unat b mod 16)]"

text \<open>
  What a conversion prints in this implementation, corners included (\<open>Printf_Documented\<close> has what it
  should print), with the arguments it leaves; \<open>None\<close> where the behaviour is not specified here: missing and wrong arguments, more than 128 columns, strings without terminator or of a
  gigabyte, and the dump of bytes that a signed \<open>char\<close> makes negative.
\<close>

definition conv_output ::
  "target \<Rightarrow> flag list \<Rightarrow> nat \<Rightarrow> nat \<Rightarrow> length_mod \<Rightarrow> conv \<Rightarrow> vararg list \<Rightarrow> (byte list \<times> vararg list) option" where
  "conv_output t fs w p l c args =
     (if c = String_arg then
        (case args of
           ArgPtr s # args \<Rightarrow>
             let s = (case s of None \<Rightarrow> null_text | Some s \<Rightarrow> s) in
             if terminated s \<and> int (length s) < 2 ^ 30 then Some (field_text (flags_of fs) w p (chars_of s), args)
             else None
         | _ \<Rightarrow> None)
      else if c = Dump then
        (case args of
           ArgPtr (Some s) # args \<Rightarrow>
             if 0 < p \<and> p \<le> length s \<and> (\<forall>b \<in> set (take p s). b < 128 \<or> \<not> char_is_signed t)
             then Some (concat (map hex_pair (take p s)), args)
             else None
         | _ \<Rightarrow> None)
      else if c = Char_arg then
        (case args of Arg32 x # args \<Rightarrow> Some ([ucast x], args) | _ \<Rightarrow> None)
      else
        (case number_value l c args of
           None \<Rightarrow> None
         | Some (z, args) \<Rightarrow>
             if p + length (sign_of fs l c z) \<le> 67 then
               Some (prefix_of c @ field_text ((flags_of fs)\<lparr>pad_zero := c = Pointer \<or> Zero \<in> set fs\<rparr>) w 0
                 (sign_of fs l c z @ map (digit_char (letters_of fs c)) (number_digits (base_of c) p (nat \<bar>z\<bar>))), args)
             else None))"

fun directive_output :: "target \<Rightarrow> directive \<Rightarrow> vararg list \<Rightarrow> (byte list \<times> vararg list) option" where
  "directive_output t (Plain c) args = Some ([c], args)"
| "directive_output t Percent args = Some ([37], args)"
| "directive_output t (Conv fs w p l c) args = do {
     (w, args) \<leftarrow> amount_value w args;
     (p, args) \<leftarrow> amount_value (case p of None \<Rightarrow> Absent | Some a \<Rightarrow> a) args;
     if w > 128 \<or> p > 128 then None else conv_output t fs w p l c args
   }"

fun format_output :: "target \<Rightarrow> directive list \<Rightarrow> vararg list \<Rightarrow> (byte list \<times> vararg list) option" where
  "format_output t [] args = Some ([], args)"
| "format_output t (d # ds) args = do {
     (xs, args) \<leftarrow> directive_output t d args;
     (ys, args) \<leftarrow> format_output t ds args;
     Some (xs @ ys, args)
   }"

section \<open>Parsing\<close>

definition is_flag :: "byte \<Rightarrow> bool" where
  "is_flag c \<longleftrightarrow> c \<in> {45, 43, 48, 35, 32}"

lemma set_flag_other: "\<not> is_flag c \<Longrightarrow> set_flag c flags = None"
  by (simp add: is_flag_def set_flag_def)

fun with_flag :: "flag \<Rightarrow> fmt_flags \<Rightarrow> fmt_flags" where
  "with_flag Minus flags = flags\<lparr>left := True\<rparr>"
| "with_flag Plus flags = flags\<lparr>add_sign := True\<rparr>"
| "with_flag Zero flags = flags\<lparr>pad_zero := True\<rparr>"
| "with_flag Hash flags = flags\<lparr>alt := True\<rparr>"
| "with_flag Blank flags = flags\<lparr>space := True\<rparr>"

lemma set_flag_char [simp]: "set_flag (flag_char x) flags = Some (with_flag x flags)"
  by (cases x) (simp_all add: set_flag_def)

lemma with_flags: "fold with_flag fs flags = flags\<lparr>left := left flags \<or> Minus \<in> set fs,
    pad_zero := pad_zero flags \<or> Zero \<in> set fs, add_sign := add_sign flags \<or> Plus \<in> set fs,
    alt := alt flags \<or> Hash \<in> set fs, space := space flags \<or> Blank \<in> set fs\<rparr>"
proof (induction fs arbitrary: flags)
  case (Cons x fs)
  show ?case unfolding fold_simps Cons by (cases x) auto
qed simp

lemma flags_of_fold: "fold with_flag fs no_flags = flags_of fs"
  by (simp add: with_flags flags_of_def no_flags_def)

lemma read_flags_text:
  assumes "\<not> is_flag d"
  shows "c # f = map flag_char fs @ d # rest \<Longrightarrow> read_flags c f flags = Inr (d, rest, fold with_flag fs flags)"
proof (induction fs arbitrary: c f flags)
  case Nil
  then show ?case using assms by (simp add: read_flags_none set_flag_other)
next
  case (Cons x fs)
  then obtain c' f' where f: "f = c' # f'" "c' # f' = map flag_char fs @ d # rest"
    by (cases fs) auto
  have "c = flag_char x" using Cons.prems by simp
  then show ?case unfolding f(1) using Cons.IH [OF f(2)] by simp
qed

lemma digit_char_digit: "d < 10 \<Longrightarrow> is_digit (digit_char 97 d) \<and> char_val t (digit_char 97 d) = 48 + int d"
proof -
  assume d: "d < 10"
  then have u: "unat (digit_char 97 d) = 48 + d" using digit_char_nonzero [of d 97] by simp
  then have "is_digit (digit_char 97 d)" using d by (simp add: is_digit_def word_le_nat_alt)
  then show ?thesis using digit_val_char [of "digit_char 97 d" t] u by (simp add: digit_val_def)
qed

lemma read_number_text:
  assumes "\<not> is_digit d"
  shows "c # f = map (digit_char 97) ds @ d # rest \<Longrightarrow> \<forall>x \<in> set ds. x < 10
    \<Longrightarrow> read_number t c f n = Inr (d, rest, foldl (\<lambda>n x. 10 * n + of_nat x) n ds)"
proof (induction ds arbitrary: c f n)
  case Nil
  then show ?case using assms by (simp add: read_number_none)
next
  case (Cons x ds)
  then obtain c' f' where f: "f = c' # f'" "c' # f' = map (digit_char 97) ds @ d # rest"
    by (cases ds) auto
  have "10 * n + word_of_int (char_val t (digit_char 97 x)) - 48 = 10 * n + of_nat x"
    using digit_char_digit [of x t] Cons.prems(2) by simp
  moreover have "c = digit_char 97 x" using Cons.prems by simp
  ultimately show ?case
    unfolding f(1) using Cons.IH [OF f(2)] Cons.prems(2) digit_char_digit [of x t] by (simp add: isdigit_def)
qed

lemma foldl_of_nat: "foldl (\<lambda>n x. 10 * n + of_nat x) (of_nat m :: u32) ds = of_nat (foldl (\<lambda>n x. 10 * n + x) m ds)"
proof (induction ds arbitrary: m)
  case (Cons x ds)
  have "10 * of_nat m + of_nat x = (of_nat (10 * m + x) :: u32)" by simp
  then show ?case using Cons [of "10 * m + x"] by simp
qed simp

lemma read_digits_text:
  assumes "\<not> is_digit d" and "c # f = map (digit_char 97) (number_digits 10 0 n) @ d # rest"
  shows "read_number t c f 0 = Inr (d, rest, of_nat n)"
proof -
  have "of_digits 10 (number_digits 10 0 n) = n"
    using of_digits_of [of 10 n] by (simp add: number_digits_def of_digits_def)
  then show ?thesis
    using read_number_text [OF assms(1,2) number_digits_decimal, of t 0] foldl_of_nat [of 0 "number_digits 10 0 n"]
    by (simp add: of_digits_def)
qed

lemma number_digits_nonempty: "number_digits 10 0 n \<noteq> []"
  using digits_of_hd [of 10 n] by (simp add: number_digits_def)

lemma read_amount:
  assumes "\<not> is_digit d" and "d \<noteq> 42" and "c # f = amount_text a @ d # rest"
    and "amount_value a args = Some (n, args')"
  shows "read_field t c f args = Inr (d, rest, args', of_nat n)"
proof (cases a)
  case Absent
  then show ?thesis using assms by (auto simp: read_field_def read_number_none)
next
  case (Digits m)
  obtain x ds where x: "number_digits 10 0 m = x # ds" using number_digits_nonempty [of m] by (cases "number_digits 10 0 m") auto
  then have "x < 10" using number_digits_decimal [of 0 m] by simp
  then have "is_digit c" using digit_char_digit [of x t] assms(3) Digits x by simp
  then have "c \<noteq> 42" by (auto simp: is_digit_def)
  then show ?thesis
    using read_digits_text [OF assms(1), of c f m rest t] assms Digits by (simp add: read_field_def)
next
  case Star
  then obtain w where w: "args = Arg32 w # args'" "n = nat (sint w)"
    using assms(4) by (cases "(a, args)" rule: amount_value.cases) auto
  have "(if sint w < 0 then 0 else word_of_int (sint w)) = (of_nat (nat (sint w)) :: u32)" by simp
  then show ?thesis using assms(3) Star w by (simp add: read_field_def va_int_def)
qed

lemma read_precision_text:
  assumes "\<not> is_digit d" and "d \<noteq> 42" and "d \<noteq> 46" and "c # f = precision_text p @ d # rest"
    and "amount_value (case p of None \<Rightarrow> Absent | Some a \<Rightarrow> a) args = Some (n, args')"
  shows "read_precision t c f args = Inr (d, rest, args', of_nat n)"
proof (cases p)
  case None
  then show ?thesis using assms by (auto simp: read_precision_def)
next
  case (Some a)
  then obtain c' f' where f: "c = 46" "f = c' # f'" "c' # f' = amount_text a @ d # rest"
    using assms(4) by (cases "amount_text a") auto
  show ?thesis
    unfolding f(1,2) using read_amount [OF assms(1,2) f(3)] assms(5) Some by (simp add: read_precision_def)
qed

text \<open>The flags a length modifier sets; \<open>%p\<close> sets its own.\<close>

definition length_flags :: "length_mod \<Rightarrow> conv \<Rightarrow> fmt_flags \<Rightarrow> fmt_flags" where
  "length_flags l c flags =
     (if l = Mod_hh then flags\<lparr>bit8 := True\<rparr>
      else if l = Mod_h then flags\<lparr>bit16 := True\<rparr>
      else if l \<noteq> No_length then flags\<lparr>bit64 := True\<rparr>
      else if c = Pointer then flags\<lparr>bit64 := True, pad_zero := True\<rparr>
      else flags)"

lemma read_length_text:
  assumes "c # f = length_text l @ conv_char cv # rest" and "cv = Pointer \<longrightarrow> l = No_length"
  shows "read_length c f flags = Inr (conv_char cv, rest, length_flags l cv flags)"
  using assms by (cases l; cases cv) (simp_all add: read_length_def length_flags_def)

text \<open>The characters a part of a directive can begin with.\<close>

lemma length_hd:
  "length_text l @ conv_char c # rest = d # r \<Longrightarrow> \<not> is_digit d \<and> \<not> is_flag d \<and> d \<notin> {0, 37, 42, 46}"
  by (cases l; cases c) (auto simp: is_digit_def is_flag_def)

lemma precision_hd:
  "precision_text p @ length_text l @ conv_char c # rest = d # r
    \<Longrightarrow> \<not> is_digit d \<and> \<not> is_flag d \<and> d \<notin> {0, 37, 42}"
  by (cases p) (auto simp: is_digit_def is_flag_def dest: length_hd)

lemma width_hd:
  assumes "amount_text w @ precision_text p @ length_text l @ conv_char c # rest = d # r" and "w \<noteq> Digits 0"
  shows "\<not> is_flag d \<and> d \<notin> {0, 37}"
proof (cases w)
  case Absent
  then show ?thesis using assms precision_hd by simp
next
  case (Digits n)
  then have n: "0 < n" using assms(2) by simp
  then obtain x xs where x: "digits_of 10 n = x # xs" "x \<noteq> 0"
    using digits_of_hd [of 10 n] by (cases "digits_of 10 n") auto
  then have "x < 10" using digits_of_less [of 10 n] by simp
  then have u: "unat (digit_char 97 x) = 48 + x" using digit_char_nonzero [of x 97] by simp
  have "d = digit_char 97 x" using assms(1) Digits n x(1) by (simp add: number_digits_def)
  then have "unat d = 48 + x" using u by simp
  then have "d \<noteq> 45" "d \<noteq> 43" "d \<noteq> 48" "d \<noteq> 35" "d \<noteq> 32" "d \<noteq> 0" "d \<noteq> 37"
    using x(2) by auto
  then show ?thesis by (simp add: is_flag_def)
next
  case Star
  then show ?thesis using assms by (auto simp: is_flag_def)
qed

end
