(* ===== verification/Printf_Refines.thy ===== *)
theory Printf_Refines
  imports Printf_Directives
begin

text \<open>
  The formatter refines the language of formats: on the text of a list of directives it prints what
  the directives stand for.  First the numbers, at every length, then the conversions, then the run
  over the list; at the end the corners the language makes visible.
\<close>

section \<open>Numbers\<close>

text \<open>The sign as a byte, zero for none, as the formatter keeps it.\<close>

definition sign_byte :: "flag list \<Rightarrow> length_mod \<Rightarrow> conv \<Rightarrow> int \<Rightarrow> byte" where
  "sign_byte fs l c z =
     (if z < 0 then 45
      else if c \<noteq> Dec then 0
      else if Plus \<in> set fs \<and> l \<notin> {Mod_h, Mod_hh} then 43
      else if Blank \<in> set fs then 32
      else 0)"

lemma sign_of_byte: "sign_of fs l c z = (if sign_byte fs l c z = 0 then [] else [sign_byte fs l c z])"
  by (simp add: sign_of_def sign_byte_def)

lemma sign_no_nul: "0 \<notin> set (sign_of fs l c z)"
  by (simp add: sign_of_def)

lemma unat_nonneg:
  fixes v :: "'a::len word"
  assumes "\<not> sint v < 0"
  shows "unat v = nat (sint v)"
proof -
  have "sint v < 2 ^ (LENGTH('a) - 1)" by (rule sint_lt)
  also have "\<dots> \<le> 2 ^ LENGTH('a)" by (intro power_increasing) auto
  finally have "uint v = sint v" using assms by (simp add: uint_sint [of v] take_bit_int_eq_self)
  then show ?thesis by (simp flip: nat_uint_eq)
qed

lemma unat_minus_sint:
  fixes v :: "'a::len word"
  assumes "sint v < 0" and "LENGTH('a) \<le> 64"
  shows "unat (word_of_int (- sint v) :: u64) = nat (- sint v)"
proof (rule unat_word_of_int)
  have "- (2 ^ (LENGTH('a) - 1)) \<le> sint v" by (rule sint_ge)
  moreover have "(2 :: int) ^ (LENGTH('a) - 1) < 2 ^ 64" using assms(2) by (intro power_strict_increasing) auto
  ultimately show "- sint v < 2 ^ 64" by linarith
qed (use assms in simp)

text \<open>Widening keeps a magnitude.\<close>

lemma narrow_magnitude:
  fixes v :: "'a::len word"
  assumes "LENGTH('a) \<le> 64"
  shows "\<exists>u. (if sint v < 0 then (45, word_of_int (- sint v)) else (0 :: byte, ucast v :: u64))
    = (if sint v < 0 then 45 else 0, u) \<and> unat u = nat \<bar>sint v\<bar>"
proof (cases "sint v < 0")
  case True
  then show ?thesis using unat_minus_sint [OF True assms] by simp
next
  case False
  have "unat (ucast v :: u64) = unat v" using assms by (simp add: unat_ucast_up del: unsigned_ucast_eq)
  then show ?thesis using False unat_nonneg [OF False] by simp
qed

lemma signed_value_16:
  assumes "bit16 flags"
  shows "\<exists>u. signed_value flags v =
      (if sint (ucast v :: u16) < 0 then 45 else if space flags then 32 else 0, u)
    \<and> unat u = nat \<bar>sint (ucast v :: u16)\<bar>"
proof -
  obtain u where u: "(if sint (ucast v :: u16) < 0 then (45, word_of_int (- sint (ucast v :: u16)))
      else (0 :: byte, ucast (ucast v :: u16) :: u64)) = (if sint (ucast v :: u16) < 0 then 45 else 0, u)"
      "unat u = nat \<bar>sint (ucast v :: u16)\<bar>"
    using narrow_magnitude [of "ucast v :: u16"] by auto
  then show ?thesis using assms by (simp only: signed_value_def Let_def if_True prod.case) auto
qed

lemma signed_value_8:
  assumes "bit8 flags" and "\<not> bit16 flags"
  shows "\<exists>u. signed_value flags v =
      (if sint (ucast v :: byte) < 0 then 45 else if space flags then 32 else 0, u)
    \<and> unat u = nat \<bar>sint (ucast v :: byte)\<bar>"
proof -
  obtain u where u: "(if sint (ucast v :: byte) < 0 then (45, word_of_int (- sint (ucast v :: byte)))
      else (0 :: byte, ucast (ucast v :: byte) :: u64)) = (if sint (ucast v :: byte) < 0 then 45 else 0, u)"
      "unat u = nat \<bar>sint (ucast v :: byte)\<bar>"
    using narrow_magnitude [of "ucast v :: byte"] by auto
  then show ?thesis using assms by (simp only: signed_value_def Let_def if_True if_False prod.case) auto
qed

lemma signed_value_64:
  assumes "bit64 flags" and "\<not> bit16 flags" and "\<not> bit8 flags"
  shows "\<exists>u. signed_value flags v =
      (if sint v < 0 then 45 else if add_sign flags then 43 else if space flags then 32 else 0, u)
    \<and> unat u = nat \<bar>sint v\<bar>"
proof (cases "sint v < 0")
  case True
  have minus: "word_of_int (- sint v) = - v" by simp
  have "unat (if v \<noteq> push_bit 63 1 then - v else v) = nat (- sint v)"
  proof (cases "v = push_bit 63 1")
    case False
    then show ?thesis using unat_minus_sint [OF True] unfolding minus by simp
  next
    case eq: True
    have "sint (push_bit 63 1 :: u64) = - (2 ^ 63)" by simp
    then show ?thesis using eq by simp
  qed
  then show ?thesis using assms True by (simp add: signed_value_def Let_def)
next
  case False
  then show ?thesis using assms unat_nonneg [OF False] by (simp add: signed_value_def Let_def)
qed

text \<open>The argument an integer conversion loads, and the magnitude of a signed one.\<close>

definition magnitude_ok :: "fmt_flags \<Rightarrow> conv \<Rightarrow> byte \<Rightarrow> int \<Rightarrow> u64 \<Rightarrow> bool" where
  "magnitude_ok flags c sign z v \<longleftrightarrow>
     (if c = Dec then \<exists>u. signed_value flags v = (sign, u) \<and> unat u = nat \<bar>z\<bar> else unat v = nat z \<and> 0 \<le> z)"

lemma low_bits:
  fixes w :: u32
  assumes "k \<le> 32"
  shows "uint (ucast w AND mask k :: u64) = uint w mod 2 ^ k"
    and "LENGTH('a::len) = k \<Longrightarrow> ucast (ucast w AND mask k :: u64) = (ucast w :: 'a word)"
proof -
  have "unat (ucast w :: u64) = unat w" by (simp add: unat_ucast_up del: unsigned_ucast_eq)
  then have "unat (ucast w AND mask k :: u64) = unat w mod 2 ^ k" by (simp add: unat_and_mask del: unsigned_ucast_eq)
  then show "uint (ucast w AND mask k :: u64) = uint w mod 2 ^ k"
    by (metis of_nat_mod of_nat_numeral of_nat_power uint_nat)
next
  assume "LENGTH('a) = k"
  then show "ucast (ucast w AND mask k :: u64) = (ucast w :: 'a word)"
    using assms by (intro bit_word_eqI) (auto simp: bit_simps)
qed

lemma unat_uint: "uint v = z \<Longrightarrow> unat v = nat z \<and> 0 \<le> z"
  by auto

lemma load_wide:
  assumes "wide_arg l c" and "c = Pointer \<longrightarrow> l = No_length"
  shows "load_value (length_flags l c (flags_of fs)) (Arg64 v # args) = Inr (v, args)
    \<and> magnitude_ok (length_flags l c (flags_of fs)) c
        (sign_byte fs l c (if c = Dec then sint v else uint v)) (if c = Dec then sint v else uint v) v"
proof -
  let ?F = "length_flags l c (flags_of fs)"
  have F: "bit64 ?F" "\<not> bit16 ?F" "\<not> bit8 ?F" "add_sign ?F = (Plus \<in> set fs)" "space ?F = (Blank \<in> set fs)"
    using assms by (auto simp: length_flags_def flags_of_def wide_arg_def)
  then show ?thesis
    using signed_value_64 [of ?F v] assms
    by (auto simp: load_value_def va_u64_def magnitude_ok_def sign_byte_def wide_arg_def)
qed

lemma load_narrow:
  assumes "\<not> wide_arg l c"
  shows "\<exists>v. load_value (length_flags l c (flags_of fs)) (Arg32 w # args) = Inr (v, args)
    \<and> magnitude_ok (length_flags l c (flags_of fs)) c (sign_byte fs l c (narrow_value l c w)) (narrow_value l c w) v"
proof -
  let ?F = "length_flags l c (flags_of fs)"
  have m: "(0xffff :: u64) = mask 16" "(0xff :: u64) = mask 8" by (simp_all add: mask_eq_exp_minus_1)
  have l: "l = No_length \<or> l = Mod_h \<or> l = Mod_hh"
    using assms length_mod.exhaust [of l] unfolding wide_arg_def by blast
  then have F: "\<not> bit64 ?F" "bit16 ?F = (l = Mod_h)" "bit8 ?F = (l = Mod_hh)"
      "add_sign ?F = (Plus \<in> set fs)" "space ?F = (Blank \<in> set fs)"
    using assms by (auto simp: length_flags_def flags_of_def wide_arg_def)
  consider "l = No_length" | "l = Mod_h" | "l = Mod_hh"
    using l by blast
  then show ?thesis
  proof cases
    case 1
    have "unat (ucast w :: u64) = unat w" by (simp add: unat_ucast_up del: unsigned_ucast_eq)
    then have "uint (ucast w :: u64) = uint w" by (simp only: uint_nat)
    then show ?thesis
      using 1 F signed_value_32 [of ?F w] unat_uint [of "ucast w :: u64" "uint w"]
      by (auto simp: load_value_def va_u32_def magnitude_ok_def sign_byte_def)
  next
    case 2
    have "load_value ?F (Arg32 w # args) = Inr (ucast w AND mask 16, args)"
      using 2 F by (simp add: load_value_def va_u32_def m)
    moreover have "magnitude_ok ?F c (sign_byte fs l c (narrow_value l c w)) (narrow_value l c w) (ucast w AND mask 16)"
      using 2 F signed_value_16 [of ?F "ucast w AND mask 16"] low_bits(2) [where 'a = 16, of 16 w]
        unat_uint [OF low_bits(1) [of 16 w]]
      by (auto simp: magnitude_ok_def sign_byte_def)
    ultimately show ?thesis by blast
  next
    case 3
    have "load_value ?F (Arg32 w # args) = Inr (ucast w AND mask 8, args)"
      using 3 F by (simp add: load_value_def va_u32_def m)
    moreover have "magnitude_ok ?F c (sign_byte fs l c (narrow_value l c w)) (narrow_value l c w) (ucast w AND mask 8)"
      using 3 F signed_value_8 [of ?F "ucast w AND mask 8"] low_bits(2) [where 'a = 8, of 8 w]
        unat_uint [OF low_bits(1) [of 8 w]]
      by (auto simp: magnitude_ok_def sign_byte_def)
    ultimately show ?thesis by blast
  qed
qed

lemma load_number:
  assumes "number_value l c args = Some (z, args')" and "c = Pointer \<longrightarrow> l = No_length"
  shows "\<exists>v. load_value (length_flags l c (flags_of fs)) args = Inr (v, args')
    \<and> magnitude_ok (length_flags l c (flags_of fs)) c (sign_byte fs l c z) z v"
  using assms load_wide [OF _ assms(2), of fs] load_narrow [of l c fs]
  by (cases "(l, c, args)" rule: number_value.cases) (auto split: if_splits)

lemma base_of_bounds: "(of_nat (base_of c) :: u32) > 1 \<and> (of_nat (base_of c) :: u32) \<le> 16 \<and> unat (of_nat (base_of c) :: u32) = base_of c"
  by (simp add: base_of_def)

lemma prefix_collect:
  assumes "magnitude_ok flags c sign z v" and "c \<notin> {String_arg, Char_arg, Dump}" and "c \<noteq> Dec \<longrightarrow> sign = 0"
    and "0 \<le> k" and "k + 2 < 2 ^ 31"
  shows "\<exists>u. number_prefix collect (conv_char c) flags v (xs, k) =
      Inr (sign, of_nat (base_of c), u, xs @ prefix_of c, k + int (length (prefix_of c)))
    \<and> unat u = nat \<bar>z\<bar>"
  using assms emit_collect [of k 48 xs] emit_collect [of "k + 1" 120 "xs @ [48]"]
  by (cases c) (auto simp: number_prefix_def magnitude_ok_def base_of_def prefix_of_def)

section \<open>Characters of digits\<close>

lemma digit_char_not_nul:
  assumes "d < 16" and "letter \<in> {65, 97}"
  shows "digit_char letter d \<noteq> 0"
proof -
  have "d \<in> set [0..<16]" using assms(1) by simp
  moreover have "\<forall>d \<in> set [0..<16]. digit_char 65 d \<noteq> 0 \<and> digit_char 97 d \<noteq> 0" by code_simp
  ultimately show ?thesis using assms(2) by auto
qed

lemma letters_cases: "letters_of fs c \<in> {65, 97}"
  by (simp add: letters_of_def)

lemma digits_no_nul:
  "0 \<notin> set (map (digit_char (letters_of fs c)) (number_digits (base_of c) p n))"
proof -
  have b: "2 \<le> base_of c" "base_of c \<le> 16" by (simp_all add: base_of_def)
  have "d < 16" if "d \<in> set (number_digits (base_of c) p n)" for d
    using that digits_of_less [OF b(1), of n] b by (auto simp: number_digits_def split: if_splits)
  then show ?thesis using digit_char_not_nul [OF _ letters_cases] by fastforce
qed

section \<open>Conversions\<close>

lemma field_text_cong: "left f = left g \<Longrightarrow> pad_zero f = pad_zero g \<Longrightarrow> field_text f w p s = field_text g w p s"
  by (simp add: field_text_def)

lemma length_flags_fields [simp]:
  "left (length_flags l c flags) = left flags"
  "alt (length_flags l c flags) = alt flags"
  "pad_zero (length_flags l c flags) = (l = No_length \<and> c = Pointer \<or> pad_zero flags)"
  by (simp_all add: length_flags_def)

lemma flags_of_fields [simp]:
  "left (flags_of fs) = (Minus \<in> set fs)"
  "alt (flags_of fs) = (Hash \<in> set fs)"
  "pad_zero (flags_of fs) = (Zero \<in> set fs)"
  by (simp_all add: flags_of_def)

definition number_chars :: "flag list \<Rightarrow> nat \<Rightarrow> length_mod \<Rightarrow> conv \<Rightarrow> int \<Rightarrow> byte list" where
  "number_chars fs p l c z =
     sign_of fs l c z @ map (digit_char (letters_of fs c)) (number_digits (base_of c) p (nat \<bar>z\<bar>))"

lemma number_text_chars:
  assumes "unat u = nat \<bar>z\<bar>" and "p + length (sign_of fs l c z) \<le> 67"
  shows "number_text t (sign_byte fs l c z) (of_nat p) (of_nat (base_of c)) (letters_of fs c) u =
    Inr (number_chars fs p l c z @ [0])"
proof -
  have "p < 2 ^ 32" using assms(2) by simp
  then have p: "unat (of_nat p :: u32) = p" by (simp add: unat_of_nat_eq)
  have "unat (of_nat p :: u32) + (if sign_byte fs l c z = 0 then 0 else 1) \<le> 67"
    using assms(2) unfolding p sign_of_byte by (simp split: if_splits)
  then show ?thesis
    using number_text_spec [of "of_nat (base_of c)" "of_nat p" "sign_byte fs l c z" t "letters_of fs c" u]
      base_of_bounds [of c] assms(1)
    unfolding p by (simp add: number_chars_def sign_of_byte)
qed

lemma number_chars_field:
  fixes u :: u64
  assumes "unat u = nat \<bar>z\<bar>" and "p + length (sign_of fs l c z) \<le> 67" and "w \<le> 128"
    and "0 \<le> k" and "k + 128 < 2 ^ 31"
  shows "print_field t collect flags (of_nat w) 0 (number_chars fs p l c z @ [0]) (xs, k) =
    Inr (xs @ field_text flags w 0 (number_chars fs p l c z),
      k + int (length (field_text flags w 0 (number_chars fs p l c z))))"
proof -
  let ?n = "number_chars fs p l c z"
  have "unat u < 2 ^ 64" using unat_less_exp [of u] by simp
  moreover have "2 \<le> base_of c" by (simp add: base_of_def)
  ultimately have "length (number_digits (base_of c) p (nat \<bar>z\<bar>)) \<le> max p 64"
    using number_digits_length assms(1) by metis
  moreover have "length (sign_of fs l c z) \<le> 1" by (simp add: sign_of_def)
  ultimately have len: "length ?n \<le> 128" using assms(2) by (simp add: number_chars_def)
  have "0 \<notin> set ?n" using sign_no_nul digits_no_nul by (auto simp: number_chars_def)
  then have chars: "chars_of (?n @ [0]) = ?n" by (rule chars_of_append)
  have w: "unat (of_nat w :: u32) = w" using assms(3) by (simp add: unat_of_nat_eq)
  have bound: "k + int (max (unat (of_nat w :: u32)) (length (chars_of (?n @ [0])))) < 2 ^ 31"
    unfolding chars w using assms len by (simp add: max_def)
  show ?thesis
    using print_field_spec [OF _ _ assms(4) bound, of t flags 0 xs] len unfolding chars w by simp
qed

lemma number_conversion_text:
  assumes "number_value l c args = Some (z, args')" and "c \<notin> {String_arg, Char_arg, Dump}"
    and "c = Pointer \<longrightarrow> l = No_length" and "p + length (sign_of fs l c z) \<le> 67" and "w \<le> 128"
    and "d # r = length_text l @ conv_char c # rest" and "0 \<le> k" and "k + 256 < 2 ^ 31"
  defines "out \<equiv> prefix_of c @ field_text ((flags_of fs)\<lparr>pad_zero := c = Pointer \<or> Zero \<in> set fs\<rparr>) w 0
      (number_chars fs p l c z)"
  shows "number_conversion t collect d r args (flags_of fs) (of_nat w) (of_nat p) (xs, k) =
    Inr (rest, args', xs @ out, k + int (length out))"
proof -
  let ?F = "length_flags l c (flags_of fs)"
  obtain v where v: "load_value ?F args = Inr (v, args')" "magnitude_ok ?F c (sign_byte fs l c z) z v"
    using load_number [OF assms(1,3)] by blast
  have "c \<noteq> Dec \<longrightarrow> sign_byte fs l c z = 0" using v(2) by (cases "c = Dec") (simp_all add: magnitude_ok_def sign_byte_def)
  with prefix_collect [OF v(2) assms(2), of k xs] assms(7,8) obtain u where
    u: "number_prefix collect (conv_char c) ?F v (xs, k) =
      Inr (sign_byte fs l c z, of_nat (base_of c), u, xs @ prefix_of c, k + int (length (prefix_of c)))"
      "unat u = nat \<bar>z\<bar>"
    by auto
  have pre: "int (length (prefix_of c)) \<le> 2" by (simp add: prefix_of_def)
  have field: "print_field t collect ?F (of_nat w) 0 (number_chars fs p l c z @ [0])
      (xs @ prefix_of c, k + int (length (prefix_of c))) =
      Inr (xs @ out, k + int (length out))"
    using number_chars_field [OF u(2) assms(4,5), of "k + int (length (prefix_of c))" t ?F "xs @ prefix_of c"]
      assms(3,7,8) pre field_text_cong [of ?F "(flags_of fs)\<lparr>pad_zero := c = Pointer \<or> Zero \<in> set fs\<rparr>"]
    by (auto simp: out_def)
  have hex: "(if conv_char c = 88 \<or> conv_char c = 112 \<or> Hash \<in> set fs then 65 else 97) = letters_of fs c"
    by (cases c) (simp_all add: letters_of_def)
  have "p < 2 ^ 32" using assms(4) by simp
  then have p: "\<not> of_nat p > (67 :: u32)" using assms(4) by (simp add: word_less_nat_alt unat_of_nat_eq)
  have "conv_char c \<noteq> 99" using assms(2) by (cases c) simp_all
  then show ?thesis
    using number_text_chars [OF u(2) assms(4), of t]
    by (simp add: number_conversion_def read_length_text [OF assms(6,3)] v(1) u(1) p hex Let_def field)
qed

lemma hex_digit: "d < 16 \<Longrightarrow> char_digit (of_nat d) 97 = digit_char 97 d"
proof -
  assume "d < 16"
  then have "d \<in> set [0..<16]" by simp
  moreover have "\<forall>d \<in> set [0..<16]. char_digit (of_nat d) 97 = digit_char 97 d" by code_simp
  ultimately show ?thesis by blast
qed

lemma hex_pair_digits:
  assumes "b < 128 \<or> \<not> char_is_signed t"
  shows "[char_digit (word_of_int (drop_bit 4 (char_val t b))) 97, char_digit (word_of_int (char_val t b AND 0xf)) 97]
    = hex_pair b"
proof -
  have "unat b < 2 ^ 8" using unat_less_exp [of b] by simp
  then have n: "unat b div 16 < 16" "unat b mod 16 < 16" by simp_all
  have val: "char_val t b = int (unat b)"
    using assms sint_small [of b] by (auto simp: char_val_def word_less_nat_alt)
  have and15: "i AND 15 = i mod 16" for i :: int
    using take_bit_eq_mask [of 4 i] by (simp add: take_bit_eq_mod mask_eq_exp_minus_1)
  have "drop_bit 4 (int (unat b)) = int (unat b div 16)" "int (unat b) AND 0xf = int (unat b mod 16)"
    by (simp_all add: drop_bit_eq_div zdiv_int zmod_int and15)
  then show ?thesis
    using hex_digit [OF n(1)] hex_digit [OF n(2)] unfolding val hex_pair_def by (simp only: of_int_of_nat_eq)
qed

lemma hex_loop_collect:
  assumes "p \<le> length s" and "\<forall>b \<in> set (take p s). b < 128 \<or> \<not> char_is_signed t"
    and "0 \<le> k" and "k + 2 * int p < 2 ^ 31"
  shows "hex_loop t collect s (of_nat p) (xs, k) =
    Inr (xs @ concat (map hex_pair (take p s)), k + int (length (concat (map hex_pair (take p s)))))"
  using assms
proof (induction s arbitrary: p xs k)
  case (Cons b s)
  show ?case
  proof (cases p)
    case (Suc q)
    have "unat (of_nat p :: u32) = p" using Cons.prems(3,4) by (intro unat_of_nat_eq) simp
    then have nz: "(of_nat p :: u32) \<noteq> 0" using Suc by (metis nat.distinct(1) unat_0)
    have "b < 128 \<or> \<not> char_is_signed t" using Cons.prems(2) Suc by auto
    note pair = hex_pair_digits [OF this]
    let ?hi = "char_digit (word_of_int (drop_bit 4 (char_val t b))) 97"
    let ?lo = "char_digit (word_of_int (char_val t b AND 0xf)) 97"
    have "emit collect (char_val t ?hi) (xs, k) = Inr (xs @ [?hi], k + 1)"
      "emit collect (char_val t ?lo) (xs @ [?hi], k + 1) = Inr (xs @ hex_pair b, k + 2)"
      using emit_collect [of k "char_val t ?hi" xs] emit_collect [of "k + 1" "char_val t ?lo" "xs @ [?hi]"]
        Cons.prems(3,4) Suc pair [symmetric] by simp_all
    moreover have "(of_nat p :: u32) - 1 = of_nat q" using Suc by simp
    moreover have "hex_loop t collect s (of_nat q) (xs @ hex_pair b, k + 2) =
        Inr ((xs @ hex_pair b) @ concat (map hex_pair (take q s)),
          k + 2 + int (length (concat (map hex_pair (take q s)))))"
      using Cons.prems Suc by (intro Cons.IH) auto
    moreover have "length (hex_pair b) = 2" by (simp add: hex_pair_def)
    ultimately show ?thesis using nz Suc by simp
  qed simp
qed simp

lemma length_first:
  assumes "d # r = length_text l @ conv_char c # rest"
  shows "(d = 115 \<longleftrightarrow> l = No_length \<and> c = String_arg) \<and> (d = 72 \<longleftrightarrow> l = No_length \<and> c = Dump)
    \<and> (l = No_length \<longrightarrow> r = rest)"
  using assms by (cases l; cases c) simp_all

lemma char_of_int: "scast x = (ucast x :: byte)"
  for x :: u32
  by (rule bit_word_eqI) (auto simp: bit_simps)

text \<open>The part of a conversion behind width and precision.\<close>

definition convert ::
  "target \<Rightarrow> byte \<Rightarrow> byte list \<Rightarrow> vararg list \<Rightarrow> fmt_flags \<Rightarrow> u32 \<Rightarrow> u32
    \<Rightarrow> byte list \<times> int \<Rightarrow> byte list stop + byte list \<times> vararg list \<times> byte list \<times> int" where
  "convert t c format args flags pad_width precision sc =
     (if c = 115 then
        bind_run (check (va_ptr args)) (\<lambda>(p, args).
          let value_str = (case p of None \<Rightarrow> null_text | Some s \<Rightarrow> s) in
          bind_run (print_field t collect flags pad_width precision value_str sc) (\<lambda>sc.
            Inr (format, args, sc)))
      else if c = 72 then
        bind_run (check (va_ptr args)) (\<lambda>(p, args).
          case p of
            None \<Rightarrow> Inr (ERROR_STR, args, sc)
          | Some value_str \<Rightarrow>
              if precision = 0 then Inr (ERROR_STR, args, sc)
              else bind_run (hex_loop t collect value_str precision sc) (\<lambda>sc. Inr (format, args, sc)))
      else number_conversion t collect c format args flags pad_width precision sc)"

lemma convert_text:
  assumes "conv_output t fs w p l c args = Some (out, args')" and "well_formed (Conv fs a b l c)"
    and "w \<le> 128" and "p \<le> 128" and "d # r = length_text l @ conv_char c # rest"
    and "0 \<le> k" and "k < 2 ^ 30"
  shows "convert t d r args (flags_of fs) (of_nat w) (of_nat p) (xs, k) =
    Inr (rest, args', xs @ out, k + int (length out))"
proof -
  note first = length_first [OF assms(5)]
  have wp: "unat (of_nat w :: u32) = w" "unat (of_nat p :: u32) = p"
    using assms(3,4) by (simp_all add: unat_of_nat_eq)
  consider "c = String_arg" | "c = Dump" | "c = Char_arg" | "c \<notin> {String_arg, Char_arg, Dump}" by blast
  then show ?thesis
  proof cases
    case 1
    then obtain s where s: "args = ArgPtr s # args'" "terminated (case s of None \<Rightarrow> null_text | Some s \<Rightarrow> s)"
        "int (length (case s of None \<Rightarrow> null_text | Some s \<Rightarrow> s)) < 2 ^ 30"
        "out = field_text (flags_of fs) w p (chars_of (case s of None \<Rightarrow> null_text | Some s \<Rightarrow> s))"
      using assms(1) by (auto simp: conv_output_def Let_def split: list.splits vararg.splits if_splits)
    let ?s = "case s of None \<Rightarrow> null_text | Some s \<Rightarrow> s"
    have "int (length (chars_of ?s)) < 2 ^ 30" using s(3) chars_of_length [of ?s] by linarith
    then have bound: "k + int (max (unat (of_nat w :: u32)) (length (chars_of ?s))) < 2 ^ 31"
      unfolding wp using assms(3,7) by (simp add: max_def)
    have "length ?s < 2 ^ 31" using s(3) by simp
    from print_field_spec [OF s(2) this assms(6) bound, of t "flags_of fs" "of_nat p" xs]
    show ?thesis using 1 first assms(2) unfolding wp by (simp add: convert_def va_ptr_def s(1,4))
  next
    case 2
    then obtain s where s: "args = ArgPtr (Some s) # args'" "0 < p" "p \<le> length s"
        "\<forall>b \<in> set (take p s). b < 128 \<or> \<not> char_is_signed t" "out = concat (map hex_pair (take p s))"
      using assms(1) by (auto simp: conv_output_def split: list.splits vararg.splits option.splits if_splits)
    have "(of_nat p :: u32) \<noteq> 0" using wp(2) s(2) by (simp flip: unat_eq_zero)
    then show ?thesis
      using 2 first assms(2,4,6,7) hex_loop_collect [OF s(3,4), of k xs]
      by (simp add: convert_def va_ptr_def s(1,5))
  next
    case 3
    then obtain x where x: "args = Arg32 x # args'" "out = [ucast x]"
      using assms(1) by (auto simp: conv_output_def split: list.splits vararg.splits)
    show ?thesis
      using 3 first assms(6,7) emit_collect [of k "char_val t (word_of_int (sint x))" xs]
      by (simp add: convert_def number_conversion_def read_length_text [OF assms(5)] va_int_def x char_of_int)
  next
    case 4
    then obtain z where z: "number_value l c args = Some (z, args')" "p + length (sign_of fs l c z) \<le> 67"
        "out = prefix_of c @ field_text ((flags_of fs)\<lparr>pad_zero := c = Pointer \<or> Zero \<in> set fs\<rparr>) w 0
          (number_chars fs p l c z)"
      using assms(1) by (auto simp: conv_output_def number_chars_def split: option.splits if_splits)
    have "c = Pointer \<longrightarrow> l = No_length" using assms(2) by simp
    from number_conversion_text [OF z(1) 4 this z(2) assms(3,5,6), of t xs] assms(7)
    show ?thesis using 4 first by (simp add: convert_def z(3))
  qed
qed

lemma conversion_split:
  assumes "c1 \<noteq> 37" and "c1 \<noteq> 0"
    and "read_flags c1 f1 no_flags = Inr (c2, f2, flags)"
    and "read_field t c2 f2 args = Inr (c3, f3, args3, of_nat w)"
    and "read_precision t c3 f3 args3 = Inr (c4, f4, args4, of_nat p)"
    and "w \<le> 128" and "p \<le> 128"
  shows "conversion t collect (c1 # f1) args sc = convert t c4 f4 args4 flags (of_nat w) (of_nat p) sc"
proof -
  have "\<not> (of_nat w :: u32) > 128" "\<not> (of_nat p :: u32) > 128"
    using assms(6,7) by (simp_all add: word_less_nat_alt unat_of_nat_eq)
  then show ?thesis using assms(1-5) by (simp add: conversion_def convert_def MAX_FORMAT_def)
qed

lemma text_hd:
  assumes "c1 # f1 = map flag_char fs @ c2 # f2" and "c2 \<noteq> 0" and "c2 \<noteq> 37"
  shows "c1 \<noteq> 37 \<and> c1 \<noteq> 0"
proof (cases fs)
  case (Cons x ys)
  then show ?thesis using assms(1) by (cases x) simp_all
qed (use assms in simp)

lemma conversion_text:
  assumes "directive_output t (Conv fs a b l c) args = Some (out, args')" and "well_formed (Conv fs a b l c)"
    and "0 \<le> k" and "k < 2 ^ 30"
  shows "conversion t collect (tl (directive_text (Conv fs a b l c)) @ rest) args (xs, k) =
    Inr (rest, args', xs @ out, k + int (length out))"
proof -
  obtain w args1 p args2 where v: "amount_value a args = Some (w, args1)"
      "amount_value (case b of None \<Rightarrow> Absent | Some a \<Rightarrow> a) args1 = Some (p, args2)"
      "w \<le> 128" "p \<le> 128" "conv_output t fs w p l c args2 = Some (out, args')"
    using assms(1) by (auto simp: bind_eq_Some_conv split: if_splits)
  obtain c4 f4 where t4: "length_text l @ conv_char c # rest = c4 # f4"
    by (cases "length_text l") auto
  obtain c3 f3 where t3: "precision_text b @ c4 # f4 = c3 # f3"
    by (cases "precision_text b") auto
  obtain c2 f2 where t2: "amount_text a @ c3 # f3 = c2 # f2"
    by (cases "amount_text a") auto
  obtain c1 f1 where t1: "map flag_char fs @ c2 # f2 = c1 # f1"
    by (cases "map flag_char fs") auto
  have h4: "\<not> is_digit c4" "c4 \<noteq> 42" "c4 \<noteq> 46" using length_hd [OF t4] by simp_all
  have h3: "\<not> is_digit c3" "c3 \<noteq> 42" using precision_hd [OF t3 [folded t4]] by simp_all
  have h2: "\<not> is_flag c2" "c2 \<noteq> 0" "c2 \<noteq> 37"
    using width_hd [OF t2 [folded t3, folded t4]] assms(2) by simp_all
  have whole: "tl (directive_text (Conv fs a b l c)) @ rest = c1 # f1"
    by (simp add: t1 [symmetric] t2 [symmetric] t3 [symmetric] t4 [symmetric])
  show ?thesis
    unfolding whole
    using conversion_split [OF _ _ read_flags_text [OF h2(1) t1 [symmetric]] read_amount [OF h3 t2 [symmetric] v(1)]
        read_precision_text [OF h4 t3 [symmetric] v(2)] v(3,4),
        where t = t and sc = "(xs, k)"]
      text_hd [OF t1 [symmetric] h2(2,3)] convert_text [OF v(5) assms(2) v(3,4) t4 [symmetric] assms(3,4), of xs]
    by (simp add: flags_of_fold)
qed

lemma directive_step:
  assumes "directive_output t d args = Some (out, args')" and "well_formed d" and "0 \<le> k" and "k < 2 ^ 30"
  shows "format_loop t collect (directive_text d @ rest) args (xs, k) =
    format_loop t collect rest args' (xs @ out, k + int (length out))"
proof (cases d)
  case (Plain c)
  then show ?thesis using assms emit_collect [of k "char_val t c" xs] by auto
next
  case Percent
  then show ?thesis using assms emit_collect [of k "char_val t 37" xs] by (auto simp: conversion_def)
next
  case (Conv fs a b l c)
  then have "directive_text d @ rest = 37 # tl (directive_text d) @ rest" by simp
  then show ?thesis
    using conversion_text [of t fs a b l c args out args' k rest xs] assms Conv by simp
qed

lemma format_loop_text:
  assumes "format_output t ds args = Some (out, args')" and "\<forall>d \<in> set ds. well_formed d"
    and "0 \<le> k" and "k + int (length out) < 2 ^ 30"
  shows "format_loop t collect (concat (map directive_text ds) @ [0]) args (xs, k) = Inr (xs @ out, k + int (length out))"
  using assms
proof (induction ds arbitrary: args out xs k)
  case (Cons d ds)
  then obtain out1 args1 out2 where o: "directive_output t d args = Some (out1, args1)"
      "format_output t ds args1 = Some (out2, args')" "out = out1 @ out2"
    by (auto simp: bind_eq_Some_conv)
  have "k < 2 ^ 30" "0 \<le> k + int (length out1)" "k + int (length out1) + int (length out2) < 2 ^ 30"
    using Cons.prems(3,4) o(3) by simp_all
  then show ?case
    using directive_step [OF o(1) _ Cons.prems(3), of "concat (map directive_text ds) @ [0]" xs] Cons.prems(2)
      Cons.IH [OF o(2), of "k + int (length out1)" "xs @ out1"] o(3)
    by (simp add: add.assoc)
qed simp

lemma formatted_text:
  assumes "\<forall>d \<in> set ds. well_formed d" and "format_output t ds args = Some (out, args')"
    and "length out < 2 ^ 30"
  shows "formatted t (format_text ds) args = Inr (out, int (length out))"
  using format_loop_text [OF assms(2,1), of 0 "[]"] assms(3)
  by (simp add: formatted_def formatter_def format_text_def)

section \<open>Corners\<close>

text \<open>\<open>%05d\<close> pads with zeros in front of the sign: -42 is printed as \<open>00-42\<close>.\<close>

lemma zeros_before_sign: "formatted aarch64_target [37, 48, 53, 100, 0] [Arg32 (- 42)] = Inr ([48, 48, 45, 52, 50], 5)"
proof -
  let ?ds = "[Conv [Zero] (Digits 5) None No_length Dec]"
  have "format_text ?ds = [37, 48, 53, 100, 0]" by code_simp
  moreover have "format_output aarch64_target ?ds [Arg32 (- 42)] = Some ([48, 48, 45, 52, 50], [])" by code_simp
  ultimately show ?thesis using formatted_text [of ?ds aarch64_target "[Arg32 (- 42)]"] by simp
qed

text \<open>\<open>%+hd\<close> prints no sign for a positive number.\<close>

lemma plus_ignored_for_short: "formatted aarch64_target [37, 43, 104, 100, 0] [Arg32 5] = Inr ([53], 1)"
proof -
  let ?ds = "[Conv [Plus] Absent None Mod_h Dec]"
  have "format_text ?ds = [37, 43, 104, 100, 0]" by code_simp
  moreover have "format_output aarch64_target ?ds [Arg32 5] = Some ([53], [])" by code_simp
  ultimately show ?thesis using formatted_text [of ?ds aarch64_target "[Arg32 5]"] by simp
qed

text \<open>A precision of zero prints the whole string.\<close>

lemma zero_precision_prints_all:
  "formatted aarch64_target [37, 46, 48, 115, 0] [ArgPtr (Some [65, 66, 0])] = Inr ([65, 66], 2)"
proof -
  let ?ds = "[Conv [] Absent (Some (Digits 0)) No_length String_arg]"
  have "format_text ?ds = [37, 46, 48, 115, 0]" by code_simp
  moreover have "format_output aarch64_target ?ds [ArgPtr (Some [65, 66, 0])] = Some ([65, 66], [])" by code_simp
  ultimately show ?thesis using formatted_text [of ?ds aarch64_target "[ArgPtr (Some [65, 66, 0])]"] by simp
qed

text \<open>Where \<open>char\<close> is signed, the hex dump of a byte above 127 is not hexadecimal: \<open>ab\<close> becomes \<open>Qb\<close>.\<close>

lemma hex_dump_of_negative_char:
  "formatted x86_64_target [37, 46, 49, 72, 0] [ArgPtr (Some [0xab])] = Inr ([81, 98], 2)"
proof -
  have signed: "char_val x86_64_target 0xab = - 85" by code_simp
  have n: "read_number x86_64_target 46 [49, 72, 0] 0 = Inr (46, [49, 72, 0], 0)"
    "read_number x86_64_target 49 [72, 0] 0 = Inr (72, [0], 1)"
    by (simp_all add: isdigit_def char_val_ascii)
  have bits: "drop_bit 4 (- 85 :: int) = - 6" "(- 85 :: int) AND 15 = 11" by code_simp+
  have "char_digit (word_of_int (- 6)) 97 = 81" "char_digit (word_of_int 11) 97 = 98"
    by (simp_all add: char_digit_def)
  then have "hex_loop x86_64_target collect [0xab] 1 ([], 0) = Inr ([81, 98], 2)"
    by (simp add: signed bits emit_collect)
  then show ?thesis
    by (simp add: formatted_def formatter_def conversion_def read_flags_none set_flag_def read_field_def
        read_precision_def va_ptr_def MAX_FORMAT_def no_flags_def n del: hex_loop.simps read_number.simps)
qed

text \<open>\<open>%5c\<close> prints one character: the width is read and ignored.\<close>

lemma char_ignores_width: "formatted aarch64_target [37, 53, 99, 0] [Arg32 65] = Inr ([65], 1)"
proof -
  let ?ds = "[Conv [] (Digits 5) None No_length Char_arg]"
  have "format_text ?ds = [37, 53, 99, 0]" by code_simp
  moreover have "format_output aarch64_target ?ds [Arg32 65] = Some ([65], [])" by code_simp
  ultimately show ?thesis using formatted_text [of ?ds aarch64_target "[Arg32 65]"] by simp
qed

end
