(* ===== verification/Printf_Documented.thy ===== *)
theory Printf_Documented
  imports Printf_Refines
begin

text \<open>
  The documented meaning of formats, after \<open>include/stdio.h\<close> and the C standard it follows, for the
  conversions \<open>d\<close>, \<open>u\<close>, \<open>x\<close>, \<open>X\<close>, \<open>s\<close> and \<open>c\<close> with all flags but \<open>#\<close>; where the formatter keeps to it; and that
  it prints the documented text there.  The other conversions are left to \<open>format_output\<close>: \<open>o\<close> and \<open>p\<close> write
  a prefix of their own, \<open>b\<close> and \<open>H\<close> are extensions.
\<close>

section \<open>The documented meaning\<close>

text \<open>Blanks on the left, or on the right with the flag \<open>-\<close>, up to the width.\<close>

definition padded :: "flag list \<Rightarrow> nat \<Rightarrow> byte list \<Rightarrow> byte list" where
  "padded fs w s =
     (if Minus \<in> set fs then s @ replicate (w - length s) 32 else replicate (w - length s) 32 @ s)"

text \<open>At least \<open>p\<close> digits; none for the number zero with the precision zero.\<close>

definition minimum_digits :: "nat \<Rightarrow> nat \<Rightarrow> nat \<Rightarrow> nat list" where
  "minimum_digits b p n = replicate (p - length (digits_of b n)) 0 @ digits_of b n"

definition number_sign :: "flag list \<Rightarrow> conv \<Rightarrow> int \<Rightarrow> byte list" where
  "number_sign fs c z =
     (if z < 0 then [45]
      else if c = Dec \<and> Plus \<in> set fs then [43]
      else if c = Dec \<and> Blank \<in> set fs then [32]
      else [])"

definition number_body :: "nat option \<Rightarrow> conv \<Rightarrow> int \<Rightarrow> byte list" where
  "number_body p c z =
     map (digit_char (if c = Hex_up then 65 else 97))
       (minimum_digits (if c \<in> {Hex_low, Hex_up} then 16 else 10) (case p of None \<Rightarrow> 1 | Some n \<Rightarrow> n) (nat \<bar>z\<bar>))"

text \<open>The flag \<open>0\<close> puts zeros behind the sign; \<open>-\<close> and a precision override it.\<close>

definition number_field :: "flag list \<Rightarrow> nat \<Rightarrow> nat option \<Rightarrow> conv \<Rightarrow> int \<Rightarrow> byte list" where
  "number_field fs w p c z =
     (let sign = number_sign fs c z; digits = number_body p c z in
      if Zero \<in> set fs \<and> Minus \<notin> set fs \<and> p = None
      then sign @ replicate (w - (length sign + length digits)) 48 @ digits
      else padded fs w (sign @ digits))"

text \<open>A negative width argument is the flag \<open>-\<close> and a width, a negative precision argument is none.\<close>

fun width_of :: "amount \<Rightarrow> vararg list \<Rightarrow> (flag list \<times> nat \<times> vararg list) option" where
  "width_of Absent args = Some ([], 0, args)"
| "width_of (Digits n) args = Some ([], n, args)"
| "width_of Star (Arg32 x # args) = Some (if sint x < 0 then [Minus] else [], nat \<bar>sint x\<bar>, args)"
| "width_of Star _ = None"

fun precision_of :: "amount option \<Rightarrow> vararg list \<Rightarrow> (nat option \<times> vararg list) option" where
  "precision_of None args = Some (None, args)"
| "precision_of (Some Absent) args = Some (Some 0, args)"
| "precision_of (Some (Digits n)) args = Some (Some n, args)"
| "precision_of (Some Star) (Arg32 x # args) = Some (if sint x < 0 then None else Some (nat (sint x)), args)"
| "precision_of (Some Star) _ = None"

text \<open>\<open>None\<close>: missing and wrong arguments, undefined combinations, and what is left out here.\<close>

definition documented_conv ::
  "flag list \<Rightarrow> nat \<Rightarrow> nat option \<Rightarrow> length_mod \<Rightarrow> conv \<Rightarrow> vararg list \<Rightarrow> (byte list \<times> vararg list) option" where
  "documented_conv fs w p l c args =
     (if Hash \<in> set fs then None
      else if c = String_arg then
        (case args of
           ArgPtr (Some s) # args \<Rightarrow>
             if l = No_length \<and> Zero \<notin> set fs \<and> terminated s
             then Some (padded fs w (case p of None \<Rightarrow> chars_of s | Some n \<Rightarrow> take n (chars_of s)), args)
             else None
         | _ \<Rightarrow> None)
      else if c = Char_arg then
        (case args of
           Arg32 x # args \<Rightarrow>
             if l = No_length \<and> Zero \<notin> set fs \<and> p = None then Some (padded fs w [ucast x], args) else None
         | _ \<Rightarrow> None)
      else if c \<in> {Dec, Uns, Hex_low, Hex_up} then
        (case number_value l c args of
           None \<Rightarrow> None
         | Some (z, args) \<Rightarrow> Some (number_field fs w p c z, args))
      else None)"

fun documented :: "directive \<Rightarrow> vararg list \<Rightarrow> (byte list \<times> vararg list) option" where
  "documented (Plain c) args = Some ([c], args)"
| "documented Percent args = Some ([37], args)"
| "documented (Conv fs w p l c) args = do {
     (neg, w, args) \<leftarrow> width_of w args;
     (p, args) \<leftarrow> precision_of p args;
     documented_conv (neg @ fs) w p l c args
   }"

fun documented_format :: "directive list \<Rightarrow> vararg list \<Rightarrow> (byte list \<times> vararg list) option" where
  "documented_format [] args = Some ([], args)"
| "documented_format (d # ds) args = do {
     (xs, args) \<leftarrow> documented d args;
     (ys, args) \<leftarrow> documented_format ds args;
     Some (xs @ ys, args)
   }"

section \<open>Where the formatter keeps to it\<close>

text \<open>
  The formatter has limits: 128 columns, 67 digits, a gigabyte.  And it departs from the documented
  meaning: a precision of zero is none (\<open>zero_precision_prints_all\<close>), characters are not padded
  (\<open>char_ignores_width\<close>), \<open>+\<close> is ignored for short numbers (\<open>plus_ignored_for_short\<close>), zeros come in front of
  the sign and in spite of a precision (\<open>zeros_before_sign\<close>), a negative width argument is zero.
\<close>

definition keeps_conv :: "flag list \<Rightarrow> nat \<Rightarrow> nat option \<Rightarrow> length_mod \<Rightarrow> conv \<Rightarrow> vararg list \<Rightarrow> bool" where
  "keeps_conv fs w p l c args \<longleftrightarrow>
     w \<le> 128 \<and> (case p of None \<Rightarrow> 0 | Some n \<Rightarrow> n) \<le> 128
     \<and> (if c = String_arg then
          p \<noteq> Some 0 \<and> (case args of ArgPtr (Some s) # _ \<Rightarrow> int (length s) < 2 ^ 30 | _ \<Rightarrow> False)
        else if c = Char_arg then w \<le> 1
        else
          (case number_value l c args of
             None \<Rightarrow> False
           | Some (z, _) \<Rightarrow>
               (p = Some 0 \<longrightarrow> z \<noteq> 0)
               \<and> (c = Dec \<and> Plus \<in> set fs \<and> l \<in> {Mod_h, Mod_hh} \<longrightarrow> z < 0)
               \<and> (Zero \<in> set fs \<and> Minus \<notin> set fs \<longrightarrow>
                    p = None \<and> number_sign fs c z = [] \<or> w \<le> length (number_sign fs c z @ number_body p c z))
               \<and> (case p of None \<Rightarrow> 0 | Some n \<Rightarrow> n) + length (number_sign fs c z) \<le> 67))"

fun keeps :: "directive \<Rightarrow> vararg list \<Rightarrow> bool" where
  "keeps (Conv fs w p l c) args \<longleftrightarrow>
     (case width_of w args of
        None \<Rightarrow> False
      | Some (neg, w, args) \<Rightarrow>
          neg = [] \<and> (case precision_of p args of None \<Rightarrow> False | Some (p, args) \<Rightarrow> keeps_conv fs w p l c args))"
| "keeps _ args \<longleftrightarrow> True"

fun keeps_format :: "directive list \<Rightarrow> vararg list \<Rightarrow> bool" where
  "keeps_format [] args \<longleftrightarrow> True"
| "keeps_format (d # ds) args \<longleftrightarrow>
     keeps d args \<and> (case documented d args of None \<Rightarrow> True | Some (_, args) \<Rightarrow> keeps_format ds args)"

section \<open>The formatter prints the documented text\<close>

lemma width_of_value:
  "width_of a args = Some ([], w, args') \<Longrightarrow> amount_value a args = Some (w, args')"
  by (cases "(a, args)" rule: width_of.cases) (auto split: if_splits)

lemma precision_of_value:
  "precision_of b args = Some (p, args') \<Longrightarrow>
    amount_value (case b of None \<Rightarrow> Absent | Some a \<Rightarrow> a) args = Some (case p of None \<Rightarrow> 0 | Some n \<Rightarrow> n, args')"
  by (cases "(b, args)" rule: precision_of.cases) (auto split: if_splits)

lemma minimum_digits_number:
  assumes "2 \<le> b" and "p = Some 0 \<longrightarrow> n \<noteq> 0"
  shows "minimum_digits b (case p of None \<Rightarrow> 1 | Some k \<Rightarrow> k) n = number_digits b (case p of None \<Rightarrow> 0 | Some k \<Rightarrow> k) n"
proof -
  have "digits_of b n = [] \<longleftrightarrow> n = 0" using digits_of_hd [OF assms(1), of n] by (cases "n = 0") auto
  then have "Suc 0 - length (digits_of b n) = (if n = 0 then 1 else 0)" by (cases "digits_of b n") auto
  then show ?thesis using assms(2)
    by (cases p) (auto simp: minimum_digits_def number_digits_def)
qed

lemma number_field_text:
  fixes z :: int
  assumes "p = Some 0 \<longrightarrow> z \<noteq> 0" and "c \<in> {Dec, Uns, Hex_low, Hex_up}" and "Hash \<notin> set fs"
    and "c = Dec \<and> Plus \<in> set fs \<and> l \<in> {Mod_h, Mod_hh} \<longrightarrow> z < 0"
    and "Zero \<in> set fs \<and> Minus \<notin> set fs \<longrightarrow>
      p = None \<and> number_sign fs c z = [] \<or> w \<le> length (number_sign fs c z @ number_body p c z)"
  defines "s \<equiv> sign_of fs l c z @ map (digit_char (letters_of fs c))
      (number_digits (base_of c) (case p of None \<Rightarrow> 0 | Some n \<Rightarrow> n) (nat \<bar>z\<bar>))"
  shows "number_field fs w p c z = field_text ((flags_of fs)\<lparr>pad_zero := c = Pointer \<or> Zero \<in> set fs\<rparr>) w 0 s"
    and "sign_of fs l c z = number_sign fs c z"
proof -
  show sign: "sign_of fs l c z = number_sign fs c z" using assms(4) by (auto simp: sign_of_def number_sign_def)
  have b: "base_of c = (if c \<in> {Hex_low, Hex_up} then 16 else 10)" "2 \<le> base_of c"
    using assms(2) by (auto simp: base_of_def)
  have "number_body p c z = map (digit_char (letters_of fs c))
      (number_digits (base_of c) (case p of None \<Rightarrow> 0 | Some n \<Rightarrow> n) (nat \<bar>z\<bar>))"
    using assms(2,3) minimum_digits_number [OF b(2), of p "nat \<bar>z\<bar>"] assms(1) b(1)
    by (auto simp: number_body_def letters_of_def)
  then have s: "s = number_sign fs c z @ number_body p c z" by (simp add: s_def sign)
  show "number_field fs w p c z = field_text ((flags_of fs)\<lparr>pad_zero := c = Pointer \<or> Zero \<in> set fs\<rparr>) w 0 s"
    using assms(2,5) unfolding s by (auto simp: number_field_def field_text_def padded_def Let_def)
qed

lemma documented_conv_output:
  assumes "documented_conv fs w p l c args = Some (out, args')" and "keeps_conv fs w p l c args"
  shows "conv_output t fs w (case p of None \<Rightarrow> 0 | Some n \<Rightarrow> n) l c args = Some (out, args')"
proof -
  have h: "Hash \<notin> set fs" using assms(1) by (auto simp: documented_conv_def)
  consider "c = String_arg" | "c = Char_arg" | "c \<in> {Dec, Uns, Hex_low, Hex_up}"
    using assms(1) by (auto simp: documented_conv_def split: if_splits)
  then show ?thesis
  proof cases
    case 1
    then obtain s where s: "args = ArgPtr (Some s) # args'" "terminated s" "Zero \<notin> set fs"
        "out = padded fs w (case p of None \<Rightarrow> chars_of s | Some n \<Rightarrow> take n (chars_of s))"
      using assms(1) h by (auto simp: documented_conv_def split: list.splits vararg.splits option.splits if_splits)
    then show ?thesis using 1 assms(2)
      by (auto simp: conv_output_def keeps_conv_def field_text_def padded_def Let_def split: option.splits)
  next
    case 2
    then obtain x where "args = Arg32 x # args'" "out = padded fs w [ucast x]"
      using assms(1) h by (auto simp: documented_conv_def split: list.splits vararg.splits if_splits)
    then show ?thesis using 2 assms(2) by (auto simp: conv_output_def keeps_conv_def padded_def)
  next
    case 3
    then obtain z where z: "number_value l c args = Some (z, args')" "out = number_field fs w p c z"
      using assms(1) h by (auto simp: documented_conv_def split: option.splits)
    then have k: "p = Some 0 \<longrightarrow> z \<noteq> 0" "c = Dec \<and> Plus \<in> set fs \<and> l \<in> {Mod_h, Mod_hh} \<longrightarrow> z < 0"
        "Zero \<in> set fs \<and> Minus \<notin> set fs \<longrightarrow>
          p = None \<and> number_sign fs c z = [] \<or> w \<le> length (number_sign fs c z @ number_body p c z)"
        "(case p of None \<Rightarrow> 0 | Some n \<Rightarrow> n) + length (number_sign fs c z) \<le> 67"
      using assms(2) 3 by (auto simp: keeps_conv_def)
    note f = number_field_text [OF k(1) 3 h k(2,3)]
    show ?thesis using 3 k(4) unfolding z(2) f(1) by (auto simp: conv_output_def z(1) f(2) base_of_def prefix_of_def)
  qed
qed

lemma documented_directive:
  assumes "documented d args = Some (out, args')" and "keeps d args"
  shows "directive_output t d args = Some (out, args')"
proof (cases d)
  case (Conv fs a b l c)
  obtain w args1 p args2 where v: "width_of a args = Some ([], w, args1)" "precision_of b args1 = Some (p, args2)"
      "keeps_conv fs w p l c args2"
    using assms(2) Conv by (auto split: option.splits)
  then have "documented_conv fs w p l c args2 = Some (out, args')" using assms(1) Conv by simp
  from documented_conv_output [OF this v(3), of t] v(3)
  show ?thesis using width_of_value [OF v(1)] precision_of_value [OF v(2)] Conv by (auto simp: keeps_conv_def)
qed (use assms in auto)

lemma documented_format_output:
  "documented_format ds args = Some (out, args') \<Longrightarrow> keeps_format ds args
    \<Longrightarrow> format_output t ds args = Some (out, args')"
proof (induction ds arbitrary: args out)
  case (Cons d ds)
  then obtain out1 args1 out2 where o: "documented d args = Some (out1, args1)"
      "documented_format ds args1 = Some (out2, args')" "out = out1 @ out2"
    by (auto simp: bind_eq_Some_conv)
  then show ?case using Cons documented_directive [OF o(1), of t] by auto
qed simp

text \<open>
  The formatter on the text of a documented format.
\<close>

lemma formatted_documented:
  assumes "\<forall>d \<in> set ds. well_formed d" and "documented_format ds args = Some (out, args')"
    and "keeps_format ds args" and "length out < 2 ^ 30"
  shows "formatted t (format_text ds) args = Inr (out, int (length out))"
  by (rule formatted_text [OF assms(1) documented_format_output [OF assms(2,3)] assms(4)])

text \<open>
  C6. The formatter prints the documented text: for every sequence of well-formed directives and
  arguments they accept, outside the limits and departures that \<open>keeps_format\<close> names, the run on the
  concrete text of the format returns, and prints what the documentation says.
\<close>

theorem formatted_implements:
  assumes "\<forall>d \<in> set ds. well_formed d" and "documented_format ds args = Some (out, args')"
    and "keeps_format ds args" and "length out < 2 ^ 30"
  shows "formatted t (format_text ds) args = Inr (out, int (length out))"
  using assms by (rule formatted_documented)

lemma formatted_implements_witness:
  "formatted x86_64_target [37, 45, 52, 100, 124, 37, 46, 51, 120, 0] [Arg32 (- 5), Arg32 255] =
    Inr ([45, 53, 32, 32, 124, 48, 102, 102], 8)"
proof -
  let ?ds = "[Conv [Minus] (Digits 4) None No_length Dec, Plain 124,
    Conv [] Absent (Some (Digits 3)) No_length Hex_low]"
  have "format_text ?ds = [37, 45, 52, 100, 124, 37, 46, 51, 120, 0]" by code_simp
  moreover have "documented_format ?ds [Arg32 (- 5), Arg32 255] =
      Some ([45, 53, 32, 32, 124, 48, 102, 102], [])" "keeps_format ?ds [Arg32 (- 5), Arg32 255]" by code_simp+
  ultimately show ?thesis
    using formatted_implements [of ?ds "[Arg32 (- 5), Arg32 255]"] by simp
qed

end
