(* ===== verification/Test_Framework.thy ===== *)
theory Test_Framework
  imports Stdio StrMem Printf_Refines
begin

text \<open>
  The test framework of \<open>test/test_common.c\<close>: the checks behind the macros of \<open>test/test_common.h\<close>, their
  reports, which go through \<open>printf\<close>, the bookkeeping of failures and the runner.  Strings and buffers
  are in a memory; the static \<open>test_status\<close> and the console are the record \<open>test_world\<close>.
\<close>

section \<open>Data\<close>

record test_flags =
  invert_flag :: bool
  sign_flag :: bool
  is_true_flag :: bool
  lt_flag :: bool
  gt_flag :: bool
  range_flag :: bool
  near_flag :: bool
  ptr_flag :: bool
  str_flag :: bool
  memcmp_flag :: bool
  memchk_flag :: bool

definition no_test_flags :: test_flags where
  "no_test_flags = \<lparr>invert_flag = False, sign_flag = False, is_true_flag = False, lt_flag = False,
     gt_flag = False, range_flag = False, near_flag = False, ptr_flag = False, str_flag = False,
     memcmp_flag = False, memchk_flag = False\<rparr>"

record test_world =
  failed_count :: u32
  last_fail :: u32
  verbose :: u32
  screen :: console

text \<open>String literals, and the object a pointer argument of \<open>%s\<close> points to.\<close>

definition literal :: "string \<Rightarrow> byte list" where
  "literal s = map of_char s @ [0]"

definition newline :: string where
  "newline = [CHR 0x0A]"

definition string_at :: "target \<Rightarrow> mem \<Rightarrow> addr \<Rightarrow> vararg option" where
  "string_at t m p = (if p = 0 then Some (ArgPtr None) else do { n \<leftarrow> strlen t m p; Some (ArgPtr (Some (bytes_at m p (Suc (unat n))))) })"

definition text_arg :: "string \<Rightarrow> vararg" where
  "text_arg s = ArgPtr (Some (literal s))"

definition char_arg :: "target \<Rightarrow> byte \<Rightarrow> vararg" where
  "char_arg t c = Arg32 (word_of_int (char_val t c))"

text \<open>A call of \<open>printf\<close>, whose result the framework drops.\<close>

definition say ::
  "target \<Rightarrow> (console \<Rightarrow> byte list \<Rightarrow> int) \<Rightarrow> string \<Rightarrow> vararg list \<Rightarrow> test_world \<Rightarrow> test_world res" where
  "say t result format args w =
     bind_res (printf t result (screen w) (Some (literal format)) args) (\<lambda>(con, _). Inr (w\<lparr>screen := con\<rparr>))"

section \<open>The checks\<close>

text \<open>The loops stop at \<open>len\<close>, at a mismatch, and for strings at the end of \<open>expect\<close>.\<close>

function string_loop :: "mem \<Rightarrow> addr \<Rightarrow> addr \<Rightarrow> u64 \<Rightarrow> u64 \<Rightarrow> u64" where
  "string_loop m got expect n i =
     (if i < n \<and> m (expect + i) \<noteq> 0 \<and> m (got + i) = m (expect + i)
      then string_loop m got expect n (i + 1) else i)"
  by pat_completeness auto
termination
  by (relation "measure (\<lambda>(_, _, _, n, i). unat n - unat i)")
    (auto simp: unat_Suc_less word_less_nat_alt intro: diff_less_mono2)

function buffer_loop :: "(u64 \<Rightarrow> byte) \<Rightarrow> (u64 \<Rightarrow> byte) \<Rightarrow> u64 \<Rightarrow> u64 \<Rightarrow> u64" where
  "buffer_loop got expect n i =
     (if i < n \<and> got i = expect i then buffer_loop got expect n (i + 1) else i)"
  by pat_completeness auto
termination
  by (relation "measure (\<lambda>(_, _, n, i). unat n - unat i)")
    (auto simp: unat_Suc_less word_less_nat_alt intro: diff_less_mono2)

declare string_loop.simps [simp del] buffer_loop.simps [simp del]

definition test_string ::
  "target \<Rightarrow> (console \<Rightarrow> byte list \<Rightarrow> int) \<Rightarrow> mem \<Rightarrow> u32 \<Rightarrow> byte list \<Rightarrow> addr \<Rightarrow> addr \<Rightarrow> u64 \<Rightarrow> test_flags
    \<Rightarrow> test_world \<Rightarrow> (bool \<times> test_world) res option" where
  "test_string t result m lineno cond got expect n flags w =
     (let i = string_loop m got expect n 0 in
      if (i < n \<and> (m (expect + i) \<noteq> 0 \<or> m (got + i) \<noteq> 0)) \<noteq> invert_flag flags then
        (let eq = text_arg (if invert_flag flags then ''!='' else ''=='') in do {
           got_string \<leftarrow> string_at t m got;
           expect_string \<leftarrow> string_at t m expect;
           Some (bind_res
             (say t result (''FAIL(%u): strcmp %s, at offset %zu, '%c' %s '%c' ('%s' %s '%s') '' @ newline)
               [Arg32 lineno, ArgPtr (Some cond), Arg64 i, char_arg t (m (got + i)), eq,
                char_arg t (m (expect + i)), got_string, eq, expect_string] w)
             (\<lambda>w. Inr (False, w)))
         })
      else Some (Inr (True, w)))"

definition test_memcmp ::
  "target \<Rightarrow> (console \<Rightarrow> byte list \<Rightarrow> int) \<Rightarrow> mem \<Rightarrow> u32 \<Rightarrow> byte list \<Rightarrow> addr \<Rightarrow> addr \<Rightarrow> u64 \<Rightarrow> test_flags
    \<Rightarrow> test_world \<Rightarrow> (bool \<times> test_world) res" where
  "test_memcmp t result m lineno cond got expect n flags w =
     (let i = buffer_loop (\<lambda>i. m (got + i)) (\<lambda>i. m (expect + i)) n 0 in
      if (i < n) \<noteq> invert_flag flags then
        bind_res
          (say t result (''FAIL(%u): memcmp %s, at offset %zu, %02x %s %02x'' @ newline)
            [Arg32 lineno, ArgPtr (Some cond), Arg64 i, Arg32 (ucast (m (got + i))),
             text_arg (if invert_flag flags then ''!='' else ''==''), Arg32 (ucast (m (expect + i)))] w)
          (\<lambda>w. Inr (False, w))
      else Inr (True, w))"

definition test_memchk ::
  "target \<Rightarrow> (console \<Rightarrow> byte list \<Rightarrow> int) \<Rightarrow> mem \<Rightarrow> u32 \<Rightarrow> byte list \<Rightarrow> addr \<Rightarrow> byte \<Rightarrow> u64 \<Rightarrow> test_flags
    \<Rightarrow> test_world \<Rightarrow> (bool \<times> test_world) res" where
  "test_memchk t result m lineno cond got expect n flags w =
     (let i = buffer_loop (\<lambda>i. m (got + i)) (\<lambda>_. expect) n 0 in
      if (i < n) \<noteq> invert_flag flags then
        bind_res
          (say t result (''FAIL(%u): memchk %s, at offset %zu, %02x %s %02x'' @ newline)
            [Arg32 lineno, ArgPtr (Some cond), Arg64 i, Arg32 (ucast (m (got + i))),
             text_arg (if invert_flag flags then ''!='' else ''==''), Arg32 (ucast expect)] w)
          (\<lambda>w. Inr (False, w))
      else Inr (True, w))"

definition test_bool ::
  "target \<Rightarrow> (console \<Rightarrow> byte list \<Rightarrow> int) \<Rightarrow> u32 \<Rightarrow> byte list \<Rightarrow> u64 \<Rightarrow> test_flags
    \<Rightarrow> test_world \<Rightarrow> (bool \<times> test_world) res" where
  "test_bool t result lineno cond got flags w =
     bind_res
       (if got \<noteq> 1 \<and> got \<noteq> 0
        then say t result (''WARNING(%u): %s unconventional bool = %u'' @ newline)
          [Arg32 lineno, ArgPtr (Some cond), Arg32 (ucast got)] w
        else Inr w) (\<lambda>w.
       if got = (if invert_flag flags then 1 else 0) then
         bind_res (say t result (''FAIL(%u): %s'' @ newline) [Arg32 lineno, ArgPtr (Some cond)] w)
           (\<lambda>w. Inr (False, w))
       else Inr (True, w))"

definition int_check :: "u64 \<Rightarrow> u64 \<Rightarrow> test_flags \<Rightarrow> bool" where
  "int_check got expect flags =
     (let check =
        (if lt_flag flags then
           if sign_flag flags then sint got < sint expect else got < expect
         else if gt_flag flags then
           if sign_flag flags then sint got > sint expect else got > expect
         else got = expect)
      in if invert_flag flags then \<not> check else check)"

definition op_str :: "test_flags \<Rightarrow> string" where
  "op_str flags =
     (if lt_flag flags then if invert_flag flags then ''>='' else ''<''
      else if gt_flag flags then if invert_flag flags then ''<='' else ''>''
      else if invert_flag flags then ''!='' else ''=='')"

definition test_int ::
  "target \<Rightarrow> (console \<Rightarrow> byte list \<Rightarrow> int) \<Rightarrow> u32 \<Rightarrow> byte list \<Rightarrow> u64 \<Rightarrow> u64 \<Rightarrow> test_flags
    \<Rightarrow> test_world \<Rightarrow> (bool \<times> test_world) res" where
  "test_int t result lineno cond got expect flags w =
     (let check = int_check got expect flags in
      if check then Inr (True, w)
      else
        bind_res
          (if ptr_flag flags then
             say t result (''FAIL(%u): %s, %p %s %p'' @ newline)
               [Arg32 lineno, ArgPtr (Some cond), Arg64 got, text_arg (op_str flags), Arg64 expect] w
           else if sign_flag flags then
             say t result (''FAIL(%u): %s, %d %s %d'' @ newline)
               [Arg32 lineno, ArgPtr (Some cond), Arg32 (ucast got), text_arg (op_str flags), Arg32 (ucast expect)] w
           else
             say t result (''FAIL(%u): %s, %u %s %u'' @ newline)
               [Arg32 lineno, ArgPtr (Some cond), Arg32 (ucast got), text_arg (op_str flags), Arg32 (ucast expect)] w)
          (\<lambda>w. Inr (check, w)))"

definition add_test_result ::
  "target \<Rightarrow> (console \<Rightarrow> byte list \<Rightarrow> int) \<Rightarrow> mem \<Rightarrow> u32 \<Rightarrow> byte list \<Rightarrow> u64 \<Rightarrow> u64 \<Rightarrow> u64 \<Rightarrow> test_flags
    \<Rightarrow> test_world \<Rightarrow> test_world res option" where
  "add_test_result t result m lineno cond got expect expect2 flags w =
     (let (expect, expect2, flags) =
        (if near_flag flags then
           let value = ucast expect :: u32; tolerance = ucast expect2 :: u32
           in (ucast (value - tolerance), ucast (value + tolerance), flags\<lparr>range_flag := True\<rparr>)
         else (expect, expect2, flags))
      in map_option (\<lambda>r. bind_res r (\<lambda>(pass, w).
           bind_res
             (if pass \<and> verbose w \<noteq> 0
              then say t result (''pass(%u): %s'' @ newline) [Arg32 lineno, ArgPtr (Some cond)] w
              else Inr w) (\<lambda>w.
             Inr (w\<lparr>failed_count := failed_count w + (if pass then 0 else 1)\<rparr>))))
         (if str_flag flags then test_string t result m lineno cond got expect expect2 flags w
          else if memcmp_flag flags then Some (test_memcmp t result m lineno cond got expect expect2 flags w)
          else if memchk_flag flags then Some (test_memchk t result m lineno cond got (ucast expect) expect2 flags w)
          else if is_true_flag flags then Some (test_bool t result lineno cond got flags w)
          else if range_flag flags then
            (let flags = flags\<lparr>lt_flag := True, invert_flag := \<not> invert_flag flags\<rparr> in
             Some (bind_res (test_int t result lineno cond got expect flags w) (\<lambda>(pass, w).
               let flags = flags\<lparr>lt_flag := False, gt_flag := True\<rparr> in
               bind_res (test_int t result lineno cond got expect2 flags w) (\<lambda>(pass2, w).
                 Inr (pass \<and> pass2, w)))))
          else Some (test_int t result lineno cond got expect flags w)))"

definition init_test :: "test_world \<Rightarrow> test_world" where
  "init_test w = w\<lparr>failed_count := 0, last_fail := 0, verbose := 0\<rparr>"

definition is_test_succeed :: "test_world \<Rightarrow> bool \<times> test_world" where
  "is_test_succeed w =
     (let fails = last_fail w;
          w = w\<lparr>last_fail := failed_count w\<rparr>
      in (fails = failed_count w, w))"

section \<open>The macros\<close>

text \<open>
  The flags each macro passes; \<open>TEST_PTR_NULL\<close>, \<open>TEST_PTR_NONNULL\<close>, \<open>TEST_ZERO\<close>, \<open>TEST_FAIL\<close> and \<open>TEST_STRN_EQ\<close>
  pass those of \<open>TEST_PTR_EQ\<close>, \<open>TEST_PTR_NEQ\<close>, \<open>TEST_EQ\<close>, \<open>TEST_TRUE\<close> and \<open>TEST_STR_EQ\<close>.
\<close>

datatype test_macro =
    TEST_EQ | TEST_NEQ | TEST_INT_EQ | TEST_INT_NEQ | TEST_LT | TEST_GT
  | TEST_INT_LT | TEST_INT_GT | TEST_LE | TEST_GE | TEST_INT_LE | TEST_INT_GE
  | TEST_IN_RANGE | TEST_INT_IN_RANGE | TEST_NEAR | TEST_INT_NEAR | TEST_PTR_EQ | TEST_PTR_NEQ
  | TEST_TRUE | TEST_FALSE | TEST_STR_EQ | TEST_MEMCMP | TEST_MEMCHK

fun macro_flags :: "test_macro \<Rightarrow> test_flags" where
  "macro_flags TEST_EQ = no_test_flags"
| "macro_flags TEST_NEQ = no_test_flags\<lparr>invert_flag := True\<rparr>"
| "macro_flags TEST_INT_EQ = no_test_flags\<lparr>sign_flag := True\<rparr>"
| "macro_flags TEST_INT_NEQ = no_test_flags\<lparr>sign_flag := True, invert_flag := True\<rparr>"
| "macro_flags TEST_LT = no_test_flags\<lparr>lt_flag := True\<rparr>"
| "macro_flags TEST_GT = no_test_flags\<lparr>gt_flag := True\<rparr>"
| "macro_flags TEST_INT_LT = no_test_flags\<lparr>sign_flag := True, lt_flag := True\<rparr>"
| "macro_flags TEST_INT_GT = no_test_flags\<lparr>sign_flag := True, gt_flag := True\<rparr>"
| "macro_flags TEST_LE = no_test_flags\<lparr>gt_flag := True, invert_flag := True\<rparr>"
| "macro_flags TEST_GE = no_test_flags\<lparr>lt_flag := True, invert_flag := True\<rparr>"
| "macro_flags TEST_INT_LE = no_test_flags\<lparr>gt_flag := True, sign_flag := True, invert_flag := True\<rparr>"
| "macro_flags TEST_INT_GE = no_test_flags\<lparr>lt_flag := True, sign_flag := True, invert_flag := True\<rparr>"
| "macro_flags TEST_IN_RANGE = no_test_flags\<lparr>range_flag := True\<rparr>"
| "macro_flags TEST_INT_IN_RANGE = no_test_flags\<lparr>range_flag := True, sign_flag := True\<rparr>"
| "macro_flags TEST_NEAR = no_test_flags\<lparr>near_flag := True\<rparr>"
| "macro_flags TEST_INT_NEAR = no_test_flags\<lparr>near_flag := True, sign_flag := True\<rparr>"
| "macro_flags TEST_PTR_EQ = no_test_flags\<lparr>ptr_flag := True\<rparr>"
| "macro_flags TEST_PTR_NEQ = no_test_flags\<lparr>ptr_flag := True, invert_flag := True\<rparr>"
| "macro_flags TEST_TRUE = no_test_flags\<lparr>is_true_flag := True\<rparr>"
| "macro_flags TEST_FALSE = no_test_flags\<lparr>is_true_flag := True, invert_flag := True\<rparr>"
| "macro_flags TEST_STR_EQ = no_test_flags\<lparr>str_flag := True\<rparr>"
| "macro_flags TEST_MEMCMP = no_test_flags\<lparr>memcmp_flag := True\<rparr>"
| "macro_flags TEST_MEMCHK = no_test_flags\<lparr>memchk_flag := True\<rparr>"

section \<open>The runner\<close>

text \<open>
  A test is its name and its handler.  \<open>clock k\<close> is what the \<open>k\<close>-th call of \<open>get_clock\<close> returns,
  \<open>cycles k\<close> the same for \<open>get_cycles\<close>; \<open>None\<close> is a handler that does not return.
\<close>

type_synonym handler = "test_world \<Rightarrow> (bool \<times> test_world) res option"

fun run_tests ::
  "target \<Rightarrow> (console \<Rightarrow> byte list \<Rightarrow> int) \<Rightarrow> (nat \<Rightarrow> u64) \<Rightarrow> (byte list \<times> handler) list \<Rightarrow> nat \<Rightarrow> u32
    \<Rightarrow> test_world \<Rightarrow> (u32 \<times> nat \<times> test_world) res option" where
  "run_tests t result clock [] k test_count w = Some (Inr (test_count, k, w))"
| "run_tests t result clock ((name, handler) # tests) k test_count w =
     (case say t result (newline @ ''~~~~~~~~~~~~~'' @ newline @ ''Test \"%s\"'' @ newline) [ArgPtr (Some name)] w of
        Inl e \<Rightarrow> Some (Inl e)
      | Inr w \<Rightarrow> do {
          r \<leftarrow> handler w;
          case r of
            Inl e \<Rightarrow> Some (Inl e)
          | Inr (passed, w) \<Rightarrow>
              (case say t result (''completed in %lu ns'' @ newline) [Arg64 (clock (k + 1) - clock k)] w of
                 Inl e \<Rightarrow> Some (Inl e)
               | Inr w \<Rightarrow>
                   if \<not> passed then Some (Inr (test_count + 1, k + 2, w))
                   else run_tests t result clock tests (k + 2) (test_count + 1) w)
        })"

fun run_benches ::
  "target \<Rightarrow> (console \<Rightarrow> byte list \<Rightarrow> int) \<Rightarrow> (nat \<Rightarrow> u64) \<Rightarrow> (nat \<Rightarrow> u64) \<Rightarrow> (byte list \<times> handler) list \<Rightarrow> nat \<Rightarrow> nat
    \<Rightarrow> test_world \<Rightarrow> test_world res option" where
  "run_benches t result clock cycles [] k j w = Some (Inr w)"
| "run_benches t result clock cycles ((name, handler) # tests) k j w = do {
     r \<leftarrow> handler w;
     case r of
       Inl e \<Rightarrow> Some (Inl e)
     | Inr (_, w) \<Rightarrow>
         (case say t result (''%s completed in %lu ns, %lu cycles'' @ newline)
            [ArgPtr (Some name), Arg64 (clock (k + 1) - clock k), Arg64 (cycles (j + 1) - cycles j)] w of
            Inl e \<Rightarrow> Some (Inl e)
          | Inr w \<Rightarrow> run_benches t result clock cycles tests (k + 2) (j + 2) w)
   }"

text \<open>\<open>argv\<close> is the list of the \<open>argc\<close> arguments.  The options: any argument that begins with \<open>-v\<close>, a literal at the address \<open>dash_v\<close>.\<close>

fun read_options :: "mem \<Rightarrow> addr \<Rightarrow> addr list \<Rightarrow> test_world \<Rightarrow> test_world option" where
  "read_options m dash_v [] w = Some w"
| "read_options m dash_v (arg # args) w = do {
     c \<leftarrow> strncmp m arg dash_v 2;
     read_options m dash_v args (if c = 0 then w\<lparr>verbose := 1\<rparr> else w)
   }"

definition test_main ::
  "target \<Rightarrow> (console \<Rightarrow> byte list \<Rightarrow> int) \<Rightarrow> mem \<Rightarrow> addr \<Rightarrow> (nat \<Rightarrow> u64) \<Rightarrow> (nat \<Rightarrow> u64)
    \<Rightarrow> (byte list \<times> handler) list \<Rightarrow> (byte list \<times> handler) list \<Rightarrow> addr list \<Rightarrow> test_world
    \<Rightarrow> (u32 \<times> test_world) res option" where
  "test_main t result m dash_v clock cycles tests benches argv w = do {
     name \<leftarrow> string_at t m (case argv of [] \<Rightarrow> 0 | arg # _ \<Rightarrow> arg);
     case say t result (''Starting %s, total program args=%d'' @ newline) [name, Arg32 (of_nat (length argv))] w of
       Inl e \<Rightarrow> Some (Inl e)
     | Inr w \<Rightarrow> do {
         w \<leftarrow> read_options m dash_v (tl argv) (init_test w);
         r \<leftarrow> run_tests t result clock tests 0 0 w;
         case r of
           Inl e \<Rightarrow> Some (Inl e)
         | Inr (test_count, k, w) \<Rightarrow>
             (case (if failed_count w \<noteq> 0
                    then say t result (''%u TESTS FAILURES IN %u TESTS'' @ newline) [Arg32 (failed_count w), Arg32 test_count] w
                    else say t result (''ALL %u TESTS PASSED'' @ newline) [Arg32 test_count] w) of
                Inl e \<Rightarrow> Some (Inl e)
              | Inr w \<Rightarrow> do {
                  r \<leftarrow> run_benches t result clock cycles benches k 0 w;
                  Some (bind_res r (\<lambda>w. Inr (if failed_count w \<noteq> 0 then 1 else 0, w)))
                })
       }
   }"

end
