(* ===== verification/Test_Verdicts.thy ===== *)
theory Test_Verdicts
  imports Test_Framework
begin

text \<open>
  What the test framework decides: every check counts a failure exactly when the relation its flags
  stand for does not hold, and its reports can always be printed.
\<close>

section \<open>Reports\<close>

text \<open>Formats without stars or precision, with arguments that fit and strings of less than a megabyte.\<close>

fun fits :: "length_mod \<Rightarrow> conv \<Rightarrow> vararg \<Rightarrow> bool" where
  "fits l c (Arg32 _) \<longleftrightarrow> c = Char_arg \<or> c \<notin> {String_arg, Dump} \<and> \<not> wide_arg l c"
| "fits l c (Arg64 _) \<longleftrightarrow> c \<notin> {String_arg, Dump, Char_arg} \<and> wide_arg l c"
| "fits l c (ArgPtr (Some s)) \<longleftrightarrow> c = String_arg \<and> terminated s \<and> int (length s) < 2 ^ 20"
| "fits l c (ArgPtr None) \<longleftrightarrow> c = String_arg"

fun reportable :: "directive list \<Rightarrow> vararg list \<Rightarrow> bool" where
  "reportable [] args \<longleftrightarrow> True"
| "reportable (Plain c # ds) args \<longleftrightarrow> reportable ds args"
| "reportable (Conv fs w None l c # ds) (a # args) \<longleftrightarrow>
     (case w of Absent \<Rightarrow> True | Digits n \<Rightarrow> n \<le> 128 | Star \<Rightarrow> False) \<and> fits l c a \<and> reportable ds args"
| "reportable _ _ \<longleftrightarrow> False"

lemma field_text_length: "int (length (field_text f w 0 s)) \<le> max (int w) (int (length s))"
  by (auto simp: field_text_def Let_def)

lemma number_text_length:
  assumes "nat \<bar>z\<bar> < 2 ^ 64"
  shows "int (length (sign_of fs l c z @ map f (number_digits (base_of c) 0 (nat \<bar>z\<bar>)))) \<le> 65"
proof -
  have "2 \<le> base_of c" by (simp add: base_of_def)
  from number_digits_length [OF this assms, of 0]
  have "length (number_digits (base_of c) 0 (nat \<bar>z\<bar>)) \<le> 64" by simp
  moreover have "length (sign_of fs l c z) \<le> 1" by (simp add: sign_of_def)
  ultimately show ?thesis by simp
qed

lemma number_value_bound:
  assumes "number_value l c args = Some (z, args')" and "c = Pointer \<longrightarrow> l = No_length"
  shows "nat \<bar>z\<bar> < 2 ^ 64"
proof -
  obtain v where "magnitude_ok (length_flags l c (flags_of [])) c (sign_byte [] l c z) z v"
    using load_number [OF assms, of "[]"] by blast
  then obtain u :: u64 where "unat u = nat \<bar>z\<bar>" by (auto simp: magnitude_ok_def split: if_splits)
  then show ?thesis using unat_less_exp [of u] by simp
qed

lemma fits_output:
  assumes "fits l c a" and "w \<le> 128" and "c \<in> {String_arg, Dump, Pointer} \<longrightarrow> l = No_length"
  shows "\<exists>out. conv_output t fs w 0 l c (a # args) = Some (out, args) \<and> int (length out) \<le> 2 ^ 20"
proof -
  consider (str) p where "a = ArgPtr p" "c = String_arg"
      "terminated (case p of None \<Rightarrow> null_text | Some s \<Rightarrow> s)" "int (length (case p of None \<Rightarrow> null_text | Some s \<Rightarrow> s)) < 2 ^ 20"
    | (char) x where "a = Arg32 x" "c = Char_arg"
    | (number) "c \<notin> {String_arg, Dump, Char_arg}" "\<exists>z. number_value l c (a # args) = Some (z, args)"
    using assms(1) by (cases "(l, c, a)" rule: fits.cases; cases "c = Char_arg") (auto simp: null_text_def)
  then show ?thesis
  proof cases
    case str
    let ?s = "case p of None \<Rightarrow> null_text | Some s \<Rightarrow> s"
    have "int (length (chars_of ?s)) < 2 ^ 20" using chars_of_length [of ?s] str(4) by linarith
    then have "int (length (field_text (flags_of fs) w 0 (chars_of ?s))) \<le> 2 ^ 20"
      using field_text_length [of "flags_of fs" w "chars_of ?s"] assms(2) by simp
    then show ?thesis using str by (simp add: conv_output_def)
  next
    case char
    then show ?thesis by (simp add: conv_output_def)
  next
    case num: number
    then obtain z where number: "number_value l c (a # args) = Some (z, args)" "c \<notin> {String_arg, Dump, Char_arg}"
      by blast
    define f where "f = (flags_of fs)\<lparr>pad_zero := c = Pointer \<or> Zero \<in> set fs\<rparr>"
    define s where "s = sign_of fs l c z @ map (digit_char (letters_of fs c)) (number_digits (base_of c) 0 (nat \<bar>z\<bar>))"
    have "int (length s) \<le> 65"
      unfolding s_def using number_value_bound [OF number(1)] assms(3) by (intro number_text_length) simp
    then have "int (length (field_text f w 0 s)) \<le> 128"
      using field_text_length [of f w s] assms(2) by (auto simp: max_def split: if_splits)
    moreover have "int (length (prefix_of c)) \<le> 2" by (simp add: prefix_of_def)
    ultimately have "int (length (prefix_of c @ field_text f w 0 s)) \<le> 2 ^ 20" by simp
    moreover have "length (sign_of fs l c z) \<le> 67" by (simp add: sign_of_def)
    ultimately show ?thesis using number by (simp add: conv_output_def f_def s_def)
  qed
qed

lemma reportable_output:
  assumes "reportable ds args" and "list_all well_formed ds"
  shows "\<exists>out rest. format_output t ds args = Some (out, rest) \<and> int (length out) \<le> int (length ds) * 2 ^ 20"
  using assms
proof (induction ds args rule: reportable.induct)
  case (2 c ds args)
  then show ?case by force
next
  case (3 fs w l c ds a args)
  obtain n where n: "amount_value w (a # args) = Some (n, a # args)" "n \<le> 128"
    using "3.prems"(1) by (cases w) auto
  obtain out where o: "conv_output t fs n 0 l c (a # args) = Some (out, args)" "int (length out) \<le> 2 ^ 20"
    using fits_output [of l c a n t fs args] "3.prems" n(2) by auto
  obtain out2 rest where "format_output t ds args = Some (out2, rest)" "int (length out2) \<le> int (length ds) * 2 ^ 20"
    using 3 by auto
  then show ?case using n o by (simp add: algebra_simps)
qed auto

lemma say_returns:
  assumes "literal s = format_text ds" and "list_all well_formed ds" and "reportable ds args"
    and "length ds < 1000" and "\<forall>con x. 0 \<le> result con x"
  shows "\<exists>con. say t result s args w = Inr (w\<lparr>screen := con\<rparr>)"
proof -
  obtain out rest where o: "format_output t ds args = Some (out, rest)" "int (length out) \<le> int (length ds) * 2 ^ 20"
    using reportable_output [OF assms(3,2)] by blast
  then have l: "length out < 2 ^ 30" using assms(4) by simp
  have "formatted t (literal s) args = Inr (out, int (length out))"
    unfolding assms(1) using assms(2) o(1) l by (intro formatted_text) (auto simp: list_all_iff)
  from printf_returns [OF this, of result "screen w"] assms(5) show ?thesis by (auto simp: say_def)
qed

text \<open>What a report of a failure begins with: \<open>FAIL\<close>, the line in parentheses.\<close>

definition plain_text :: "string \<Rightarrow> directive list" where
  "plain_text s = map (\<lambda>c. Plain (of_char c)) s"

definition fail_report :: "u32 \<Rightarrow> byte list" where
  "fail_report lineno = map of_char ''FAIL('' @ decimal (uint lineno) @ map of_char '')''"

definition failed_at :: "u32 \<Rightarrow> test_world \<Rightarrow> console \<Rightarrow> bool" where
  "failed_at lineno w con \<longleftrightarrow> (\<exists>rest. concat con = concat (screen w) @ fail_report lineno @ rest)"

lemma failed_at_later:
  "failed_at lineno w con \<Longrightarrow> concat con2 = concat con @ rest \<Longrightarrow> failed_at lineno w con2"
  by (auto simp: failed_at_def)

lemma format_output_plain:
  "format_output t (plain_text s @ ds) args =
    map_option (\<lambda>(out, rest). (map of_char s @ out, rest)) (format_output t ds args)"
  by (induction s) (auto simp: plain_text_def map_option_case split: option.splits)

lemma conv_u_output:
  "directive_output t (Conv [] Absent None No_length Uns) (Arg32 v # args) = Some (decimal (uint v), args)"
  by (simp add: conv_output_def wide_arg_def sign_of_def prefix_of_def field_text_def letters_of_def base_of_def decimal_def)

lemma say_prints:
  assumes "literal s = format_text ds" and "list_all well_formed ds" and "format_output t ds args = Some (out, rest)"
    and "out \<noteq> []" and "length out < 2 ^ 30" and "\<forall>con x. 0 \<le> result con x"
  shows "\<exists>con. say t result s args w = Inr (w\<lparr>screen := con\<rparr>) \<and> concat con = concat (screen w) @ out"
proof -
  have "formatted t (literal s) args = Inr (out, int (length out))"
    unfolding assms(1) using assms(2,3,5) by (intro formatted_text) (auto simp: list_all_iff)
  from printf_pieces [OF this, of result "screen w"] assms(4,6)
  obtain pieces piece where p: "printf t result (screen w) (Some (literal s)) args =
      Inr (screen w @ pieces @ [piece], as_int (result (screen w @ pieces) piece))" "concat (pieces @ [piece]) = out"
    by auto
  then show ?thesis by (intro exI [of _ "screen w @ pieces @ [piece]"]) (simp add: say_def)
qed

lemma fail_says:
  assumes "literal s = format_text (plain_text ''FAIL('' @ [Conv [] Absent None No_length Uns] @ plain_text (CHR '')'' # cs) @ ds)"
    and "list_all well_formed (plain_text ''FAIL('' @ [Conv [] Absent None No_length Uns] @ plain_text (CHR '')'' # cs) @ ds)"
    and "reportable ds args" and "length cs + length ds < 900" and "\<forall>con x. 0 \<le> result con x"
  shows "\<exists>con. say t result s (Arg32 lineno # args) w = Inr (w\<lparr>screen := con\<rparr>) \<and> failed_at lineno w con"
proof -
  let ?ds = "plain_text ''FAIL('' @ [Conv [] Absent None No_length Uns] @ plain_text (CHR '')'' # cs) @ ds"
  have "reportable (plain_text x @ ds) as = reportable ds as" for x ds as by (induction x) (simp_all add: plain_text_def)
  then have "reportable ?ds (Arg32 lineno # args)" using assms(3) by (simp add: wide_arg_def)
  from reportable_output [OF this assms(2), of t]
  obtain out rest where o: "format_output t ?ds (Arg32 lineno # args) = Some (out, rest)" "int (length out) \<le> int (length ?ds) * 2 ^ 20"
    by blast
  have "length ?ds < 1000" using assms(4) by (simp add: plain_text_def)
  then have l: "length out < 2 ^ 30" using o(2) by simp
  obtain out2 where out: "out = fail_report lineno @ out2"
    using o(1) by (auto simp: format_output_plain conv_u_output fail_report_def bind_eq_Some_conv simp del: directive_output.simps)
  then have "out \<noteq> []" by (simp add: fail_report_def)
  from say_prints [OF assms(1,2) o(1) this l assms(5), of w] show ?thesis
    by (auto simp: failed_at_def out)
qed

section \<open>The loops\<close>

text \<open>Two strings agree in their first \<open>n\<close> bytes, or up to a common end before.\<close>

definition same_string :: "mem \<Rightarrow> addr \<Rightarrow> addr \<Rightarrow> u64 \<Rightarrow> bool" where
  "same_string m a b n \<longleftrightarrow> (\<forall>j < n. (\<forall>k < j. m (b + k) \<noteq> 0) \<longrightarrow> m (a + j) = m (b + j))"

lemma less_step: "i < n \<Longrightarrow> j < i + 1 \<Longrightarrow> j < i \<or> j = i"
  for i j n :: u64
  using unat_Suc_less [of i n] by (auto simp: word_less_nat_alt less_Suc_eq word_unat_eq_iff)

lemma string_loop_stops:
  assumes "\<And>j. j < i \<Longrightarrow> m (b + j) \<noteq> 0 \<and> m (a + j) = m (b + j)"
  shows "\<exists>k. string_loop m a b n i = k \<and> (\<forall>j < k. m (b + j) \<noteq> 0 \<and> m (a + j) = m (b + j))
    \<and> \<not> (k < n \<and> m (b + k) \<noteq> 0 \<and> m (a + k) = m (b + k))"
  using assms
proof (induction "unat n - unat i" arbitrary: i rule: less_induct)
  case less
  show ?case
  proof (cases "i < n \<and> m (b + i) \<noteq> 0 \<and> m (a + i) = m (b + i)")
    case True
    then have i: "unat (i + 1) = Suc (unat i)" "unat i < unat n"
      using unat_Suc_less by (auto simp: word_less_nat_alt)
    note j = less_step [of i n]
    then have "\<exists>k. string_loop m a b n (i + 1) = k \<and> (\<forall>j < k. m (b + j) \<noteq> 0 \<and> m (a + j) = m (b + j))
        \<and> \<not> (k < n \<and> m (b + k) \<noteq> 0 \<and> m (a + k) = m (b + k))"
      using less.prems True i j by (intro less.hyps) auto
    then show ?thesis using True by (subst string_loop.simps) simp
  next
    case False
    then show ?thesis using less.prems by (subst string_loop.simps) auto
  qed
qed

lemma string_loop_same:
  "(string_loop m a b n 0 < n \<and> (m (b + string_loop m a b n 0) \<noteq> 0 \<or> m (a + string_loop m a b n 0) \<noteq> 0))
    \<longleftrightarrow> \<not> same_string m a b n"
proof -
  obtain k where k: "string_loop m a b n 0 = k" "\<forall>j < k. m (b + j) \<noteq> 0 \<and> m (a + j) = m (b + j)"
      "\<not> (k < n \<and> m (b + k) \<noteq> 0 \<and> m (a + k) = m (b + k))"
    using string_loop_stops [of 0 m b a n] by auto
  show ?thesis
  proof
    assume "string_loop m a b n 0 < n \<and> (m (b + string_loop m a b n 0) \<noteq> 0 \<or> m (a + string_loop m a b n 0) \<noteq> 0)"
    then have "k < n" "m (a + k) \<noteq> m (b + k)" using k(1,3) by auto
    then show "\<not> same_string m a b n" using k(2) by (auto simp: same_string_def)
  next
    assume "\<not> same_string m a b n"
    then obtain j where j: "j < n" "\<forall>i < j. m (b + i) \<noteq> 0" "m (a + j) \<noteq> m (b + j)" by (auto simp: same_string_def)
    then have "k \<le> j" using k(2) by (meson linorder_not_le)
    then have "k < n" using j(1) by (rule le_less_trans)
    moreover have "m (b + k) \<noteq> 0 \<or> m (a + k) \<noteq> 0"
    proof (cases "k = j")
      case False
      then have "k < j" using \<open>k \<le> j\<close> by simp
      then show ?thesis using j(2) by blast
    qed (use j(3) in auto)
    ultimately show "string_loop m a b n 0 < n \<and> (m (b + string_loop m a b n 0) \<noteq> 0 \<or> m (a + string_loop m a b n 0) \<noteq> 0)"
      using k(1) by simp
  qed
qed

lemma buffer_loop_stops:
  assumes "\<And>j. j < i \<Longrightarrow> got j = expect j"
  shows "buffer_loop got expect n i < n \<longleftrightarrow> (\<exists>j < n. got j \<noteq> expect j)"
  using assms
proof (induction "unat n - unat i" arbitrary: i rule: less_induct)
  case less
  show ?case
  proof (cases "i < n \<and> got i = expect i")
    case True
    then have i: "unat (i + 1) = Suc (unat i)" "unat i < unat n"
      using unat_Suc_less by (auto simp: word_less_nat_alt)
    note j = less_step [of i n]
    then have "buffer_loop got expect n (i + 1) < n \<longleftrightarrow> (\<exists>j < n. got j \<noteq> expect j)"
      using less.prems True i j by (intro less.hyps) auto
    then show ?thesis using True by (subst buffer_loop.simps) simp
  next
    case False
    then have e: "buffer_loop got expect n i = i" by (subst buffer_loop.simps) auto
    show ?thesis
    proof (cases "i < n")
      case True
      then show ?thesis using False e by auto
    next
      case ge: False
      then have "got j = expect j" if "j < n" for j using less.prems that by (meson less_le_trans linorder_not_le)
      then show ?thesis using ge e by auto
    qed
  qed
qed

lemma buffer_loop_same: "buffer_loop got expect n 0 < n \<longleftrightarrow> (\<exists>j < n. got j \<noteq> expect j)"
  by (rule buffer_loop_stops) simp

section \<open>Verdicts\<close>

text \<open>The relation the flags of a check stand for.\<close>

definition in_window :: "test_flags \<Rightarrow> u64 \<Rightarrow> u64 \<Rightarrow> u64 \<Rightarrow> bool" where
  "in_window flags got lo hi \<longleftrightarrow>
     (if invert_flag flags then (if sign_flag flags then sint got < sint lo \<and> sint got > sint hi else got < lo \<and> got > hi)
      else if sign_flag flags then sint lo \<le> sint got \<and> sint got \<le> sint hi else lo \<le> got \<and> got \<le> hi)"

definition passes :: "mem \<Rightarrow> u64 \<Rightarrow> u64 \<Rightarrow> u64 \<Rightarrow> test_flags \<Rightarrow> bool" where
  "passes m got expect expect2 flags \<longleftrightarrow>
     (let (lo, hi) =
        (if near_flag flags
         then (ucast (ucast expect - ucast expect2 :: u32), ucast (ucast expect + ucast expect2 :: u32))
         else (expect, expect2))
      in if str_flag flags then same_string m got lo hi \<noteq> invert_flag flags
         else if memcmp_flag flags then (\<forall>j < hi. m (got + j) = m (lo + j)) \<noteq> invert_flag flags
         else if memchk_flag flags then (\<forall>j < hi. m (got + j) = ucast lo) \<noteq> invert_flag flags
         else if is_true_flag flags then got \<noteq> of_bool (invert_flag flags)
         else if near_flag flags \<or> range_flag flags then in_window flags got lo hi
         else int_check got lo flags)"

section \<open>The reports can be printed\<close>

abbreviation "conv_u \<equiv> Conv [] Absent None No_length Uns"
abbreviation "conv_d \<equiv> Conv [] Absent None No_length Dec"
abbreviation "conv_s \<equiv> Conv [] Absent None No_length String_arg"
abbreviation "conv_c \<equiv> Conv [] Absent None No_length Char_arg"
abbreviation "conv_p \<equiv> Conv [] Absent None No_length Pointer"
abbreviation "conv_zu \<equiv> Conv [] Absent None Mod_z Uns"
abbreviation "conv_02x \<equiv> Conv [Zero] (Digits 2) None No_length Hex_low"

lemma reportable_plain [simp]: "reportable (map (\<lambda>c. Plain (f c)) s @ ds) args = reportable ds args"
  by (induction s) simp_all

lemma report_returns:
  assumes "literal s = format_text (plain_text cs @ ds)" and "list_all well_formed (plain_text cs @ ds)"
    and "reportable ds args" and "length cs + length ds < 1000" and "\<forall>con x. 0 \<le> result con x"
  shows "\<exists>con. say t result s args w = Inr (w\<lparr>screen := con\<rparr>)"
  using say_returns [of s "plain_text cs @ ds" args result t w] assms by (simp add: plain_text_def)

lemma fail_string_text:
  "literal (''FAIL(%u): strcmp %s, at offset %zu, '%c' %s '%c' ('%s' %s '%s') '' @ newline) =
    format_text (plain_text ''FAIL('' @ [conv_u] @ plain_text ''): strcmp '' @ [conv_s] @
      plain_text '', at offset '' @ [conv_zu] @ plain_text ('', '' @ [CHR 0x27]) @ [conv_c] @
      plain_text ([CHR 0x27] @ '' '') @ [conv_s] @ plain_text ('' '' @ [CHR 0x27]) @
      [conv_c] @ plain_text ([CHR 0x27] @ '' ('' @ [CHR 0x27]) @ [conv_s] @
      plain_text ([CHR 0x27] @ '' '') @ [conv_s] @ plain_text ('' '' @ [CHR 0x27]) @
      [conv_s] @ plain_text ([CHR 0x27] @ '') '' @ newline))"
  by code_simp

lemma fail_memcmp_text:
  "literal (''FAIL(%u): memcmp %s, at offset %zu, %02x %s %02x'' @ newline) =
    format_text (plain_text ''FAIL('' @ [conv_u] @ plain_text ''): memcmp '' @ [conv_s] @
      plain_text '', at offset '' @ [conv_zu] @ plain_text '', '' @ [conv_02x] @
      plain_text '' '' @ [conv_s] @ plain_text '' '' @ [conv_02x] @ plain_text newline)"
  by code_simp

lemma fail_memchk_text:
  "literal (''FAIL(%u): memchk %s, at offset %zu, %02x %s %02x'' @ newline) =
    format_text (plain_text ''FAIL('' @ [conv_u] @ plain_text ''): memchk '' @ [conv_s] @
      plain_text '', at offset '' @ [conv_zu] @ plain_text '', '' @ [conv_02x] @
      plain_text '' '' @ [conv_s] @ plain_text '' '' @ [conv_02x] @ plain_text newline)"
  by code_simp

lemma warn_bool_text:
  "literal (''WARNING(%u): %s unconventional bool = %u'' @ newline) =
    format_text (plain_text ''WARNING('' @ [conv_u] @ plain_text ''): '' @ [conv_s] @
      plain_text '' unconventional bool = '' @ [conv_u] @ plain_text newline)"
  by code_simp

lemma fail_bool_text:
  "literal (''FAIL(%u): %s'' @ newline) =
    format_text (plain_text ''FAIL('' @ [conv_u] @ plain_text ''): '' @ [conv_s] @ plain_text newline)"
  by code_simp

lemma fail_ptr_text:
  "literal (''FAIL(%u): %s, %p %s %p'' @ newline) =
    format_text (plain_text ''FAIL('' @ [conv_u] @ plain_text ''): '' @ [conv_s] @ plain_text '', '' @
      [conv_p] @ plain_text '' '' @ [conv_s] @ plain_text '' '' @ [conv_p] @
      plain_text newline)"
  by code_simp

lemma fail_sign_text:
  "literal (''FAIL(%u): %s, %d %s %d'' @ newline) =
    format_text (plain_text ''FAIL('' @ [conv_u] @ plain_text ''): '' @ [conv_s] @ plain_text '', '' @
      [conv_d] @ plain_text '' '' @ [conv_s] @ plain_text '' '' @ [conv_d] @
      plain_text newline)"
  by code_simp

lemma fail_uns_text:
  "literal (''FAIL(%u): %s, %u %s %u'' @ newline) =
    format_text (plain_text ''FAIL('' @ [conv_u] @ plain_text ''): '' @ [conv_s] @ plain_text '', '' @
      [conv_u] @ plain_text '' '' @ [conv_s] @ plain_text '' '' @ [conv_u] @
      plain_text newline)"
  by code_simp

lemma pass_text:
  "literal (''pass(%u): %s'' @ newline) =
    format_text (plain_text ''pass('' @ [conv_u] @ plain_text ''): '' @ [conv_s] @ plain_text newline)"
  by code_simp

text \<open>A condition text and a string argument of less than a megabyte.\<close>

definition text_ok :: "byte list \<Rightarrow> bool" where
  "text_ok s \<longleftrightarrow> terminated s \<and> int (length s) < 2 ^ 20"

definition string_ok :: "mem \<Rightarrow> addr \<Rightarrow> bool" where
  "string_ok m p \<longleftrightarrow> p = 0 \<or> (\<exists>n. nul_at m p n \<and> int n < 2 ^ 20 - 1)"

lemma string_ok_fits:
  assumes "string_ok m p"
  shows "\<exists>a. string_at t m p = Some a \<and> fits No_length String_arg a"
proof (cases "p = 0")
  case False
  then obtain n where n: "nul_at m p n" "int n < 2 ^ 20 - 1" using assms by (auto simp: string_ok_def)
  have "n < 2 ^ 64" using n(2) by simp
  then have u: "unat (of_nat n :: u64) = n" by (simp add: unat_of_nat_eq)
  have "terminated (bytes_at m p (Suc n))" using n(1) by (auto simp: terminated_def bytes_at_def nul_at_def)
  then show ?thesis using False strlen_finds [OF n(1), of t] n(2) u by (simp add: string_at_def)
qed (simp add: string_at_def)

lemma text_arg_fits: "0 \<notin> set (map of_char s :: byte list) \<Longrightarrow> int (length s) < 100 \<Longrightarrow> fits No_length String_arg (text_arg s)"
  by (simp add: text_arg_def literal_def)

lemma op_fits [simp]: "fits No_length String_arg (text_arg (op_str flags))"
  by (simp add: op_str_def text_arg_def literal_def)

lemma eq_fits [simp]: "fits No_length String_arg (text_arg (if b then ''!='' else ''==''))"
  by (simp add: text_arg_def literal_def)

section \<open>The checks\<close>

text \<open>What a check prints: when it passes quietly nothing, when it fails a report.\<close>

definition reports :: "bool \<Rightarrow> bool \<Rightarrow> u32 \<Rightarrow> test_world \<Rightarrow> console \<Rightarrow> bool" where
  "reports pass quiet lineno w con \<longleftrightarrow> (if pass then quiet \<longrightarrow> con = screen w else failed_at lineno w con)"

lemma outcome:
  assumes "\<exists>con. report = Inr (w\<lparr>screen := con\<rparr>) \<and> failed_at lineno w con"
  shows "\<exists>con. (if failed then bind_res report (\<lambda>w. Inr (False, w)) else Inr (True, w)) =
    Inr (\<not> failed, w\<lparr>screen := con\<rparr>) \<and> reports (\<not> failed) True lineno w con"
  using assms by (cases failed) (auto simp: reports_def intro: exI [of _ "screen w"])

lemma test_int_verdict:
  assumes "text_ok cond" and "\<forall>con x. 0 \<le> result con x"
  shows "\<exists>con. test_int t result lineno cond got expect flags w = Inr (int_check got expect flags, w\<lparr>screen := con\<rparr>)
    \<and> reports (int_check got expect flags) True lineno w con"
proof -
  have "\<exists>con. say t result (''FAIL(%u): %s, %p %s %p'' @ newline)
      [Arg32 lineno, ArgPtr (Some cond), Arg64 got, text_arg (op_str flags), Arg64 expect] w = Inr (w\<lparr>screen := con\<rparr>) \<and> failed_at lineno w con"
    using assms by (intro fail_says [OF fail_ptr_text]) (simp_all add: plain_text_def text_ok_def wide_arg_def newline_def)
  moreover have "\<exists>con. say t result (''FAIL(%u): %s, %d %s %d'' @ newline)
      [Arg32 lineno, ArgPtr (Some cond), Arg32 (ucast got), text_arg (op_str flags), Arg32 (ucast expect)] w = Inr (w\<lparr>screen := con\<rparr>) \<and> failed_at lineno w con"
    using assms by (intro fail_says [OF fail_sign_text]) (simp_all add: plain_text_def text_ok_def wide_arg_def newline_def)
  moreover have "\<exists>con. say t result (''FAIL(%u): %s, %u %s %u'' @ newline)
      [Arg32 lineno, ArgPtr (Some cond), Arg32 (ucast got), text_arg (op_str flags), Arg32 (ucast expect)] w = Inr (w\<lparr>screen := con\<rparr>) \<and> failed_at lineno w con"
    using assms by (intro fail_says [OF fail_uns_text]) (simp_all add: plain_text_def text_ok_def wide_arg_def newline_def)
  ultimately show ?thesis
    by (cases "int_check got expect flags")
      (auto simp: test_int_def Let_def reports_def intro: exI [of _ "screen w"])
qed

lemma test_bool_verdict:
  assumes "text_ok cond" and "\<forall>con x. 0 \<le> result con x"
  shows "\<exists>con. test_bool t result lineno cond got flags w =
    Inr (got \<noteq> of_bool (invert_flag flags), w\<lparr>screen := con\<rparr>)
    \<and> reports (got \<noteq> of_bool (invert_flag flags)) (got = 0 \<or> got = 1) lineno w con"
proof -
  have warn: "\<exists>con. say t result (''WARNING(%u): %s unconventional bool = %u'' @ newline)
      [Arg32 lineno, ArgPtr (Some cond), Arg32 (ucast got)] w = Inr (w\<lparr>screen := con\<rparr>)"
    using assms by (intro report_returns [OF warn_bool_text]) (simp_all add: plain_text_def text_ok_def wide_arg_def newline_def)
  have fail: "\<exists>con. say t result (''FAIL(%u): %s'' @ newline) [Arg32 lineno, ArgPtr (Some cond)] w =
      Inr (w\<lparr>screen := con\<rparr>) \<and> failed_at lineno w con"
    using assms by (intro fail_says [OF fail_bool_text]) (simp_all add: plain_text_def text_ok_def wide_arg_def newline_def)
  show ?thesis
  proof (cases "got = 0 \<or> got = 1")
    case True
    then have "\<not> (got \<noteq> 1 \<and> got \<noteq> 0)" by blast
    then show ?thesis using outcome [OF fail, of "got = of_bool (invert_flag flags)"] True
      by (auto simp: test_bool_def reports_def)
  next
    case False
    then show ?thesis using warn by (auto simp: test_bool_def reports_def)
  qed
qed

lemma test_memcmp_verdict:
  assumes "text_ok cond" and "\<forall>con x. 0 \<le> result con x"
  shows "\<exists>con. test_memcmp t result m lineno cond got expect n flags w =
    Inr ((\<forall>j < n. m (got + j) = m (expect + j)) \<noteq> invert_flag flags, w\<lparr>screen := con\<rparr>)
    \<and> reports ((\<forall>j < n. m (got + j) = m (expect + j)) \<noteq> invert_flag flags) True lineno w con"
proof -
  define i where "i = buffer_loop (\<lambda>i. m (got + i)) (\<lambda>i. m (expect + i)) n 0"
  have "\<exists>con. say t result (''FAIL(%u): memcmp %s, at offset %zu, %02x %s %02x'' @ newline)
      [Arg32 lineno, ArgPtr (Some cond), Arg64 i, Arg32 (ucast (m (got + i))),
       text_arg (if invert_flag flags then ''!='' else ''==''), Arg32 (ucast (m (expect + i)))] w = Inr (w\<lparr>screen := con\<rparr>) \<and> failed_at lineno w con"
    using assms by (intro fail_says [OF fail_memcmp_text]) (simp_all add: plain_text_def text_ok_def wide_arg_def newline_def)
  from outcome [OF this] have "\<exists>con. test_memcmp t result m lineno cond got expect n flags w =
      Inr (\<not> ((i < n) \<noteq> invert_flag flags), w\<lparr>screen := con\<rparr>)
      \<and> reports (\<not> ((i < n) \<noteq> invert_flag flags)) True lineno w con"
    unfolding test_memcmp_def Let_def i_def [symmetric] .
  moreover have "(\<not> ((i < n) \<noteq> invert_flag flags)) = ((\<forall>j < n. m (got + j) = m (expect + j)) \<noteq> invert_flag flags)"
    by (auto simp: i_def buffer_loop_same)
  ultimately show ?thesis by (simp only:)
qed

lemma test_memchk_verdict:
  assumes "text_ok cond" and "\<forall>con x. 0 \<le> result con x"
  shows "\<exists>con. test_memchk t result m lineno cond got expect n flags w =
    Inr ((\<forall>j < n. m (got + j) = expect) \<noteq> invert_flag flags, w\<lparr>screen := con\<rparr>)
    \<and> reports ((\<forall>j < n. m (got + j) = expect) \<noteq> invert_flag flags) True lineno w con"
proof -
  define i where "i = buffer_loop (\<lambda>i. m (got + i)) (\<lambda>_. expect) n 0"
  have "\<exists>con. say t result (''FAIL(%u): memchk %s, at offset %zu, %02x %s %02x'' @ newline)
      [Arg32 lineno, ArgPtr (Some cond), Arg64 i, Arg32 (ucast (m (got + i))),
       text_arg (if invert_flag flags then ''!='' else ''==''), Arg32 (ucast expect)] w = Inr (w\<lparr>screen := con\<rparr>) \<and> failed_at lineno w con"
    using assms by (intro fail_says [OF fail_memchk_text]) (simp_all add: plain_text_def text_ok_def wide_arg_def newline_def)
  from outcome [OF this] have "\<exists>con. test_memchk t result m lineno cond got expect n flags w =
      Inr (\<not> ((i < n) \<noteq> invert_flag flags), w\<lparr>screen := con\<rparr>)
      \<and> reports (\<not> ((i < n) \<noteq> invert_flag flags)) True lineno w con"
    unfolding test_memchk_def Let_def i_def [symmetric] .
  moreover have "(\<not> ((i < n) \<noteq> invert_flag flags)) = ((\<forall>j < n. m (got + j) = expect) \<noteq> invert_flag flags)"
    by (auto simp: i_def buffer_loop_same)
  ultimately show ?thesis by (simp only:)
qed

lemma test_string_verdict:
  assumes "text_ok cond" and "\<forall>con x. 0 \<le> result con x" and "string_ok m got" and "string_ok m expect"
  shows "\<exists>con. test_string t result m lineno cond got expect n flags w =
    Some (Inr (same_string m got expect n \<noteq> invert_flag flags, w\<lparr>screen := con\<rparr>))
    \<and> reports (same_string m got expect n \<noteq> invert_flag flags) True lineno w con"
proof -
  obtain a b where ab: "string_at t m got = Some a" "fits No_length String_arg a"
      "string_at t m expect = Some b" "fits No_length String_arg b"
    using string_ok_fits assms(3,4) by metis
  define i where "i = string_loop m got expect n 0"
  have "\<exists>con. say t result (''FAIL(%u): strcmp %s, at offset %zu, '%c' %s '%c' ('%s' %s '%s') '' @ newline)
      [Arg32 lineno, ArgPtr (Some cond), Arg64 i, char_arg t (m (got + i)), text_arg (if invert_flag flags then ''!='' else ''==''),
       char_arg t (m (expect + i)), a, text_arg (if invert_flag flags then ''!='' else ''==''), b] w = Inr (w\<lparr>screen := con\<rparr>) \<and> failed_at lineno w con"
    using assms(1,2) ab(2,4)
    by (intro fail_says [OF fail_string_text]) (simp_all add: plain_text_def text_ok_def char_arg_def wide_arg_def newline_def)
  from outcome [OF this, of "(i < n \<and> (m (expect + i) \<noteq> 0 \<or> m (got + i) \<noteq> 0)) \<noteq> invert_flag flags"]
  have "\<exists>con. test_string t result m lineno cond got expect n flags w =
      Some (Inr (\<not> ((i < n \<and> (m (expect + i) \<noteq> 0 \<or> m (got + i) \<noteq> 0)) \<noteq> invert_flag flags), w\<lparr>screen := con\<rparr>))
      \<and> reports (\<not> ((i < n \<and> (m (expect + i) \<noteq> 0 \<or> m (got + i) \<noteq> 0)) \<noteq> invert_flag flags)) True lineno w con"
    unfolding test_string_def Let_def i_def [symmetric] ab by (auto split: if_splits)
  moreover have "(\<not> ((i < n \<and> (m (expect + i) \<noteq> 0 \<or> m (got + i) \<noteq> 0)) \<noteq> invert_flag flags))
      = (same_string m got expect n \<noteq> invert_flag flags)"
    unfolding i_def string_loop_same by auto
  ultimately show ?thesis by (simp only:)
qed

lemma reports_both:
  assumes "reports a True lineno w con" and "reports b True lineno (w\<lparr>screen := con\<rparr>) con2"
  shows "reports (a \<and> b) True lineno w con2"
  using assms by (cases a; cases b) (auto simp: reports_def failed_at_def)

lemma reports_weaken:
  "\<exists>con. P con \<and> reports pass True lineno w con \<Longrightarrow> \<exists>con. P con \<and> reports pass quiet lineno w con"
  by (auto simp: reports_def split: if_splits)

lemma in_window_checks:
  "(int_check got lo (flags\<lparr>lt_flag := True, invert_flag := \<not> invert_flag flags\<rparr>)
    \<and> int_check got hi (flags\<lparr>invert_flag := \<not> invert_flag flags, lt_flag := False, gt_flag := True\<rparr>))
    = in_window flags got lo hi"
  by (auto simp: int_check_def in_window_def)

lemma count_result:
  assumes "text_ok cond" and "\<forall>con x. 0 \<le> result con x"
    and "\<exists>con. r = Some (Inr (pass, w\<lparr>screen := con\<rparr>)) \<and> reports pass quiet lineno w con"
  shows "\<exists>con. map_option (\<lambda>r. bind_res r (\<lambda>(pass, w).
           bind_res
             (if pass \<and> verbose w \<noteq> 0
              then say t result (''pass(%u): %s'' @ newline) [Arg32 lineno, ArgPtr (Some cond)] w
              else Inr w) (\<lambda>w.
             Inr (w\<lparr>failed_count := failed_count w + (if pass then 0 else 1)\<rparr>)))) r =
    Some (Inr (w\<lparr>screen := con, failed_count := failed_count w + (if pass then 0 else 1)\<rparr>))
    \<and> reports pass (quiet \<and> verbose w = 0) lineno w con"
proof -
  obtain con where con: "r = Some (Inr (pass, w\<lparr>screen := con\<rparr>))" "reports pass quiet lineno w con" using assms(3) by blast
  have "\<exists>con2. say t result (''pass(%u): %s'' @ newline) [Arg32 lineno, ArgPtr (Some cond)] (w\<lparr>screen := con\<rparr>)
      = Inr (w\<lparr>screen := con, screen := con2\<rparr>)"
    using assms(1,2) by (intro report_returns [OF pass_text]) (simp_all add: plain_text_def text_ok_def wide_arg_def newline_def)
  then show ?thesis using con(2) unfolding con(1) by (cases pass; cases "verbose w = 0") (auto simp: reports_def)
qed

lemma add_test_result_verdict:
  assumes "text_ok cond" and "\<forall>con x. 0 \<le> result con x"
    and "str_flag flags \<Longrightarrow> \<not> near_flag flags \<and> string_ok m got \<and> string_ok m expect"
  shows "\<exists>con. add_test_result t result m lineno cond got expect expect2 flags w =
    Some (Inr (w\<lparr>screen := con,
      failed_count := failed_count w + (if passes m got expect expect2 flags then 0 else 1)\<rparr>))
    \<and> reports (passes m got expect expect2 flags)
        ((is_true_flag flags \<longrightarrow> got = 0 \<or> got = 1) \<and> verbose w = 0) lineno w con"
proof -
  define lo hi where "lo = (if near_flag flags then ucast (ucast expect - ucast expect2 :: u32) else expect)"
    and "hi = (if near_flag flags then ucast (ucast expect + ucast expect2 :: u32) else expect2)"
  define g where "g = (if near_flag flags then flags\<lparr>range_flag := True\<rparr> else flags)"
  have g: "str_flag g = str_flag flags" "memcmp_flag g = memcmp_flag flags" "memchk_flag g = memchk_flag flags"
      "is_true_flag g = is_true_flag flags" "range_flag g = (near_flag flags \<or> range_flag flags)"
      "invert_flag g = invert_flag flags" "in_window g got lo hi = in_window flags got lo hi"
      "\<not> range_flag g \<Longrightarrow> int_check got lo g = int_check got lo flags"
    by (simp_all add: g_def in_window_def split: if_splits)
  have triple: "(if near_flag flags
      then let value = ucast expect :: u32; tolerance = ucast expect2 :: u32
        in (ucast (value - tolerance), ucast (value + tolerance), flags\<lparr>range_flag := True\<rparr>)
      else (expect, expect2, flags)) = (lo, hi, g)"
    by (simp add: lo_def hi_def g_def Let_def)
  have range: "\<exists>con. bind_res (test_int t result lineno cond got lo (g\<lparr>lt_flag := True, invert_flag := \<not> invert_flag g\<rparr>) w)
      (\<lambda>(pass, w). bind_res (test_int t result lineno cond got hi
          (g\<lparr>lt_flag := True, invert_flag := \<not> invert_flag g, lt_flag := False, gt_flag := True\<rparr>) w)
        (\<lambda>(pass2, w). Inr (pass \<and> pass2, w))) = Inr (in_window flags got lo hi, w\<lparr>screen := con\<rparr>)
      \<and> reports (in_window flags got lo hi) True lineno w con"
  proof -
    obtain con where 1: "test_int t result lineno cond got lo (g\<lparr>lt_flag := True, invert_flag := \<not> invert_flag g\<rparr>) w =
        Inr (int_check got lo (g\<lparr>lt_flag := True, invert_flag := \<not> invert_flag g\<rparr>), w\<lparr>screen := con\<rparr>)"
        and r1: "reports (int_check got lo (g\<lparr>lt_flag := True, invert_flag := \<not> invert_flag g\<rparr>)) True lineno w con"
      using test_int_verdict [OF assms(1,2)] by blast
    obtain con2 where 2: "test_int t result lineno cond got hi
        (g\<lparr>lt_flag := True, invert_flag := \<not> invert_flag g, lt_flag := False, gt_flag := True\<rparr>) (w\<lparr>screen := con\<rparr>) =
        Inr (int_check got hi (g\<lparr>lt_flag := True, invert_flag := \<not> invert_flag g, lt_flag := False, gt_flag := True\<rparr>),
          w\<lparr>screen := con, screen := con2\<rparr>)"
        and r2: "reports (int_check got hi (g\<lparr>lt_flag := True, invert_flag := \<not> invert_flag g, lt_flag := False, gt_flag := True\<rparr>))
          True lineno (w\<lparr>screen := con\<rparr>) con2"
      using test_int_verdict [OF assms(1,2)] by blast
    have "reports (in_window flags got lo hi) True lineno w con2"
      using reports_both [OF r1 r2] in_window_checks [of got lo g hi] g(7) by simp
    then show ?thesis using in_window_checks [of got lo g hi] g(7) 1 2 by auto
  qed
  have "\<exists>con. (if str_flag g then test_string t result m lineno cond got lo hi g w
      else if memcmp_flag g then Some (test_memcmp t result m lineno cond got lo hi g w)
      else if memchk_flag g then Some (test_memchk t result m lineno cond got (ucast lo) hi g w)
      else if is_true_flag g then Some (test_bool t result lineno cond got g w)
      else if range_flag g then
        (let flags = g\<lparr>lt_flag := True, invert_flag := \<not> invert_flag g\<rparr> in
         Some (bind_res (test_int t result lineno cond got lo flags w) (\<lambda>(pass, w).
           let flags = flags\<lparr>lt_flag := False, gt_flag := True\<rparr> in
           bind_res (test_int t result lineno cond got hi flags w) (\<lambda>(pass2, w).
             Inr (pass \<and> pass2, w)))))
      else Some (test_int t result lineno cond got lo g w)) =
    Some (Inr (passes m got expect expect2 flags, w\<lparr>screen := con\<rparr>))
    \<and> reports (passes m got expect expect2 flags) (is_true_flag flags \<longrightarrow> got = 0 \<or> got = 1) lineno w con"
    (is "\<exists>con. ?inner = _ \<and> _")
  proof -
    have passes: "passes m got expect expect2 flags =
       (if str_flag flags then same_string m got lo hi \<noteq> invert_flag flags
        else if memcmp_flag flags then (\<forall>j < hi. m (got + j) = m (lo + j)) \<noteq> invert_flag flags
        else if memchk_flag flags then (\<forall>j < hi. m (got + j) = ucast lo) \<noteq> invert_flag flags
        else if is_true_flag flags then got \<noteq> of_bool (invert_flag flags)
        else if near_flag flags \<or> range_flag flags then in_window flags got lo hi
        else int_check got lo flags)"
      by (simp add: passes_def lo_def hi_def Let_def)
    consider "str_flag flags" | "\<not> str_flag flags" "memcmp_flag flags"
      | "\<not> str_flag flags" "\<not> memcmp_flag flags" "memchk_flag flags"
      | "\<not> str_flag flags" "\<not> memcmp_flag flags" "\<not> memchk_flag flags" "is_true_flag flags"
      | "\<not> str_flag flags" "\<not> memcmp_flag flags" "\<not> memchk_flag flags" "\<not> is_true_flag flags" "range_flag g"
      | "\<not> str_flag flags" "\<not> memcmp_flag flags" "\<not> memchk_flag flags" "\<not> is_true_flag flags" "\<not> range_flag g"
      by blast
    then show ?thesis
    proof cases
      case 1
      then have "lo = expect" using assms(3) by (simp add: lo_def)
      then show ?thesis
        using 1 test_string_verdict [OF assms(1,2), of m got expect t lineno hi g w] assms(3) g
        unfolding passes by - (rule reports_weaken, simp)
    next
      case 2
      then show ?thesis using test_memcmp_verdict [OF assms(1,2), of t m lineno got lo hi g w] g unfolding passes by - (rule reports_weaken, simp)
    next
      case 3
      then show ?thesis using test_memchk_verdict [OF assms(1,2), of t m lineno got "ucast lo" hi g w] g unfolding passes
        by - (rule reports_weaken, simp)
    next
      case 4
      then show ?thesis using test_bool_verdict [OF assms(1,2), of t lineno got g w] g unfolding passes by simp
    next
      case 5
      then show ?thesis using range g unfolding passes by - (rule reports_weaken, simp)
    next
      case 6
      then show ?thesis using test_int_verdict [OF assms(1,2), of t lineno got lo g w] g unfolding passes by - (rule reports_weaken, simp)
    qed
  qed
  from count_result [OF assms(1,2) this] show ?thesis
    unfolding add_test_result_def triple by (simp only: Let_def prod.case)
qed

end
