(* ===== verification/Test_Runner.thy ===== *)
theory Test_Runner
  imports Test_Verdicts
begin

text \<open>
  The runner of the tests: its exit status tells whether every check of every test holds.
\<close>

section \<open>What the macros decide\<close>

text \<open>
  The relation that \<open>test/test_common.h\<close> gives for a macro: between the value and what is expected, with the
  maximum, the tolerance or the length as a third one.
\<close>

fun relation :: "mem \<Rightarrow> test_macro \<Rightarrow> u64 \<Rightarrow> u64 \<Rightarrow> u64 \<Rightarrow> bool" where
  "relation m TEST_EQ got x y \<longleftrightarrow> got = x"
| "relation m TEST_NEQ got x y \<longleftrightarrow> got \<noteq> x"
| "relation m TEST_INT_EQ got x y \<longleftrightarrow> got = x"
| "relation m TEST_INT_NEQ got x y \<longleftrightarrow> got \<noteq> x"
| "relation m TEST_LT got x y \<longleftrightarrow> got < x"
| "relation m TEST_GT got x y \<longleftrightarrow> got > x"
| "relation m TEST_INT_LT got x y \<longleftrightarrow> sint got < sint x"
| "relation m TEST_INT_GT got x y \<longleftrightarrow> sint got > sint x"
| "relation m TEST_LE got x y \<longleftrightarrow> got \<le> x"
| "relation m TEST_GE got x y \<longleftrightarrow> got \<ge> x"
| "relation m TEST_INT_LE got x y \<longleftrightarrow> sint got \<le> sint x"
| "relation m TEST_INT_GE got x y \<longleftrightarrow> sint got \<ge> sint x"
| "relation m TEST_IN_RANGE got x y \<longleftrightarrow> x \<le> got \<and> got \<le> y"
| "relation m TEST_INT_IN_RANGE got x y \<longleftrightarrow> sint x \<le> sint got \<and> sint got \<le> sint y"
| "relation m TEST_NEAR got x y \<longleftrightarrow> \<bar>uint got - uint x\<bar> \<le> uint y"
| "relation m TEST_INT_NEAR got x y \<longleftrightarrow> \<bar>sint got - sint x\<bar> \<le> sint y"
| "relation m TEST_PTR_EQ got x y \<longleftrightarrow> got = x"
| "relation m TEST_PTR_NEQ got x y \<longleftrightarrow> got \<noteq> x"
| "relation m TEST_TRUE got x y \<longleftrightarrow> got \<noteq> 0"
| "relation m TEST_FALSE got x y \<longleftrightarrow> got = 0"
| "relation m TEST_STR_EQ got x y \<longleftrightarrow> same_string m got x y"
| "relation m TEST_MEMCMP got x y \<longleftrightarrow> (\<forall>j < y. m (got + j) = m (x + j))"
| "relation m TEST_MEMCHK got x y \<longleftrightarrow> (\<forall>j < y. m (got + j) = ucast x)"

text \<open>
  The uses for which the code decides that relation: the booleans given to \<open>TEST_FALSE\<close> are 0 or 1, a window
  lies inside 32 bits and does not begin below zero, and the strings are not null pointers.
\<close>

fun proper_use :: "test_macro \<Rightarrow> u64 \<Rightarrow> u64 \<Rightarrow> u64 \<Rightarrow> bool" where
  "proper_use TEST_FALSE got x y \<longleftrightarrow> got = 0 \<or> got = 1"
| "proper_use TEST_NEAR got x y \<longleftrightarrow> uint y \<le> uint x \<and> uint x + uint y < 2 ^ 32"
| "proper_use TEST_INT_NEAR got x y \<longleftrightarrow> 0 \<le> sint y \<and> sint y \<le> sint x \<and> sint x + sint y < 2 ^ 32"
| "proper_use TEST_STR_EQ got x y \<longleftrightarrow> got \<noteq> 0 \<and> x \<noteq> 0"
| "proper_use _ got x y \<longleftrightarrow> True"

lemma widened_uint: "uint (ucast v :: u64) = uint v" "sint (ucast v :: u64) = uint v" for v :: u32
proof -
  have u: "unat (ucast v :: u64) = unat v" by (simp add: unat_ucast_up del: unsigned_ucast_eq)
  then show "uint (ucast v :: u64) = uint v" by (simp only: uint_nat)
  have "unat (ucast v :: u64) < 2 ^ (LENGTH(64) - 1)" using unat_less_exp [of v] u by simp
  from sint_small [OF this] show "sint (ucast v :: u64) = uint v" unfolding u by (simp only: uint_nat)
qed

text \<open>The ends of a window, computed in 32 bits.\<close>

lemma window_ends:
  fixes x y :: u64
  assumes "uint y \<le> uint x" and "uint x + uint y < 2 ^ 32"
  shows "uint (ucast x - ucast y :: u32) = uint x - uint y" and "uint (ucast x + ucast y :: u32) = uint x + uint y"
proof -
  have "0 \<le> uint y" by simp
  then have "uint x < 2 ^ 32" "uint y < 2 ^ 32" using assms by linarith+
  then have c: "uint (ucast x :: u32) = uint x" "uint (ucast y :: u32) = uint y"
    by (simp_all add: unsigned_ucast_eq take_bit_int_eq_self)
  show "uint (ucast x - ucast y :: u32) = uint x - uint y" using assms(1) c by (simp add: uint_sub_if' del: unsigned_ucast_eq)
  show "uint (ucast x + ucast y :: u32) = uint x + uint y" using assms(2) c by (simp add: uint_plus_if' del: unsigned_ucast_eq)
qed

lemma sint_nonneg_uint: "0 \<le> sint v \<Longrightarrow> sint v = uint v" for v :: u64
  using unat_nonneg [of v] by (simp add: uint_nat del: nat_uint_eq) 

lemma passes_relation:
  assumes "proper_use c got x y"
  shows "passes m got x y (macro_flags c) \<longleftrightarrow> relation m c got x y"
proof (cases c)
  case TEST_NEAR
  note w = window_ends [of y x]
  show ?thesis using TEST_NEAR assms w
    by (auto simp: passes_def in_window_def no_test_flags_def word_le_def widened_uint del: unsigned_ucast_eq)
next
  case TEST_INT_NEAR
  then have n: "sint x = uint x" "sint y = uint y" using assms by (auto intro: sint_nonneg_uint)
  show ?thesis using TEST_INT_NEAR assms window_ends [of y x] n
    by (auto simp: passes_def in_window_def no_test_flags_def widened_uint)
qed (use assms in \<open>auto simp: passes_def in_window_def int_check_def no_test_flags_def\<close>)

text \<open>A check of a test: line, condition text, macro and values.\<close>

type_synonym check_call = "u32 \<times> byte list \<times> test_macro \<times> u64 \<times> u64 \<times> u64"

definition call_ok :: "mem \<Rightarrow> check_call \<Rightarrow> bool" where
  "call_ok m = (\<lambda>(_, cond, c, got, x, y). text_ok cond \<and> proper_use c got x y \<and> (c = TEST_STR_EQ \<longrightarrow> string_ok m got \<and> string_ok m x))"

definition call_passes :: "mem \<Rightarrow> check_call \<Rightarrow> bool" where
  "call_passes m = (\<lambda>(_, _, c, got, x, y). relation m c got x y)"

lemma check_verdict:
  assumes "text_ok cond" and "\<forall>con x. 0 \<le> result con x" and "proper_use c got expect expect2"
    and "c = TEST_STR_EQ \<Longrightarrow> string_ok m got \<and> string_ok m expect"
  shows "\<exists>con. add_test_result t result m lineno cond got expect expect2 (macro_flags c) w =
    Some (Inr (w\<lparr>screen := con,
      failed_count := failed_count w + (if relation m c got expect expect2 then 0 else 1)\<rparr>))
    \<and> reports (relation m c got expect expect2)
        ((is_true_flag (macro_flags c) \<longrightarrow> got = 0 \<or> got = 1) \<and> verbose w = 0) lineno w con"
proof -
  have flags: "str_flag (macro_flags c) \<Longrightarrow> \<not> near_flag (macro_flags c) \<and> c = TEST_STR_EQ"
    by (cases c) (simp_all add: no_test_flags_def)
  show ?thesis
    by (rule add_test_result_verdict [OF assms(1,2), of "macro_flags c" m got expect t lineno expect2 w,
          unfolded passes_relation [OF assms(3)]])
      (use flags assms(4) in blast)
qed

text \<open>
  C39. Every check, in the uses named by \<open>proper_use\<close>, counts one failure exactly when the relation that
  \<open>test_common.h\<close> gives for its macro does not hold, and returns.  A check that fails prints a report, which
  begins with \<open>FAIL\<close> and the line; one that passes prints nothing, but in verbose mode and for booleans that
  are neither 0 nor 1.
\<close>

theorem check_counts_failure:
  assumes "text_ok cond" and "\<forall>con x. 0 \<le> result con x" and "proper_use c got expect expect2"
    and "c = TEST_STR_EQ \<Longrightarrow> string_ok m got \<and> string_ok m expect"
  shows "\<exists>con. add_test_result t result m lineno cond got expect expect2 (macro_flags c) w =
    Some (Inr (w\<lparr>screen := con,
      failed_count := failed_count w + (if relation m c got expect expect2 then 0 else 1)\<rparr>))
    \<and> (if relation m c got expect expect2
        then (verbose w = 0 \<and> (c = TEST_TRUE \<longrightarrow> got = 0 \<or> got = 1) \<longrightarrow> con = screen w)
        else \<exists>rest. concat con = concat (screen w) @ fail_report lineno @ rest)"
proof -
  have "is_true_flag (macro_flags c) \<longleftrightarrow> c = TEST_TRUE \<or> c = TEST_FALSE" by (cases c) (simp_all add: no_test_flags_def)
  then have "is_true_flag (macro_flags c) \<Longrightarrow> c \<noteq> TEST_TRUE \<Longrightarrow> got = 0 \<or> got = 1" using assms(3) by auto
  then show ?thesis using check_verdict [OF assms, of t lineno w] unfolding reports_def failed_at_def by meson
qed

lemma check_counts_failure_witness:
  "\<exists>con. add_test_result x86_64_target (\<lambda>_ x. int (length x)) (\<lambda>_. 0) 7 [65, 0] 3 4 0 (macro_flags TEST_EQ)
      \<lparr>failed_count = 0, last_fail = 0, verbose = 0, screen = []\<rparr>
    = Some (Inr \<lparr>failed_count = 1, last_fail = 0, verbose = 0, screen = con\<rparr>)
    \<and> take 7 (concat con) = map of_char ''FAIL(7)''"
proof -
  have r: "fail_report 7 = map of_char ''FAIL(7)''" by code_simp
  obtain con rest where "add_test_result x86_64_target (\<lambda>_ x. int (length x)) (\<lambda>_. 0) 7 [65, 0] 3 4 0 (macro_flags TEST_EQ)
      \<lparr>failed_count = 0, last_fail = 0, verbose = 0, screen = []\<rparr>
    = Some (Inr \<lparr>failed_count = 1, last_fail = 0, verbose = 0, screen = con\<rparr>)" "concat con = fail_report 7 @ rest"
    using check_counts_failure [of "[65, 0]" "\<lambda>_ x. int (length x)" TEST_EQ 3 4 0 "\<lambda>_. 0" x86_64_target 7
        "\<lparr>failed_count = 0, last_fail = 0, verbose = 0, screen = []\<rparr>"]
    by (auto simp: text_ok_def)
  then show ?thesis by (intro exI [of _ con]) (simp add: r)
qed

text \<open>
  Outside of these uses the code departs from the header: \<open>TEST_FALSE\<close> passes for values above 1, and the
  window of \<open>TEST_INT_NEAR\<close> is widened without its sign, so that no negative value is near another, not
  even itself.
\<close>

lemma test_false_accepts_ten:
  "passes m 10 x y (macro_flags TEST_FALSE) \<and> \<not> relation m TEST_FALSE 10 x y"
  by (simp add: passes_def no_test_flags_def)

lemma int_near_never_negative:
  "sint got < 0 \<Longrightarrow> \<not> passes m got got 0 (macro_flags TEST_INT_NEAR) \<and> relation m TEST_INT_NEAR got got 0"
  using uint_bounded [of "ucast got :: u32"]
  by (auto simp: passes_def in_window_def no_test_flags_def widened_uint simp del: unsigned_ucast_eq)

section \<open>Tests made of checks\<close>

fun run_checks ::
  "target \<Rightarrow> (console \<Rightarrow> byte list \<Rightarrow> int) \<Rightarrow> mem \<Rightarrow> check_call list \<Rightarrow> test_world \<Rightarrow> test_world res option" where
  "run_checks t result m [] w = Some (Inr w)"
| "run_checks t result m ((lineno, cond, c, got, x, y) # cs) w = do {
     r \<leftarrow> add_test_result t result m lineno cond got x y (macro_flags c) w;
     case r of Inl e \<Rightarrow> Some (Inl e) | Inr w \<Rightarrow> run_checks t result m cs w
   }"

text \<open>The handler of a test: its checks, then \<open>return is_test_succeed();\<close>.\<close>

definition test_handler :: "target \<Rightarrow> (console \<Rightarrow> byte list \<Rightarrow> int) \<Rightarrow> mem \<Rightarrow> check_call list \<Rightarrow> handler" where
  "test_handler t result m cs w =
     map_option (\<lambda>r. bind_res r (\<lambda>w. Inr (is_test_succeed w))) (run_checks t result m cs w)"

definition failures :: "mem \<Rightarrow> check_call list \<Rightarrow> nat" where
  "failures m cs = length (filter (\<lambda>c. \<not> call_passes m c) cs)"

lemma run_checks_failures:
  assumes "\<forall>con x. 0 \<le> result con x"
  shows "list_all (call_ok m) cs \<Longrightarrow> \<exists>con. run_checks t result m cs w =
    Some (Inr (w\<lparr>screen := con, failed_count := failed_count w + of_nat (failures m cs)\<rparr>))"
proof (induction cs arbitrary: w)
  case Nil
  show ?case by (auto simp: failures_def intro: exI [of _ "screen w"])
next
  case (Cons call cs)
  obtain lineno cond c got x y where call: "call = (lineno, cond, c, got, x, y)" by (cases call)
  have ok: "text_ok cond" "proper_use c got x y" "c = TEST_STR_EQ \<Longrightarrow> string_ok m got \<and> string_ok m x"
      "list_all (call_ok m) cs"
    using Cons.prems by (auto simp: call call_ok_def)
  obtain con where 1: "add_test_result t result m lineno cond got x y (macro_flags c) w =
      Some (Inr (w\<lparr>screen := con, failed_count := failed_count w + (if relation m c got x y then 0 else 1)\<rparr>))"
    using check_verdict [OF ok(1) assms ok(2,3)] by blast
  obtain con2 where "run_checks t result m cs
      (w\<lparr>screen := con, failed_count := failed_count w + (if relation m c got x y then 0 else 1)\<rparr>) =
    Some (Inr (w\<lparr>screen := con2,
      failed_count := failed_count w + (if relation m c got x y then 0 else 1) + of_nat (failures m cs)\<rparr>))"
    using Cons.IH [OF ok(4), of "w\<lparr>screen := con, failed_count := failed_count w + (if relation m c got x y then 0 else 1)\<rparr>"]
    by auto
  then show ?case by (auto simp: call 1 failures_def call_passes_def add.assoc)
qed

lemma failures_zero: "failures m cs = 0 \<longleftrightarrow> list_all (call_passes m) cs"
  by (auto simp: failures_def list_all_iff filter_empty_conv)

lemma failures_le: "failures m cs \<le> length cs"
  by (simp add: failures_def)

text \<open>A test adds its failures to the counter, and reports success when the counter did not change.\<close>

lemma test_handler_result:
  assumes "\<forall>con x. 0 \<le> result con x" and "list_all (call_ok m) cs"
  shows "\<exists>con. test_handler t result m cs w = Some (Inr (last_fail w = failed_count w + of_nat (failures m cs),
    w\<lparr>screen := con, failed_count := failed_count w + of_nat (failures m cs),
      last_fail := failed_count w + of_nat (failures m cs)\<rparr>))"
  using run_checks_failures [OF assms, of t w] by (auto simp: test_handler_def is_test_succeed_def Let_def)

section \<open>The exit status\<close>

abbreviation "conv_lu \<equiv> Conv [] Absent None Mod_l Uns"

lemma test_text:
  "literal (newline @ ''~~~~~~~~~~~~~'' @ newline @ ''Test \"%s\"'' @ newline) =
    format_text (plain_text (newline @ ''~~~~~~~~~~~~~'' @ newline @ ''Test \"'') @ [conv_s] @
      plain_text (''\"'' @ newline))"
  by code_simp

lemma completed_text:
  "literal (''completed in %lu ns'' @ newline) =
    format_text (plain_text ''completed in '' @ [conv_lu] @ plain_text ('' ns'' @ newline))"
  by code_simp

lemma starting_text:
  "literal (''Starting %s, total program args=%d'' @ newline) =
    format_text (plain_text ''Starting '' @ [conv_s] @ plain_text '', total program args='' @ [conv_d] @
      plain_text newline)"
  by code_simp

lemma failures_text:
  "literal (''%u TESTS FAILURES IN %u TESTS'' @ newline) =
    format_text ([conv_u] @ plain_text '' TESTS FAILURES IN '' @ [conv_u] @
      plain_text ('' TESTS'' @ newline))"
  by code_simp

lemma all_passed_text:
  "literal (''ALL %u TESTS PASSED'' @ newline) =
    format_text (plain_text ''ALL '' @ [conv_u] @ plain_text ('' TESTS PASSED'' @ newline))"
  by code_simp

lemma bench_text:
  "literal (''%s completed in %lu ns, %lu cycles'' @ newline) =
    format_text ([conv_s] @ plain_text '' completed in '' @ [conv_lu] @ plain_text '' ns, '' @ [conv_lu] @
      plain_text ('' cycles'' @ newline))"
  by code_simp

text \<open>A test: its name and its checks.  The same for a benchmark.\<close>

definition test_ok :: "mem \<Rightarrow> byte list \<times> check_call list \<Rightarrow> bool" where
  "test_ok m = (\<lambda>(name, cs). text_ok name \<and> list_all (call_ok m) cs)"

definition test_passes :: "mem \<Rightarrow> byte list \<times> check_call list \<Rightarrow> bool" where
  "test_passes m = (\<lambda>(name, cs). list_all (call_passes m) cs)"

definition all_checks :: "(byte list \<times> check_call list) list \<Rightarrow> check_call list" where
  "all_checks tests = concat (map snd tests)"

abbreviation handlers where
  "handlers t result m \<equiv> map (\<lambda>(name, cs). (name, test_handler t result m cs))"

lemma all_checks_pass: "list_all (call_passes m) (all_checks tests) \<longleftrightarrow> list_all (test_passes m) tests"
  by (induction tests) (auto simp: all_checks_def test_passes_def)

lemma failures_append: "failures m (xs @ ys) = failures m xs + failures m ys"
  by (simp add: failures_def)

lemma small_count: "int n < 2 ^ 32 \<Longrightarrow> (of_nat n :: u32) = 0 \<longleftrightarrow> n = 0"
  using unat_of_nat_eq [of n, where 'a = 32] by (auto simp flip: unat_eq_zero)

text \<open>The tests up to the first one that fails.\<close>

lemma run_tests_result:
  assumes "\<forall>con x. 0 \<le> result con x"
  shows "list_all (test_ok m) tests \<Longrightarrow> int (length (all_checks tests)) < 2 ^ 32 \<Longrightarrow> failed_count w = 0 \<Longrightarrow> last_fail w = 0 \<Longrightarrow>
    \<exists>count k' w' n. run_tests t result clock (handlers t result m tests) k i w = Some (Inr (count, k', w'))
      \<and> failed_count w' = of_nat n \<and> n \<le> length (all_checks tests) \<and> (n = 0 \<longleftrightarrow> list_all (test_passes m) tests)"
proof (induction tests arbitrary: k i w)
  case (Cons test tests)
  obtain name cs where test: "test = (name, cs)" by (cases test)
  have ok: "text_ok name" "list_all (call_ok m) cs" "list_all (test_ok m) tests"
    using Cons.prems(1) by (auto simp: test test_ok_def)
  have len: "all_checks (test # tests) = cs @ all_checks tests" by (simp add: all_checks_def test)
  obtain con where say1: "say t result (newline @ ''~~~~~~~~~~~~~'' @ newline @ ''Test \"%s\"'' @ newline)
      [ArgPtr (Some name)] w = Inr (w\<lparr>screen := con\<rparr>)"
    using report_returns [OF test_text, of "[ArgPtr (Some name)]" result t w] assms ok(1)
    by (auto simp: plain_text_def text_ok_def newline_def)
  define n where "n = failures m cs"
  have nz: "n \<le> length cs" "n = 0 \<longleftrightarrow> list_all (call_passes m) cs"
    by (simp_all only: n_def failures_le failures_zero)
  have z: "(of_nat n :: u32) = 0 \<longleftrightarrow> n = 0" using nz(1) Cons.prems(2) len by (intro small_count) simp
  obtain con1 where h: "test_handler t result m cs (w\<lparr>screen := con\<rparr>) =
      Some (Inr (n = 0, w\<lparr>screen := con1, failed_count := of_nat n, last_fail := of_nat n\<rparr>))"
    using test_handler_result [OF assms ok(2), of t "w\<lparr>screen := con\<rparr>"] Cons.prems(3,4) z
    by (auto simp: n_def)
  let ?w1 = "w\<lparr>screen := con1, failed_count := of_nat n, last_fail := of_nat n\<rparr>"
  obtain con2 where say2: "say t result (''completed in %lu ns'' @ newline) [Arg64 (clock (k + 1) - clock k)] ?w1 =
      Inr (?w1\<lparr>screen := con2\<rparr>)"
    using report_returns [OF completed_text, of "[Arg64 (clock (k + 1) - clock k)]" result t ?w1] assms
    by (auto simp: plain_text_def wide_arg_def newline_def)
  have step: "run_tests t result clock ((name, test_handler t result m cs) # rest) k i w =
      (if \<not> n = 0 then Some (Inr (i + 1, k + 2, ?w1\<lparr>screen := con2\<rparr>))
       else run_tests t result clock rest (k + 2) (i + 1) (?w1\<lparr>screen := con2\<rparr>))" for rest
    by (simp only: run_tests.simps say1 h say2 sum.case prod.case Option.bind.simps)
  show ?case
  proof (cases "n = 0")
    case True
    then have "list_all (test_passes m) (test # tests) \<longleftrightarrow> list_all (test_passes m) tests"
      using nz(2) by (simp add: test test_passes_def)
    moreover have "int (length (all_checks tests)) < 2 ^ 32" using Cons.prems(2) len by simp
    moreover from this obtain count k' w' n' where "run_tests t result clock (handlers t result m tests) (k + 2) (i + 1)
          (?w1\<lparr>screen := con2\<rparr>) = Some (Inr (count, k', w'))"
        "failed_count w' = of_nat n'" "n' \<le> length (all_checks tests)" "n' = 0 \<longleftrightarrow> list_all (test_passes m) tests"
      using Cons.IH [OF ok(3), of "?w1\<lparr>screen := con2\<rparr>" "k + 2" "i + 1"] True by auto
    moreover from this(3) have "n' \<le> length (all_checks (test # tests))" using len by simp
    moreover have "run_tests t result clock (handlers t result m (test # tests)) k i w =
        run_tests t result clock (handlers t result m tests) (k + 2) (i + 1) (?w1\<lparr>screen := con2\<rparr>)"
      using True by (simp add: test step del: run_tests.simps)
    ultimately show ?thesis
      by (intro exI [of _ count] exI [of _ k'] exI [of _ w'] exI [of _ n']) (simp only: simp_thms)
  next
    case False
    then show ?thesis using nz len by (auto simp: test step test_passes_def simp del: run_tests.simps)
  qed
qed (auto simp: all_checks_def)

text \<open>All the benchmarks.\<close>

lemma run_benches_result:
  assumes "\<forall>con x. 0 \<le> result con x"
  shows "list_all (test_ok m) benches \<Longrightarrow>
    \<exists>w'. run_benches t result clock cycles (handlers t result m benches) k j w = Some (Inr w')
      \<and> failed_count w' = failed_count w + of_nat (failures m (all_checks benches))"
proof (induction benches arbitrary: k j w)
  case (Cons bench benches)
  obtain name cs where bench: "bench = (name, cs)" by (cases bench)
  have ok: "text_ok name" "list_all (call_ok m) cs" "list_all (test_ok m) benches"
    using Cons.prems by (auto simp: bench test_ok_def)
  obtain pass con where h: "test_handler t result m cs w = Some (Inr (pass,
      w\<lparr>screen := con, failed_count := failed_count w + of_nat (failures m cs),
        last_fail := failed_count w + of_nat (failures m cs)\<rparr>))"
    using test_handler_result [OF assms ok(2), of t w] by blast
  let ?w1 = "w\<lparr>screen := con, failed_count := failed_count w + of_nat (failures m cs),
        last_fail := failed_count w + of_nat (failures m cs)\<rparr>"
  have "\<exists>con. say t result (''%s completed in %lu ns, %lu cycles'' @ newline)
      [ArgPtr (Some name), Arg64 (clock (k + 1) - clock k), Arg64 (cycles (j + 1) - cycles j)] ?w1 = Inr (?w1\<lparr>screen := con\<rparr>)"
    using assms ok(1) by (intro say_returns [OF bench_text]) (simp_all add: plain_text_def text_ok_def wide_arg_def newline_def)
  then obtain con2 where say: "say t result (''%s completed in %lu ns, %lu cycles'' @ newline)
      [ArgPtr (Some name), Arg64 (clock (k + 1) - clock k), Arg64 (cycles (j + 1) - cycles j)] ?w1 = Inr (?w1\<lparr>screen := con2\<rparr>)"
    by blast
  have step: "run_benches t result clock cycles ((name, test_handler t result m cs) # rest) k j w =
      run_benches t result clock cycles rest (k + 2) (j + 2) (?w1\<lparr>screen := con2\<rparr>)" for rest
    by (simp only: run_benches.simps h say sum.case prod.case Option.bind.simps)
  have all: "failures m (all_checks (bench # benches)) = failures m cs + failures m (all_checks benches)"
    by (simp add: all_checks_def bench failures_append)
  show ?case
    using Cons.IH [OF ok(3), of "k + 2" "j + 2" "?w1\<lparr>screen := con2\<rparr>"] unfolding all
    by (auto simp: bench step add.assoc simp del: run_benches.simps)
qed (simp add: all_checks_def failures_def)

text \<open>The options: the comparison with \<open>-v\<close> reads at most two bytes of each argument.\<close>

lemma strncmp_two:
  assumes "unat a + 2 < 2 ^ 64"
  shows "\<exists>r. strncmp m a b 2 = Some r"
proof -
  have "unat (a + 1) = unat a + 1" "unat (a + 2) = unat a + 2"
    using assms by (simp_all add: unat_add_fits)
  then have "a + 1 < a + 2" "\<not> a + 1 + 1 < a + 2" by (simp_all add: word_less_nat_alt add.assoc)
  then have "\<exists>c1 c2. strncmp_loop m a b (a + 2) = Some (c1, c2)"
    unfolding strncmp_loop.simps [of m a b] strncmp_loop.simps [of m "a + 1" "b + 1"] Let_def by simp
  moreover have "MIN_size 2 (PLATFORM_MAX_ADDR - a) = 2" using assms by (intro clipped_fits) simp
  ultimately show ?thesis by (auto simp: strncmp_def)
qed

lemma read_options_result:
  "\<forall>a \<in> set args. unat a + 2 < 2 ^ 64 \<Longrightarrow> \<exists>v. read_options m dash_v args w = Some (w\<lparr>verbose := v\<rparr>)"
proof (induction args arbitrary: w)
  case Nil
  show ?case by (auto intro: exI [of _ "verbose w"])
next
  case (Cons a args)
  obtain r where "strncmp m a dash_v 2 = Some r" using strncmp_two [of a m dash_v] Cons.prems by auto
  then show ?case using Cons.IH [of "if r = 0 then w\<lparr>verbose := 1\<rparr> else w"] Cons.prems by (auto split: if_splits)
qed

lemma say_ends:
  assumes "\<forall>con x. 0 \<le> result con x"
  shows "\<exists>con. (if failed_count w \<noteq> 0
      then say t result (''%u TESTS FAILURES IN %u TESTS'' @ newline) [Arg32 (failed_count w), Arg32 n] w
      else say t result (''ALL %u TESTS PASSED'' @ newline) [Arg32 n] w) = Inr (w\<lparr>screen := con\<rparr>)"
proof -
  have "\<exists>con. say t result (''%u TESTS FAILURES IN %u TESTS'' @ newline) [Arg32 (failed_count w), Arg32 n] w =
      Inr (w\<lparr>screen := con\<rparr>)"
    using assms by (intro say_returns [OF failures_text]) (simp_all add: plain_text_def wide_arg_def newline_def)
  moreover have "\<exists>con. say t result (''ALL %u TESTS PASSED'' @ newline) [Arg32 n] w = Inr (w\<lparr>screen := con\<rparr>)"
    using assms by (intro report_returns [OF all_passed_text]) (simp_all add: plain_text_def wide_arg_def newline_def)
  ultimately show ?thesis by (cases "failed_count w \<noteq> 0") simp_all
qed

lemma test_main_result:
  assumes "\<forall>con x. 0 \<le> result con x" and "string_ok m name" and "\<forall>a \<in> set args. unat a + 2 < 2 ^ 64"
    and "list_all (test_ok m) tests" and "list_all (test_ok m) benches"
    and "int (length (all_checks tests)) + int (length (all_checks benches)) < 2 ^ 32"
  shows "\<exists>w'. test_main t result m dash_v clock cycles (handlers t result m tests) (handlers t result m benches) (name # args) w =
    Some (Inr (if list_all (test_passes m) tests \<and> list_all (test_passes m) benches then 0 else 1, w'))"
proof -
  obtain a where a: "string_at t m name = Some a" "fits No_length String_arg a"
    using string_ok_fits [OF assms(2)] by blast
  define argc where "argc = (of_nat (length (name # args)) :: u32)"
  obtain con where say1: "say t result (''Starting %s, total program args=%d'' @ newline) [a, Arg32 argc] w =
      Inr (w\<lparr>screen := con\<rparr>)"
    using report_returns [OF starting_text, of "[a, Arg32 argc]" result t w] assms(1) a(2)
    by (auto simp: plain_text_def wide_arg_def newline_def)
  obtain v where opts: "read_options m dash_v args (init_test (w\<lparr>screen := con\<rparr>)) = Some (init_test (w\<lparr>screen := con\<rparr>)\<lparr>verbose := v\<rparr>)"
    using read_options_result [OF assms(3)] by blast
  let ?w = "init_test (w\<lparr>screen := con\<rparr>)\<lparr>verbose := v\<rparr>"
  have z: "failed_count ?w = 0" "last_fail ?w = 0" by (simp_all add: init_test_def)
  have "int (length (all_checks tests)) < 2 ^ 32" using assms(6) by linarith
  then obtain count k w1 n where run: "run_tests t result clock (handlers t result m tests) 0 0 ?w = Some (Inr (count, k, w1))"
      and n: "failed_count w1 = of_nat n" "n \<le> length (all_checks tests)" "n = 0 \<longleftrightarrow> list_all (test_passes m) tests"
    using run_tests_result [OF assms(1,4) _ z] by blast
  obtain con2 where say2: "(if failed_count w1 \<noteq> 0
      then say t result (''%u TESTS FAILURES IN %u TESTS'' @ newline) [Arg32 (failed_count w1), Arg32 count] w1
      else say t result (''ALL %u TESTS PASSED'' @ newline) [Arg32 count] w1) = Inr (w1\<lparr>screen := con2\<rparr>)"
    using say_ends [OF assms(1)] by blast
  obtain w2 where bench: "run_benches t result clock cycles (handlers t result m benches) k 0 (w1\<lparr>screen := con2\<rparr>) = Some (Inr w2)"
      "failed_count w2 = of_nat (n + failures m (all_checks benches))"
    using run_benches_result [OF assms(1,5), of t clock cycles k 0 "w1\<lparr>screen := con2\<rparr>"] n(1) by auto
  have "int (n + failures m (all_checks benches)) < 2 ^ 32"
    using n(2) failures_le [of m "all_checks benches"] assms(6) by linarith
  then have "failed_count w2 \<noteq> 0 \<longleftrightarrow> \<not> (list_all (test_passes m) tests \<and> list_all (test_passes m) benches)"
    unfolding bench(2) by (simp only: small_count add_is_0 n(3) failures_zero all_checks_pass)
  moreover have "test_main t result m dash_v clock cycles (handlers t result m tests) (handlers t result m benches) (name # args) w =
      Some (Inr (if failed_count w2 \<noteq> 0 then 1 else 0, w2))"
    by (simp only: test_main_def list.case list.sel a(1) argc_def [symmetric] say1 opts run say2 bench(1)
        sum.case prod.case Option.bind.simps bind_res_simps)
  ultimately show ?thesis by auto
qed

text \<open>
  C40. The program that runs the tests and benchmarks returns, for every command line, and exits with 0
  exactly when every check of every test and of every benchmark holds; what the checks mean is the
  relation of their macros, in the uses named by \<open>proper_use\<close>, and there are less than \<open>2 ^ 32\<close> of them.
\<close>

theorem test_main_reports:
  assumes "\<forall>con x. 0 \<le> result con x" and "string_ok m name" and "\<forall>a \<in> set args. unat a + 2 < 2 ^ 64"
    and "list_all (test_ok m) tests" and "list_all (test_ok m) benches"
    and "int (length (all_checks tests)) + int (length (all_checks benches)) < 2 ^ 32"
  shows "\<exists>w'. test_main t result m dash_v clock cycles (handlers t result m tests) (handlers t result m benches) (name # args) w =
    Some (Inr (if list_all (test_passes m) tests \<and> list_all (test_passes m) benches then 0 else 1, w'))"
  using assms by (rule test_main_result)

lemma test_main_reports_witness:
  "\<exists>w'. test_main x86_64_target (\<lambda>_ x. int (length x)) (\<lambda>_. 0) 0x40 (\<lambda>_. 0) (\<lambda>_. 0)
      (handlers x86_64_target (\<lambda>_ x. int (length x)) (\<lambda>_. 0) [([97, 0], [(1, [98, 0], TEST_INT_LT, - 1, 0, 0)])])
      (handlers x86_64_target (\<lambda>_ x. int (length x)) (\<lambda>_. 0) [([99, 0], [(2, [98, 0], TEST_LT, - 1, 0, 0)])]) [0x20, 0x30]
      \<lparr>failed_count = 9, last_fail = 9, verbose = 0, screen = []\<rparr>
    = Some (Inr (1, w'))"
proof -
  let ?tests = "[([97, 0], [(1, [98, 0], TEST_INT_LT, - 1, 0, 0)])] :: (byte list \<times> check_call list) list"
  let ?benches = "[([99, 0], [(2, [98, 0], TEST_LT, - 1, 0, 0)])] :: (byte list \<times> check_call list) list"
  have "string_ok (\<lambda>_. 0) 0x20" by (auto simp: string_ok_def intro: exI [of _ "0 :: nat"])
  moreover have "list_all (test_ok (\<lambda>_. 0)) ?tests" "list_all (test_ok (\<lambda>_. 0)) ?benches"
    by (simp_all add: test_ok_def call_ok_def text_ok_def)
  moreover have "\<not> list_all (test_passes (\<lambda>_. 0)) ?benches" by (simp add: test_passes_def call_passes_def)
  moreover have "int (length (all_checks ?tests)) + int (length (all_checks ?benches)) < 2 ^ 32" by (simp add: all_checks_def)
  ultimately show ?thesis
    using test_main_reports [of "\<lambda>_ x. int (length x)" "\<lambda>_. 0" "0x20" "[0x30]" ?tests ?benches x86_64_target "0x40" "\<lambda>_. 0" "\<lambda>_. 0"
        "\<lparr>failed_count = 9, last_fail = 9, verbose = 0, screen = []\<rparr>"] by (auto split: if_splits)
qed

end
