(* ===== verification/Test_Cases.thy ===== *)
theory Test_Cases
  imports Test_Runner "HOL-Library.Code_Target_Nat"
begin

text \<open>
  The expectations of \<open>test/test_snprintf.c\<close>, as data, hold of the model.  The case of an unsupported
  format is left out: it passes an \<open>int\<close> where the formatter reads 64 bits.
\<close>

section \<open>The cases\<close>

text \<open>
  A call with the size of its buffer, its format, the directives of the format, the arguments, the
  expected contents of the buffer and the expected result.
\<close>

type_synonym snprintf_case = "int \<times> string \<times> directive list \<times> vararg list \<times> string \<times> int"

definition test_snprintf :: "snprintf_case list" where
  "test_snprintf =
    [(256, ''%d'',
      [Conv [] Absent None No_length Dec],
      [Arg32 2], ''2'', 1),
     (256, ''%d'',
      [Conv [] Absent None No_length Dec],
      [Arg32 (- 2)], ''-2'', 2),
     (256, ''%d'',
      [Conv [] Absent None No_length Dec],
      [Arg32 (- 100)], ''-100'', 4),
     (256, ''%u'',
      [Conv [] Absent None No_length Uns],
      [Arg32 2], ''2'', 1),
     (256, ''%zu'',
      [Conv [] Absent None Mod_z Uns],
      [Arg64 3], ''3'', 1),
     (256, ''%+d'',
      [Conv [Plus] Absent None No_length Dec],
      [Arg32 2], ''+2'', 2),
     (256, ''1%s2'',
      plain_text ''1'' @ [Conv [] Absent None No_length String_arg] @ plain_text ''2'',
      [text_arg ''abc''], ''1abc2'', 5),
     (256, ''%d %u'',
      [Conv [] Absent None No_length Dec] @ plain_text '' '' @ [Conv [] Absent None No_length Uns],
      [Arg32 (- 100), Arg32 2], ''-100 2'', 6),
     (256, ''%03u'',
      [Conv [Zero] (Digits 3) None No_length Uns],
      [Arg32 2], ''002'', 3),
     (256, ''%3u'',
      [Conv [] (Digits 3) None No_length Uns],
      [Arg32 2], ''  2'', 3),
     (256, ''%c'',
      [Conv [] Absent None No_length Char_arg],
      [Arg32 65], ''A'', 1),
     (256, ''%hhd'',
      [Conv [] Absent None Mod_hh Dec],
      [Arg32 (- 127)], ''-127'', 4),
     (256, ''%hhd'',
      [Conv [] Absent None Mod_hh Dec],
      [Arg32 (- 128)], ''-128'', 4),
     (256, ''%x'',
      [Conv [] Absent None No_length Hex_low],
      [Arg32 17], ''11'', 2),
     (256, ''%08x'',
      [Conv [Zero] (Digits 8) None No_length Hex_low],
      [Arg32 65537], ''00010001'', 8),
     (256, ''%08o'',
      [Conv [Zero] (Digits 8) None No_length Octal],
      [Arg32 65521], ''000177761'', 9),
     (256, ''%.4d'',
      [Conv [] Absent (Some (Digits 4)) No_length Dec],
      [Arg32 5], ''0005'', 4),
     (256, ''%16lx'',
      [Conv [] (Digits 16) None Mod_l Hex_low],
      [Arg64 0xeeeedd0112345678], ''eeeedd0112345678'', 16),
     (9, ''%d'',
      [Conv [] Absent None No_length Dec],
      [Arg32 1234567890], ''12345678'', 10),
     (10, ''%d'',
      [Conv [] Absent None No_length Dec],
      [Arg32 1234567890], ''123456789'', 10),
     (256, ''%d'',
      [Conv [] Absent None No_length Dec],
      [Arg32 1234567890], ''1234567890'', 10),
     (256, ''%d %x %o %c %s'',
      [Conv [] Absent None No_length Dec] @ plain_text '' '' @ [Conv [] Absent None No_length Hex_low] @ plain_text '' '' @ [Conv [] Absent None No_length Octal] @ plain_text '' '' @ [Conv [] Absent None No_length Char_arg] @ plain_text '' '' @ [Conv [] Absent None No_length String_arg],
      [Arg32 1234567890, Arg32 1234567890, Arg32 1234567890, Arg32 65, text_arg ''Hello''], ''1234567890 499602d2 011145401322 A Hello'', 40),
     (256, ''%.3s'',
      [Conv [] Absent (Some (Digits 3)) No_length String_arg],
      [text_arg ''Hello''], ''Hel'', 3),
     (256, ''%5.3s'',
      [Conv [] (Digits 5) (Some (Digits 3)) No_length String_arg],
      [text_arg ''Hello''], ''  Hel'', 5)]"

text \<open>The meaning of the directives is what the test expects, cut to the size of the buffer.\<close>

definition case_ok :: "target \<Rightarrow> snprintf_case \<Rightarrow> bool" where
  "case_ok t = (\<lambda>(n, format, ds, args, expected, r).
     literal format = format_text ds \<and> list_all well_formed ds \<and> 0 < n \<and> n \<le> 256
     \<and> (case format_output t ds args of
          None \<Rightarrow> False
        | Some (out, _) \<Rightarrow> int (length out) = r \<and> r < 1000 \<and> int (length expected) = min r (n - 1)
            \<and> take (length expected) out = map of_char expected))"

lemma first_cases_ok: "list_all (case_ok x86_64_target) (take 12 test_snprintf)"
  by code_simp

lemma last_cases_ok: "list_all (case_ok x86_64_target) (drop 12 test_snprintf)"
  by code_simp

lemma cases_ok: "list_all (case_ok x86_64_target) test_snprintf"
  using first_cases_ok last_cases_ok append_take_drop_id [of 12 test_snprintf]
  by (metis list_all_append)

section \<open>The calls\<close>

lemma case_ok_snprintf:
  assumes "case_ok t (n, format, ds, args, expected, r)" and "unat s + nat n \<le> 2 ^ 64"
  shows "\<exists>m'. snprintf t m s (of_int n) (Some (literal format)) args = Inr (m', r)
    \<and> bytes_at m' s (Suc (length expected)) = literal expected"
proof -
  obtain out args' where o: "format_output t ds args = Some (out, args')" "int (length out) = r" "r < 1000"
      "int (length expected) = min r (n - 1)" "take (length expected) out = map of_char expected"
      and f: "literal format = format_text ds" "\<forall>d \<in> set ds. well_formed d" "0 < n" "n \<le> 256"
    using assms(1) by (auto simp: case_ok_def list_all_iff split: option.splits)
  have "unat (of_nat (nat n) :: u64) = nat n" using f(4) by (intro unat_of_nat_eq) simp
  then have n: "unat (of_int n :: u64) = nat n" "(of_int n :: u64) \<noteq> 0"
    using f(3) by (auto simp flip: of_nat_nat)
  have out: "formatted t (literal format) args = Inr (out, r)"
    using formatted_text [OF f(2) o(1)] o(2,3) f(1) by simp
  have l: "min (length out) (unat (of_int n :: u64) - 1) = length expected" using n(1) o(2,4) f(3) by linarith
  show ?thesis
    using snprintf_spec [OF n(2) _ out, of s m] assms(2) o(5) unfolding n(1) l [unfolded n(1)] literal_def by auto
qed

text \<open>
  Every case of \<open>test/test_snprintf.c\<close> holds of \<open>snprintf\<close>, whatever the address of the buffer and its
  contents: the call returns the expected number and leaves the expected string.
\<close>

theorem snprintf_passes_tests:
  assumes "(n, format, ds, args, expected, r) \<in> set test_snprintf" and "unat s + 256 \<le> 2 ^ 64"
  shows "\<exists>m'. snprintf x86_64_target m s (of_int n) (Some (literal format)) args = Inr (m', r)
    \<and> bytes_at m' s (Suc (length expected)) = literal expected"
proof -
  have c: "case_ok x86_64_target (n, format, ds, args, expected, r)"
    using cases_ok assms(1) by (auto simp: list_all_iff)
  moreover have "n \<le> 256" using c by (simp add: case_ok_def)
  ultimately show ?thesis using case_ok_snprintf [of x86_64_target n format ds args expected r s m] assms(2) by simp
qed

lemma snprintf_passes_tests_witness:
  "\<exists>m'. snprintf x86_64_target (\<lambda>_. 7) 0x1000 9 (Some (literal ''%d'')) [Arg32 1234567890] = Inr (m', 10)
    \<and> bytes_at m' 0x1000 9 = literal ''12345678''"
proof -
  have "(9, ''%d'', [Conv [] Absent None No_length Dec], [Arg32 1234567890], ''12345678'', 10) \<in> set test_snprintf"
    unfolding test_snprintf_def by (rule list.set_intros(1) | rule list.set_intros(2))+
  moreover have "unat (0x1000 :: addr) + 256 \<le> 2 ^ 64" by simp
  moreover have "Suc (length ''12345678'') = 9" "(of_int 9 :: u64) = 9" by simp_all
  ultimately show ?thesis using snprintf_passes_tests [of 9] by metis
qed

end
