(* ===== verification/Spec2Isabelle.thy ===== *)
theory Spec2Isabelle
  imports Rand_Period StrMem Platform Linux Errno Sqrt_Accuracy Printf_Documented Test_Cases
begin

text \<open>
  Verification of noc, the bare-metal subset of the C library of this repository.

  \<^bold>\<open>The program.\<close>  noc is a set of C files that need only two functions from a platform: \<open>sbrk\<close>
  (memory) and \<open>putnstr\<close> (output).  The allocator of \<open>src/malloc.c\<close> sits on \<open>sbrk\<close> and uses \<open>memcpy\<close>,
  \<open>memmove\<close> and \<open>memset\<close> of \<open>src/memcpy.c\<close>; the formatter of \<open>src/printf.c\<close> writes characters to a
  sink, either a buffer (\<open>snprintf\<close>, \<open>vsnprintf\<close>) or \<open>putnstr\<close> (\<open>printf\<close>, \<open>puts\<close>), and uses the 64-by-32
  division of \<open>src/support/umoddiv.c\<close>; \<open>src/strmem.c\<close>, \<open>src/atoi.c\<close>, \<open>src/rand.c\<close> and \<open>src/abs.c\<close>
  stand alone, as does \<open>src/math/sqrt.c\<close>; \<open>platform/x86_64-pc-linux-gnu.c\<close> is a platform, on system
  calls, with the code that runs before \<open>main\<close>.  The code is compiled for 64-bit targets here (pointers, \<open>size_t\<close> of 64 bits,
  little-endian); what differs between them (assembler versions, signedness of \<open>char\<close>, platform
  division) is a field of the record \<open>target\<close>.

  \<^bold>\<open>The theories.\<close>
  \<^item> \<open>Noc_Prelude\<close>: machine types, the value \<open>fault\<close> for undefined behaviour, word lemmas.
  \<^item> \<open>Division\<close>, \<open>Target\<close>: \<open>umoddiv32\<close> in both versions (locale \<open>divider\<close> for what a division
    promises), the build configuration, \<open>abs\<close> and the character classes of \<open>include/string.h\<close>.
  \<^item> \<open>Memory\<close>, \<open>MemCopy\<close>: memory as a function from addresses to bytes; \<open>memcpy\<close>, \<open>memmove\<close>, \<open>memset\<close>
    loop by loop, equal to \<open>blit\<close> and \<open>fill\<close> (locale \<open>forward_copy\<close> for the copy routines).
  \<^item> \<open>StrMem\<close>: \<open>src/strmem.c\<close>.
  \<^item> \<open>Rand\<close>: the generator and its state.  \<open>Gf2\<close>: polynomials over two elements acting on a space of bit
    vectors (locales \<open>xor_linear\<close> and \<open>annihilated\<close>); \<open>Rand_Period\<close>: interpreted on the step of the
    generator, they give its period.
  \<^item> \<open>Chars\<close>, \<open>Atoi\<close>: strings as the bytes of their object, reading behind the end being a fault.
  \<^item> \<open>Printf\<close>: the formatter; \<open>Printf_Number\<close>: its digit buffer; \<open>Printf_Sink\<close>: the locale \<open>sink\<close>, by
    which what the formatter gives to one sink carries over to all; \<open>Printf_Spec\<close>: fields and \<open>%d\<close>;
    \<open>Printf_Safety\<close>: what it reads and writes.  \<open>Printf_Directives\<close>: formats as data, lists of the
    datatype \<open>directive\<close>, their text and what the code makes of them, \<open>format_output\<close>; \<open>Printf_Refines\<close>: the
    formatter does that; \<open>Printf_Documented\<close>: the documented meaning of formats, where the formatter departs
    from it (\<open>keeps_format\<close>), and that it keeps to it elsewhere.  \<open>Stdio\<close>: the two sinks and the entry points.
  \<^item> \<open>Malloc\<close>: the allocator.  The record \<open>heap\<close> is \<open>struct malloc_state\<close> together with the memory,
    \<open>errno\<close> and the state \<open>env\<close> of the platform; \<open>link\<close> is a \<open>struct free_chunk **\<close>.  \<open>Malloc_Heap\<close> and
    \<open>Malloc_Inv\<close> hold the abstract heap and the invariant \<open>heap_ok\<close>: the free list is a path through
    memory, sorted, with gaps between its blocks, and all blocks are aligned and disjoint.
    \<open>Malloc_Alloc\<close>, \<open>Malloc_Free\<close> and \<open>Malloc_Realloc\<close> prove what \<open>malloc\<close>, \<open>free\<close> and \<open>realloc\<close> do to it.
    \<open>Malloc_Client\<close> states the interface as the locale \<open>allocator\<close>, with the steps of a client as an
    inductive relation, and interprets it on the code's model; \<open>Allocator\<close> has the properties.
  \<^item> \<open>Platform\<close>: \<open>sbrk\<close> of \<open>platform/x86_64-pc-linux-gnu.c\<close> and the allocator on it.  \<open>Linux\<close>: the rest of
    that file: the system call wrappers, which hand a map of registers to the kernel, \<open>putnstr\<close>, \<open>exit\<close>,
    \<open>get_clock\<close>, and the start code, instruction by instruction up to the call of \<open>__start\<close>.
  \<^item> \<open>Errno\<close>: the codes of \<open>include/errno.h\<close>, and what the allocator stores in \<open>errno\<close>.
  \<^item> \<open>Floating\<close>: binary32 and binary64 as real numbers, infinities and NaN, with rounding to nearest
    even; \<open>Sqrt\<close>: \<open>sqrtf\<close> and \<open>sqrt\<close> of \<open>src/math/sqrt.c\<close> on it, and the locales \<open>fp_arith\<close> and
    \<open>fp_binary\<close>, in which the iterations are followed step by step from the error bounds of the rounding
    alone, interpreted on both formats; \<open>Sqrt_Approx\<close>: the real analysis; \<open>Sqrt_Accuracy\<close>: the results.
  \<^item> \<open>Test_Framework\<close>: the checks, reports, counters and runner of \<open>test/test_common.c\<close> and the macros of
    \<open>test/test_common.h\<close>, on \<open>printf\<close>; \<open>Test_Verdicts\<close>: what each check decides, its report included;
    \<open>Test_Runner\<close>: the macros and the exit status; \<open>Test_Cases\<close>: \<open>test/test_snprintf.c\<close> as data.
  \<^item> This theory: properties of several components together.

  \<^bold>\<open>What is shown.\<close>  Both divisions agree; the copy, fill, search and compare functions do what
  \<open>include/string.h\<close> says, for every alignment; the generator passes through all its \<open>2 ^ 64 - 1\<close> states
  before it returns; the formatter stays inside its strings, \<open>snprintf\<close> inside its buffer, every list of
  well-formed directives is parsed and printed as documented outside the departures below, and \<open>%d\<close> prints decimal notation that \<open>atoi\<close> reads back; \<open>sqrtf\<close> and \<open>sqrt\<close> are within \<open>2.1 * 2 ^ - 24\<close> and \<open>2.1 * 2 ^ - 53\<close> of the
  square root, relative to it, on positive normal numbers; \<open>main\<close> starts with its arguments and a zeroed
  \<open>.bss\<close>; \<open>errno\<close> keeps to its type; the allocator keeps its blocks disjoint, never changes a live block,
  coalesces, takes a best fit, and \<open>realloc\<close> keeps the data; a check of the test framework counts and reports a failure
  exactly when the relation of its macro does not hold, and the runner exits with 0 exactly when all hold; the cases of
  \<open>test/test_snprintf.c\<close> hold.  Parameters are \<open>sbrk\<close>, under the
  hypothesis \<open>documented_sbrk\<close> that restates \<open>include/unistd.h\<close> for breaks below \<open>2 ^ 63\<close>, \<open>putnstr\<close>, \<open>main\<close> and the kernel,
  under \<open>documented_write\<close> for its output.

  \<^bold>\<open>Loops.\<close>  Loops are \<open>partial_function (option)\<close> where they may run on (a list with a cycle, a
  string without a terminator), and every theorem states that a result is returned; no fuel is used.

  \<^bold>\<open>Where the code departs from its intent\<close>, with the lemmas that show it: \<open>sbrk\<close> of the Linux
  platform returns the new break (\<open>platform_blocks_overlap\<close>); sizes near \<open>SIZE_MAX\<close> wrap
  (\<open>malloc_size_wraps\<close>); \<open>calloc\<close> clears more than it allocates (\<open>calloc_overruns\<close>), so its theorem is
  for one element; a failing \<open>realloc\<close> may move the object (\<open>realloc_null_moves\<close>), so clients of
  \<open>client_step\<close> give a block up when its \<open>realloc\<close> fails; \<open>free\<close> of a null pointer may read below address
  zero (\<open>free_null_reads\<close>), so they do not call it; a second \<open>free\<close> of the first free block makes
  the list cyclic (\<open>double_free_cycle\<close>); the digit buffer of the formatter can be overrun
  (\<open>number_text_overruns\<close>), pads with zeros in front of the sign (\<open>zeros_before_sign\<close>), ignores \<open>+\<close> for
  short numbers (\<open>plus_ignored_for_short\<close>), takes the precision 0 of a string for none
  (\<open>zero_precision_prints_all\<close>) and dumps bytes above 127 wrongly where \<open>char\<close> is signed
  (\<open>hex_dump_of_negative_char\<close>), does not pad characters (\<open>char_ignores_width\<close>); \<open>memchr\<close> misses high bytes where \<open>char\<close> is signed; the square roots of
  infinity and of negative numbers are not what IEEE 754 says (\<open>sqrtf_infinite\<close>, \<open>sqrtf_minus_one\<close>);
  \<open>TEST_FALSE\<close> accepts values above 1 (\<open>test_false_accepts_ten\<close>), and \<open>TEST_INT_NEAR\<close> no negative ones
  (\<open>int_near_never_negative\<close>).

  \<^bold>\<open>Not modelled.\<close>  The sign of floating-point zeros and the payload of NaNs, on which no result
  here depends but in the sign of a zero; the accuracy of the square roots of subnormal arguments (and
  in \<open>sqrt\<close> of the least normal exponent), which is poor.  The address of \<open>errno\<close>, a thread-local variable,
  which \<open>__errno\<close> returns: its value is a field of \<open>heap\<close>.  The linker script and the kernel.  The other files
  under \<open>test\<close>, which only call the functions above with constants and check the results.
\<close>

section \<open>Properties that span components\<close>

lemma nul_at_bytes:
  "bytes_at m s (Suc n) = xs @ [0] \<Longrightarrow> 0 \<notin> set xs \<Longrightarrow> nul_at m s n"
proof (induction n arbitrary: s xs)
  case 0
  then show ?case by (cases xs) (auto simp: bytes_at_Suc)
next
  case (Suc n)
  then have b: "m s # bytes_at m (s + 1) (Suc n) = xs @ [0]" by (simp only: bytes_at_Suc)
  then obtain ys where "xs = m s # ys" by (cases xs) (auto simp: bytes_at_Suc)
  with b Suc show ?case by (auto simp: nul_at_Suc)
qed

lemma digit_val_digit_char: "d < 10 \<Longrightarrow> digit_val (digit_char a d) = d \<and> is_digit (digit_char a d)"
  using digit_char_nonzero [of d a] by (auto simp: digit_val_def is_digit_def word_le_nat_alt)

lemma number_digits_value: "of_digits 10 (number_digits 10 0 n) = n"
  using of_digits_of [of 10 n] by (simp add: number_digits_def of_digits_def)

lemma atoi_decimal:
  "atoi t (decimal z @ [0]) = (if \<bar>z\<bar> < 2 ^ 31 then Inr z else Inl Signed_Overflow)"
proof -
  define n where "n = nat \<bar>z\<bar>"
  let ?ds = "map (digit_char 97) (number_digits 10 0 n)"
  have d: "\<forall>d \<in> set (number_digits 10 0 n). d < 10" by (rule number_digits_decimal)
  have ne: "number_digits 10 0 n \<noteq> []"
    using digits_of_hd [of 10 n] by (simp add: number_digits_def)
  have "map digit_val ?ds = number_digits 10 0 n"
    using d digit_val_digit_char by (simp add: map_idI)
  then have v: "of_digits 10 (map digit_val ?ds) = n" by (simp only: number_digits_value)
  have "decimal z @ [0] = [] @ (if z < 0 then [45] else []) @ ?ds @ 0 # []"
    by (simp add: decimal_def n_def)
  also have "atoi t \<dots> = (if n < 2 ^ 31 then Inr (if z < 0 then - int n else int n) else Inl Signed_Overflow)"
    using d ne digit_val_digit_char v
    by (subst atoi_spec) (auto simp: is_digit_def)
  finally show ?thesis by (simp add: n_def nat_less_iff abs_if)
qed

text \<open>
  C8. Printing an \<open>int\<close> with \<open>snprintf\<close> and reading it back with \<open>atoi\<close> gives the number again; only
  \<open>INT_MIN\<close> is printed correctly but not read back.  The number of characters \<open>snprintf\<close> returns is
  the length \<open>strlen\<close> finds in the buffer.
\<close>

theorem print_read_roundtrip:
  assumes "s \<noteq> 0" and "unat s + 12 \<le> 2 ^ 64"
  shows "\<exists>m' k. snprintf t m s 12 (Some [37, 100, 0]) [Arg32 w] = Inr (m', int k)
    \<and> strlen t m' s = Some (of_nat k)
    \<and> atoi t (bytes_at m' s (Suc k)) = (if sint w = - (2 ^ 31) then Inl Signed_Overflow else Inr (sint w))"
proof -
  let ?d = "decimal (sint w)"
  have w: "- (2 ^ 31) \<le> sint w" "sint w < 2 ^ 31"
    using uint_bounded [of w] uint_lt2p [of w] by (auto simp: sint_u32 intro: order_trans [of _ 0])
  then have "\<bar>sint w\<bar> < 10 ^ 10" by simp
  then have len: "length ?d \<le> 11" by (rule decimal_length)
  have f: "formatted t [37, 100, 0] [Arg32 w] = Inr (?d, int (length ?d))"
    using formatted_d [of "[]" "[]" t w] by simp
  have "min (length ?d) (unat (12 :: u64) - 1) = length ?d" using len by simp
  then obtain m' where p: "snprintf t m s 12 (Some [37, 100, 0]) [Arg32 w] = Inr (m', int (length ?d))"
      and b: "bytes_at m' s (Suc (length ?d)) = ?d @ [0]"
    using snprintf_spec [OF _ _ f, of 12 s m] assms(2) by auto
  have "nul_at m' s (length ?d)" by (rule nul_at_bytes [OF b decimal_no_nul])
  then have "strlen t m' s = Some (of_nat (length ?d))"
    using scan_nul_finds [of m' s "length ?d"] strlen_x86_loop_finds [of m' s 0 "length ?d"] assms(1)
    by (simp add: strlen_def strlen_c_def strlen_x86_def)
  moreover have "\<bar>sint w\<bar> < 2 ^ 31 \<longleftrightarrow> sint w \<noteq> - (2 ^ 31)" using w by (auto simp: abs_if)
  ultimately show ?thesis
    using p b by (intro exI [of _ m'] exI [of _ "length ?d"]) (simp add: atoi_decimal)
qed

lemma print_read_roundtrip_witness:
  "\<exists>m' k. snprintf aarch64_target (\<lambda>_. 7) 0x1000 12 (Some [37, 100, 0]) [Arg32 (- 5)] = Inr (m', int k)
    \<and> atoi aarch64_target (bytes_at m' 0x1000 (Suc k)) = Inr (- 5)"
  using print_read_roundtrip [of "0x1000" aarch64_target "\<lambda>_. 7" "- 5"] by auto

section \<open>Output into allocated memory\<close>

text \<open>
  C36. \<open>snprintf\<close> into the data of a live block of the allocator, with a size that fits the block: the
  heap stays well-formed, the other blocks keep their bytes, and the buffer holds the terminated
  output.
\<close>

theorem snprintf_into_block:
  assumes "heap_ok brk h fl A" and "(c, k) \<in> A" and "n \<noteq> 0" and "unat n + 8 \<le> k"
    and "formatted t format args = Inr (xs, r)"
  defines "l \<equiv> min (length xs) (unat n - 1)"
  shows "\<exists>m'. snprintf t (memory h) (of_nat (c + 8)) n (Some format) args = Inr (m', r)
    \<and> heap_ok brk (h\<lparr>memory := m'\<rparr>) fl A \<and> untouched (A - {(c, k)}) (memory h) m'
    \<and> bytes_at m' (of_nat (c + 8)) (Suc l) = take l xs @ [0]"
proof -
  have "insert (c, k) A = A" using assms(2) by blast
  then have "c + k < 2 ^ 63" using live_block(2) [of brk h fl c k A] assms(1) by simp
  then have top: "c + 8 + unat n < 2 ^ 64" "unat (of_nat (c + 8) :: addr) = c + 8"
    using assms(4) by (simp_all add: unat_of_nat_eq del: of_nat_add)
  then have "unat (of_nat (c + 8) :: addr) + unat n \<le> 2 ^ 64" by simp
  from snprintf_spec [OF assms(3) this assms(5), of "memory h"]
  obtain m' where p: "snprintf t (memory h) (of_nat (c + 8)) n (Some format) args = Inr (m', r)"
      "bytes_at m' (of_nat (c + 8)) (Suc l) = take l xs @ [0]"
      and out: "\<forall>x. unat (x - of_nat (c + 8)) \<ge> unat n \<longrightarrow> m' x = memory h x"
    unfolding l_def by blast
  have "same_but (c + 8) (c + k) (memory h) m'" unfolding same_but_def
  proof (intro allI impI)
    fix x assume x: "x < 2 ^ 63" "\<not> (c + 8 \<le> x \<and> x < c + k)"
    then have "x < 2 ^ 64" "\<not> (c + 8 \<le> x \<and> x < c + 8 + unat n)" using assms(4) by auto
    then have "\<not> unat (of_nat x - of_nat (c + 8) :: addr) < unat n" using unat_offset [OF _ top(1)] by blast
    then show "m' (of_nat x) = memory h (of_nat x)" using out by simp
  qed
  from store_data [OF assms(1,2) this] show ?thesis using p by blast
qed

lemma snprintf_into_block_witness:
  "\<exists>m'. snprintf x86_64_target (memory sample_blocks) (of_nat (0x10050 + 8)) 8 (Some [37, 100, 0]) [Arg32 (- 42)]
      = Inr (m', 3)
    \<and> heap_ok (\<lambda>b. b) (sample_blocks\<lparr>memory := m'\<rparr>) [(0x10020, 48), (0x10070, 64)]
        {(0x10000, 32), (0x10050, 32)}"
proof -
  have "decimal (- 42) = [45, 52, 50]" by code_simp
  then have f: "formatted x86_64_target [37, 100, 0] [Arg32 (- 42)] = Inr ([45, 52, 50], 3)"
    using formatted_d [of "[]" "[]" x86_64_target "- 42"] by simp
  show ?thesis
    using snprintf_into_block [OF sample_blocks_ok _ _ _ f, of "0x10050" 32 8] by fastforce
qed

section \<open>A program that prints\<close>

text \<open>The calls of \<open>printf\<close> a program makes, one after the other.\<close>

fun print_all ::
  "target \<Rightarrow> (console \<Rightarrow> byte list \<Rightarrow> int) \<Rightarrow> (byte list \<times> vararg list) list \<Rightarrow> console \<Rightarrow> console res" where
  "print_all t result [] con = Inr con"
| "print_all t result ((format, args) # calls) con =
     bind_res (printf t result con (Some format) args) (\<lambda>(con, _). print_all t result calls con)"

text \<open>A call with a documented meaning that is not empty and that the formatter keeps to.\<close>

definition meaningful :: "directive list \<times> vararg list \<Rightarrow> bool" where
  "meaningful = (\<lambda>(ds, args). list_all well_formed ds \<and> keeps_format ds args
     \<and> (case documented_format ds args of None \<Rightarrow> False | Some (out, _) \<Rightarrow> out \<noteq> [] \<and> int (length out) < 2 ^ 30))"

definition meaning :: "directive list \<times> vararg list \<Rightarrow> byte list" where
  "meaning = (\<lambda>(ds, args). case documented_format ds args of None \<Rightarrow> [] | Some (out, _) \<Rightarrow> out)"

lemma printf_meaning:
  assumes "meaningful (ds, args)" and "\<And>con s. 0 \<le> result con s"
  shows "\<exists>con2 r. printf t result con (Some (format_text ds)) args = Inr (con2, r)
    \<and> concat con2 = concat con @ meaning (ds, args)"
proof -
  obtain out args' where o: "documented_format ds args = Some (out, args')" "keeps_format ds args" "out \<noteq> []" "int (length out) < 2 ^ 30"
      "\<forall>d \<in> set ds. well_formed d"
    using assms(1) by (auto simp: meaningful_def list_all_iff split: option.splits)
  have "length out < 2 ^ 30" using o(4) by simp
  from formatted_documented [OF o(5,1,2) this, of t] printf_pieces [of t "format_text ds" args out "int (length out)" result con] o(3) assms(2)
  obtain pieces piece where "printf t result con (Some (format_text ds)) args =
      Inr (con @ pieces @ [piece], as_int (result (con @ pieces) piece))" "concat (pieces @ [piece]) = out"
    by auto
  then show ?thesis using o(1) by (simp add: meaning_def)
qed

text \<open>
  C7. Any sequence of calls of \<open>printf\<close> prints, on a platform that prints what it is given, the documented
  texts of its formats in the order of the calls, whatever their lengths and however the buffer cuts
  them, as long as every format stays clear of the departures named by \<open>keeps_format\<close>.
\<close>

theorem printf_calls_in_order:
  assumes "list_all meaningful calls" and "\<And>con s. 0 \<le> result con s"
  shows "\<exists>con2. print_all t result (map (\<lambda>(ds, args). (format_text ds, args)) calls) con = Inr con2
    \<and> concat con2 = concat con @ concat (map meaning calls)"
  using assms(1)
proof (induction calls arbitrary: con)
  case (Cons call calls)
  obtain ds args where c: "call = (ds, args)" by (cases call)
  obtain con1 r where 1: "printf t result con (Some (format_text ds)) args = Inr (con1, r)"
      "concat con1 = concat con @ meaning (ds, args)"
    using printf_meaning [of ds args result t con] assms(2) Cons.prems c by auto
  then show ?case using Cons.IH [of con1] Cons.prems c by auto
qed simp

lemma printf_calls_in_order_witness:
  "\<exists>con2. print_all x86_64_target (\<lambda>_ s. int (length s))
      [([37, 100, 0], [Arg32 (- 7)]), ([44, 37, 120, 10, 0], [Arg32 171])] [] = Inr con2
    \<and> concat con2 = [45, 55, 44, 97, 98, 10]"
proof -
  let ?d = "[Conv [] Absent None No_length Dec]"
  let ?x = "[Plain 44, Conv [] Absent None No_length Hex_low, Plain 10]"
  have "format_text ?d = [37, 100, 0]" "format_text ?x = [44, 37, 120, 10, 0]" by code_simp+
  moreover have "meaningful (?d, [Arg32 (- 7)])" "meaningful (?x, [Arg32 171])" by code_simp+
  moreover have "meaning (?d, [Arg32 (- 7)]) = [45, 55]" "meaning (?x, [Arg32 171]) = [44, 97, 98, 10]"
    by code_simp+
  ultimately show ?thesis
    using printf_calls_in_order [of "[(?d, [Arg32 (- 7)]), (?x, [Arg32 171])]" "\<lambda>_ s. int (length s)" x86_64_target "[]"]
    by simp
qed

end
